theory Spec2Isabelle
  imports Main
begin

section \<open>The task model (executor.ts, interface TaskStep)\<close>

text \<open>
  \<^verbatim>\<open>status: 'pending' | 'running' | 'completed' | 'failed'\<close> is an enumeration;
  the optional fields \<^verbatim>\<open>result?: any\<close> and \<^verbatim>\<open>error?: string\<close> are options. The type
  \<open>'r\<close> stands for the values an agent returns (\<^verbatim>\<open>any\<close> in the source).
\<close>

datatype status = Pending | Running | Completed | Failed

record 'r TaskStep =
  tid :: string
  name :: string
  description :: string
  agentType :: string
  dependencies :: "string list"
  status :: status
  result :: "'r option"
  error :: "string option"

section \<open>The ready set (coordinator.ts, lines 24 and 31-39)\<close>

text \<open>
  \<^verbatim>\<open>new Map(tasks.map((t) => [t.id, t]))\<close>: a later entry with the same id replaces an
  earlier one, hence the reversal before \<open>map_of\<close>, which takes the first match. The map
  holds references to the task objects, so a lookup always sees the current status; as
  ids are never assigned to, building the map from the current collection gives exactly
  that view.
\<close>

definition taskMap :: "'r TaskStep list \<Rightarrow> (string \<rightharpoonup> 'r TaskStep)" where
  "taskMap ts = map_of (rev (map (\<lambda>t. (tid t, t)) ts))"

text \<open>
  The filter callback of lines 31-39. \<^verbatim>\<open>depTask?.status === 'completed'\<close> is false when
  the id is not in the map.
\<close>

definition isReady :: "'r TaskStep list \<Rightarrow> 'r TaskStep \<Rightarrow> bool" where
  "isReady ts task =
     (if status task \<noteq> Pending then False
      else list_all (\<lambda>depId. case taskMap ts depId of
                                None \<Rightarrow> False
                              | Some depTask \<Rightarrow> status depTask = Completed)
             (dependencies task))"

definition readyTasks :: "'r TaskStep list \<Rightarrow> 'r TaskStep list" where
  "readyTasks ts = filter (isReady ts) ts"

text \<open>
  The task objects are mutated in place later on, so the scheduler below refers to them
  by their position in the array: \<open>readyIdx\<close> is \<open>readyTasks\<close> as positions.
\<close>

definition readyIdx :: "'r TaskStep list \<Rightarrow> nat list" where
  "readyIdx ts = filter (\<lambda>i. isReady ts (ts ! i)) [0..<length ts]"

section \<open>Failure propagation (coordinator.ts, lines 313-325)\<close>

text \<open>
  \<^verbatim>\<open>tasks.filter((t) => t.dependencies.includes(failedTaskId))\<close>, as positions. The list
  is computed once on entry; the loop then reads each task's status as it is when the
  loop reaches it.
\<close>

definition dependents :: "string \<Rightarrow> 'r TaskStep list \<Rightarrow> nat list" where
  "dependents failedTaskId ts =
     filter (\<lambda>i. failedTaskId \<in> set (dependencies (ts ! i))) [0..<length ts]"

definition depFailedMsg :: "string \<Rightarrow> string" where
  "depFailedMsg failedTaskId = ''Dependency '' @ failedTaskId @ '' failed''"

definition markFailed :: "string \<Rightarrow> 'r TaskStep \<Rightarrow> 'r TaskStep" where
  "markFailed msg t = t\<lparr>status := Failed, error := Some msg\<rparr>"

definition pendingCount :: "'r TaskStep list \<Rightarrow> nat" where
  "pendingCount ts = length (filter (\<lambda>t. status t = Pending) ts)"

text \<open>
  \<open>markLoop failedTaskId is ts\<close> is the \<^verbatim>\<open>for (const task of dependents)\<close> loop with the
  dependents \<open>is\<close> still to visit; the recursive call of line 322 is the inner
  \<open>markLoop\<close> on the dependents of the task just marked. The loop ranges over objects of the
  array, so a position is always in range; the test \<open>i < length ts\<close> only makes the
  function total on lists of positions that no call produces.
\<close>

function markLoop :: "string \<Rightarrow> nat list \<Rightarrow> 'r TaskStep list \<Rightarrow> 'r TaskStep list" where
  "markLoop failedTaskId [] ts = ts"
| "markLoop failedTaskId (i # is) ts =
     (if i < length ts \<and> status (ts ! i) = Pending then
        (let ts' = ts[i := markFailed (depFailedMsg failedTaskId) (ts ! i)]
         in markLoop failedTaskId is
              (markLoop (tid (ts' ! i)) (dependents (tid (ts' ! i)) ts') ts'))
      else markLoop failedTaskId is ts)"
  by pat_completeness auto

lemma pendingCount_update_less:
  "i < length ts \<Longrightarrow> status (ts ! i) = Pending \<Longrightarrow>
   pendingCount (ts[i := markFailed m (ts ! i)]) < pendingCount ts"
proof (induction ts arbitrary: i)
  case Nil
  then show ?case by simp
next
  case (Cons t ts)
  show ?case
  proof (cases i)
    case 0
    with Cons.prems show ?thesis
      by (simp add: pendingCount_def markFailed_def)
  next
    case (Suc j)
    with Cons.prems have "pendingCount (ts[j := markFailed m (ts ! j)]) < pendingCount ts"
      using Cons.IH [of j] by simp
    with Suc show ?thesis by (simp add: pendingCount_def)
  qed
qed

lemma markLoop_dom_pendingCount:
  "markLoop_dom (f, is, ts) \<Longrightarrow> pendingCount (markLoop f is ts) \<le> pendingCount ts"
proof (induction f "is" ts rule: markLoop.pinduct)
  case (1 f ts)
  then show ?case by (simp add: markLoop.psimps)
next
  case (2 f i "is" ts)
  show ?case
  proof (cases "i < length ts \<and> status (ts ! i) = Pending")
    case True
    define ts' where "ts' = ts[i := markFailed (depFailedMsg f) (ts ! i)]"
    define ts'' where "ts'' = markLoop (tid (ts' ! i)) (dependents (tid (ts' ! i)) ts') ts'"
    have a: "pendingCount ts' < pendingCount ts"
      using True by (simp add: ts'_def pendingCount_update_less)
    have b: "pendingCount ts'' \<le> pendingCount ts'"
      using "2.IH"(1) [OF True ts'_def] by (simp add: ts''_def)
    have c: "pendingCount (markLoop f is ts'') \<le> pendingCount ts''"
      using "2.IH"(2) [OF True ts'_def] by (simp add: ts''_def)
    have "markLoop f (i # is) ts = markLoop f is ts''"
      using True "2.hyps" by (simp add: markLoop.psimps ts'_def ts''_def Let_def)
    with a b c show ?thesis by simp
  next
    case False
    then have "markLoop f (i # is) ts = markLoop f is ts"
      using "2.hyps" by (auto simp: markLoop.psimps)
    with "2.IH"(3) False show ?thesis by auto
  qed
qed

termination markLoop
proof (relation "measures [\<lambda>(f, is, ts). pendingCount ts, \<lambda>(f, is, ts). length is]", goal_cases)
  case 1
  then show ?case by simp
next
  case (2 failedTaskId i "is" ts x)
  then show ?case by (simp add: pendingCount_update_less)
next
  case (3 failedTaskId i "is" ts x)
  have "pendingCount (markLoop (tid (x ! i)) (dependents (tid (x ! i)) x) x) \<le> pendingCount x"
    using 3(3) by (rule markLoop_dom_pendingCount)
  moreover have "pendingCount x < pendingCount ts"
    using 3(1,2) by (simp add: pendingCount_update_less)
  ultimately show ?case by simp
next
  case (4 failedTaskId i "is" ts)
  then show ?case by simp
qed

definition markDependentTasksAsFailed :: "string \<Rightarrow> 'r TaskStep list \<Rightarrow> 'r TaskStep list" where
  "markDependentTasksAsFailed failedTaskId ts =
     markLoop failedTaskId (dependents failedTaskId ts) ts"

section \<open>Collaborators: the notifier and the agents\<close>

text \<open>
  The three notifications differ in the text they send; the text is determined by the
  fields kept here (task name and description, task name, task name and error message).
\<close>

datatype message =
    MsgStart string string
  | MsgComplete string
  | MsgFailed string string

text \<open>
  The calls the coordinator makes to its collaborators, in the order it makes them:
  \<open>Sent chat msg\<close> for \<^verbatim>\<open>larkClient.sendMessage\<close>, \<open>RunAgent id\<close> for the call of
  \<^verbatim>\<open>executeTask\<close> on the task with that id.
\<close>

datatype event = Sent string message | RunAgent string

text \<open>
  \<^verbatim>\<open>LarkClient.sendMessage\<close> and the agents behind \<^verbatim>\<open>executeTask\<close> do network and
  model calls; what they return is not determined by the coordinator. They are
  parameters: each is given the calls made so far and its arguments, and either returns
  or throws an \<^verbatim>\<open>Error\<close> with a message (\<open>Some m\<close>, \<open>Inl m\<close>). The agent is the one
  that the \<^verbatim>\<open>switch (task.agentType)\<close> of lines 112-146 selects; it gets the task and the
  \<^verbatim>\<open>{id, result}\<close> pairs of its dependencies.
\<close>

record 'r env =
  larkClient :: "(event list \<Rightarrow> string \<Rightarrow> message \<Rightarrow> string option) option"
  chatId :: "string option"
  agent :: "event list \<Rightarrow> 'r TaskStep \<Rightarrow> (string \<times> 'r option) list \<Rightarrow> string + 'r"

section \<open>The state of a run\<close>

text \<open>
  \<open>tasks\<close> is the array passed to \<^verbatim>\<open>executeTaskDAG\<close>, whose objects the run mutates;
  \<open>results\<close> is the map the run returns; \<open>log\<close> records the calls to the collaborators.
  \<open>sched\<close> decides which of the suspended callbacks of a wave is resumed next: the order
  in which the awaited promises settle is not determined by the coordinator.
\<close>

record 'r run =
  tasks :: "'r TaskStep list"
  results :: "string \<rightharpoonup> 'r"
  log :: "event list"
  sched :: "nat list"

definition updTask :: "nat \<Rightarrow> ('r TaskStep \<Rightarrow> 'r TaskStep) \<Rightarrow> 'r run \<Rightarrow> 'r run" where
  "updTask i f s = s\<lparr>tasks := (tasks s)[i := f (tasks s ! i)]\<rparr>"

text \<open>
  The body shared by the three notify methods (lines 330-370):
  \<^verbatim>\<open>if (this.larkClient && this.chatId) await this.larkClient.sendMessage(...)\<close>. An empty
  string is falsy in JavaScript, so an empty chat id sends nothing.
\<close>

definition notify :: "'r env \<Rightarrow> message \<Rightarrow> 'r run \<Rightarrow> string option \<times> 'r run" where
  "notify env msg s =
     (case larkClient env of
        None \<Rightarrow> (None, s)
      | Some client \<Rightarrow>
          (case chatId env of
             None \<Rightarrow> (None, s)
           | Some chat \<Rightarrow>
               if chat = [] then (None, s)
               else (client (log s) chat msg, s\<lparr>log := log s @ [Sent chat msg]\<rparr>)))"

definition notifyTaskStart :: "'r env \<Rightarrow> 'r TaskStep \<Rightarrow> 'r run \<Rightarrow> string option \<times> 'r run" where
  "notifyTaskStart env task s = notify env (MsgStart (name task) (description task)) s"

definition notifyTaskComplete :: "'r env \<Rightarrow> 'r TaskStep \<Rightarrow> 'r run \<Rightarrow> string option \<times> 'r run" where
  "notifyTaskComplete env task s = notify env (MsgComplete (name task)) s"

definition notifyTaskFailed ::
  "'r env \<Rightarrow> 'r TaskStep \<Rightarrow> string \<Rightarrow> 'r run \<Rightarrow> string option \<times> 'r run" where
  "notifyTaskFailed env task m s = notify env (MsgFailed (name task) m) s"

text \<open>Lines 99-147: collect the dependencies' results from the map, call the agent.\<close>

definition executeTask :: "'r env \<Rightarrow> 'r TaskStep \<Rightarrow> 'r run \<Rightarrow> (string + 'r) \<times> 'r run" where
  "executeTask env task s =
     (let dependencyResults = map (\<lambda>depId. (depId, results s depId)) (dependencies task)
      in (agent env (log s) task dependencyResults, s\<lparr>log := log s @ [RunAgent (tid task)]\<rparr>))"

section \<open>One task of a wave (coordinator.ts, lines 56-82)\<close>

text \<open>
  The callback of \<^verbatim>\<open>readyTasks.map(async (task) => ...)\<close> runs until its first
  \<^verbatim>\<open>await\<close>, is suspended there, and is resumed when the awaited promise has settled.
  JavaScript runs each stretch between two \<^verbatim>\<open>await\<close>s without interruption, so a
  callback is a sequence of atomic steps. A suspended callback is represented by what it
  awaits and how that will settle.
\<close>

datatype 'r cont =
    AwaitStart "string option"
  | AwaitExec "string + 'r"
  | AwaitComplete "string option"
  | AwaitFailed "string option"

text \<open>Lines 57 and 60, up to the first \<^verbatim>\<open>await\<close>.\<close>

definition startTask :: "'r env \<Rightarrow> nat \<Rightarrow> 'r run \<Rightarrow> 'r cont \<times> 'r run" where
  "startTask env i s =
     (let s1 = updTask i (\<lambda>t. t\<lparr>status := Running\<rparr>) s;
          (out, s2) = notifyTaskStart env (tasks s1 ! i) s1
      in (AwaitStart out, s2))"

text \<open>
  Lines 71-75, the \<^verbatim>\<open>catch\<close> block up to its \<^verbatim>\<open>await\<close>. It catches whatever is thrown
  between lines 60 and 70: by \<^verbatim>\<open>notifyTaskStart\<close>, by \<^verbatim>\<open>executeTask\<close> or by
  \<^verbatim>\<open>notifyTaskComplete\<close>.
\<close>

definition catchBlock :: "'r env \<Rightarrow> nat \<Rightarrow> string \<Rightarrow> 'r run \<Rightarrow> 'r cont \<times> 'r run" where
  "catchBlock env i m s =
     (let s1 = updTask i (\<lambda>t. t\<lparr>status := Failed, error := Some m\<rparr>) s;
          (out, s2) = notifyTaskFailed env (tasks s1 ! i) m s1
      in (AwaitFailed out, s2))"

text \<open>
  Resuming the callback of task \<open>i\<close>. The result is \<open>Inr (Some c)\<close> when the callback is
  suspended again, \<open>Inr None\<close> when it has returned, and \<open>Inl m\<close> when it has thrown:
  only a failure of \<^verbatim>\<open>notifyTaskFailed\<close> (line 75, inside the \<^verbatim>\<open>catch\<close> block) does that,
  and then line 80 is not reached.
\<close>

fun resume :: "'r env \<Rightarrow> nat \<Rightarrow> 'r cont \<Rightarrow> 'r run \<Rightarrow> (string + 'r cont option) \<times> 'r run" where
  "resume env i (AwaitStart None) s =
     (let (out, s1) = executeTask env (tasks s ! i) s in (Inr (Some (AwaitExec out)), s1))"
| "resume env i (AwaitStart (Some m)) s =
     (let (c, s1) = catchBlock env i m s in (Inr (Some c), s1))"
| "resume env i (AwaitExec (Inr r)) s =
     (let s1 = updTask i (\<lambda>t. t\<lparr>status := Completed, result := Some r\<rparr>) s;
          s2 = s1\<lparr>results := (results s1)(tid (tasks s1 ! i) \<mapsto> r)\<rparr>;
          (out, s3) = notifyTaskComplete env (tasks s2 ! i) s2
      in (Inr (Some (AwaitComplete out)), s3))"
| "resume env i (AwaitExec (Inl m)) s =
     (let (c, s1) = catchBlock env i m s in (Inr (Some c), s1))"
| "resume env i (AwaitComplete None) s = (Inr None, s)"
| "resume env i (AwaitComplete (Some m)) s =
     (let (c, s1) = catchBlock env i m s in (Inr (Some c), s1))"
| "resume env i (AwaitFailed None) s =
     (Inr None, s\<lparr>tasks := markDependentTasksAsFailed (tid (tasks s ! i)) (tasks s)\<rparr>)"
| "resume env i (AwaitFailed (Some m)) s = (Inl m, s)"

section \<open>A wave and the scheduling loop (coordinator.ts, lines 22-94)\<close>

text \<open>
  \<^verbatim>\<open>readyTasks.map(async ...)\<close> calls the callback on each ready task in turn; each call
  runs up to its first \<^verbatim>\<open>await\<close> before the next one starts. The result is the list of
  suspended callbacks, each with the position of its task.
\<close>

fun dispatchAll ::
  "'r env \<Rightarrow> nat list \<Rightarrow> (nat \<times> 'r cont) list \<Rightarrow> 'r run \<Rightarrow> (nat \<times> 'r cont) list \<times> 'r run" where
  "dispatchAll env [] fl s = (fl, s)"
| "dispatchAll env (i # is) fl s =
     (let (c, s1) = startTask env i s in dispatchAll env is (fl @ [(i, c)]) s1)"

text \<open>How many more times a suspended callback can be resumed, at most.\<close>

fun rank :: "'r cont \<Rightarrow> nat" where
  "rank (AwaitStart _) = 4"
| "rank (AwaitExec _) = 3"
| "rank (AwaitComplete _) = 2"
| "rank (AwaitFailed _) = 1"

text \<open>
  The callback to resume next among \<open>n\<close> suspended ones: the one the head of the
  schedule names (modulo \<open>n\<close>), the first when the schedule is used up.
\<close>

definition nextUp :: "nat list \<Rightarrow> nat \<Rightarrow> nat" where
  "nextUp sch n = (case sch of [] \<Rightarrow> 0 | k # _ \<Rightarrow> k mod n)"

text \<open>
  \<^verbatim>\<open>await Promise.all(...)\<close>: the suspended callbacks \<open>fl\<close> are resumed one step at a
  time, in the order \<open>sched\<close> gives, until all have returned (\<open>Inr\<close>) or one has thrown
  (\<open>Inl\<close>, with the state at that moment): \<^verbatim>\<open>Promise.all\<close> rejects with the first
  rejection, and \<^verbatim>\<open>executeTaskDAG\<close> has no handler for it. The callbacks that are still
  suspended at that moment are not followed further: \<^verbatim>\<open>executeTaskDAG\<close> has thrown, and
  what they do afterwards is not part of its run.
\<close>

function awaitAll ::
  "'r env \<Rightarrow> (nat \<times> 'r cont) list \<Rightarrow> 'r run \<Rightarrow> (string \<times> 'r run) + 'r run" where
  "awaitAll env fl s =
     (if fl = [] then Inr s
      else
        (let k = nextUp (sched s) (length fl);
             r = resume env (fst (fl ! k)) (snd (fl ! k)) (s\<lparr>sched := tl (sched s)\<rparr>)
         in case fst r of
              Inl m \<Rightarrow> Inl (m, snd r)
            | Inr None \<Rightarrow> awaitAll env (take k fl @ drop (Suc k) fl) (snd r)
            | Inr (Some c) \<Rightarrow> awaitAll env (fl[k := (fst (fl ! k), c)]) (snd r)))"
  by pat_completeness auto

lemma resume_rank: "resume env i c s = (Inr (Some c'), s') \<Longrightarrow> rank c' < rank c"
  by (cases "(env, i, c, s)" rule: resume.cases)
     (auto simp: catchBlock_def Let_def split: prod.splits)

lemma nextUp_less: "0 < n \<Longrightarrow> nextUp sch n < n"
  by (simp add: nextUp_def split: list.splits)

lemma sum_list_rank_remove:
  "k < length fl \<Longrightarrow>
   sum_list (map (\<lambda>p. rank (snd p)) (take k fl @ drop (Suc k) fl)) + rank (snd (fl ! k))
     = sum_list (map (\<lambda>p. rank (snd p)) fl)"
proof -
  assume k: "k < length fl"
  have "fl = take k fl @ fl ! k # drop (Suc k) fl"
    using k by (simp add: id_take_nth_drop)
  then have "sum_list (map (\<lambda>p. rank (snd p)) fl)
      = sum_list (map (\<lambda>p. rank (snd p)) (take k fl @ fl ! k # drop (Suc k) fl))"
    by simp
  then show ?thesis by simp
qed

lemma sum_list_rank_update:
  "k < length fl \<Longrightarrow>
   sum_list (map (\<lambda>p. rank (snd p)) (fl[k := (i, c)])) + rank (snd (fl ! k))
     = sum_list (map (\<lambda>p. rank (snd p)) fl) + rank c"
proof -
  assume k: "k < length fl"
  have "fl[k := (i, c)] = take k fl @ (i, c) # drop (Suc k) fl"
    using k by (simp add: upd_conv_take_nth_drop)
  then show ?thesis
    using sum_list_rank_remove [OF k] by simp
qed

lemma rank_pos: "0 < rank c"
  by (cases c) auto

termination awaitAll
proof (relation "measure (\<lambda>(env, fl, s). sum_list (map (\<lambda>p. rank (snd p)) fl))", goal_cases)
  case 1
  then show ?case by simp
next
  case (2 env fl s k r m)
  then have k: "k < length fl" by (simp add: nextUp_less)
  show ?case
    using sum_list_rank_remove [OF k] rank_pos [of "snd (fl ! k)"] by simp
next
  case (3 env fl s k r m c)
  then have k: "k < length fl" by (simp add: nextUp_less)
  have "resume env (fst (fl ! k)) (snd (fl ! k)) (s\<lparr>sched := tl (sched s)\<rparr>) = (Inr (Some c), snd r)"
    using 3 by (metis prod.collapse)
  then have "rank c < rank (snd (fl ! k))" by (rule resume_rank)
  then show ?case
    using sum_list_rank_update [OF k, of "fst (fl ! k)" c] by simp
qed

declare awaitAll.simps [simp del]

text \<open>
  The \<^verbatim>\<open>while\<close> loop of lines 29-84. \<^verbatim>\<open>await this.sleep(100); continue\<close> changes
  nothing in the state and tests the loop condition again. \<open>None\<close> is a loop that does
  not end; \<open>Some (Inl (m, s))\<close> is a run that throws \<open>m\<close>, \<open>Some (Inr s)\<close> is a run that
  reaches line 93.
\<close>

partial_function (option) schedulingLoop ::
  "'r env \<Rightarrow> 'r run \<Rightarrow> ((string \<times> 'r run) + 'r run) option" where
  "schedulingLoop env s =
     (if list_ex (\<lambda>t. status t = Pending \<or> status t = Running) (tasks s) then
        (if readyIdx (tasks s) = [] then
           (if list_ex (\<lambda>t. status t = Running) (tasks s) then schedulingLoop env s
            else Some (Inr s))
         else
           (case dispatchAll env (readyIdx (tasks s)) [] s of
              (fl, s1) \<Rightarrow>
                (case awaitAll env fl s1 of
                   Inl e \<Rightarrow> Some (Inl e)
                 | Inr s2 \<Rightarrow> schedulingLoop env s2)))
      else Some (Inr s))"

declare schedulingLoop.simps [code]

definition initRun :: "nat list \<Rightarrow> 'r TaskStep list \<Rightarrow> 'r run" where
  "initRun schedule ts = \<lparr>tasks = ts, results = Map.empty, log = [], sched = schedule\<rparr>"

definition executeTaskDAG ::
  "'r env \<Rightarrow> nat list \<Rightarrow> 'r TaskStep list \<Rightarrow> ((string \<times> 'r run) + 'r run) option" where
  "executeTaskDAG env schedule ts = schedulingLoop env (initRun schedule ts)"

section \<open>Notions used to state the properties\<close>

text \<open>
  Position \<open>i\<close> holds a pending task; the task at \<open>i\<close> names the id of the task at \<open>j\<close>
  among its dependencies.
\<close>

definition pendingAt :: "'r TaskStep list \<Rightarrow> nat \<Rightarrow> bool" where
  "pendingAt ts i \<longleftrightarrow> i < length ts \<and> status (ts ! i) = Pending"

definition dependsOn :: "'r TaskStep list \<Rightarrow> nat \<Rightarrow> nat \<Rightarrow> bool" where
  "dependsOn ts i j \<longleftrightarrow>
     i < length ts \<and> j < length ts \<and> tid (ts ! j) \<in> set (dependencies (ts ! i))"

text \<open>
  The dependency id \<open>d\<close> is satisfied: the last task of the collection with that id,
  which is the one \<open>taskMap\<close> holds, is completed.
\<close>

definition depDone :: "'r TaskStep list \<Rightarrow> string \<Rightarrow> bool" where
  "depDone ts d \<longleftrightarrow>
     (\<exists>j<length ts. tid (ts ! j) = d \<and> status (ts ! j) = Completed \<and>
        (\<forall>k<length ts. j < k \<longrightarrow> tid (ts ! k) \<noteq> d))"

text \<open>
  The tasks that the failure of \<open>failedTaskId\<close> reaches, in the words of the contract of
  the failure propagator: the pending tasks whose dependencies include that id, then the
  pending tasks whose dependencies include the id of a task already reached, and so on;
  it is the least such set.
\<close>

inductive_set affected :: "string \<Rightarrow> 'r TaskStep list \<Rightarrow> nat set"
  for failedTaskId :: string and ts :: "'r TaskStep list" where
  direct: "i < length ts \<Longrightarrow> status (ts ! i) = Pending \<Longrightarrow>
           failedTaskId \<in> set (dependencies (ts ! i)) \<Longrightarrow> i \<in> affected failedTaskId ts"
| chain: "j \<in> affected failedTaskId ts \<Longrightarrow> i < length ts \<Longrightarrow> status (ts ! i) = Pending \<Longrightarrow>
          tid (ts ! j) \<in> set (dependencies (ts ! i)) \<Longrightarrow> i \<in> affected failedTaskId ts"

text \<open>
  The same closure from a set \<open>S\<close> of seeds, over any predicate and relation; it is what
  the loop over the dependents \<open>S\<close> still to visit reaches.
\<close>

inductive_set reach :: "(nat \<Rightarrow> bool) \<Rightarrow> (nat \<Rightarrow> nat \<Rightarrow> bool) \<Rightarrow> nat set \<Rightarrow> nat set"
  for P :: "nat \<Rightarrow> bool" and E :: "nat \<Rightarrow> nat \<Rightarrow> bool" and S :: "nat set" where
  seed: "i \<in> S \<Longrightarrow> P i \<Longrightarrow> i \<in> reach P E S"
| step: "j \<in> reach P E S \<Longrightarrow> E i j \<Longrightarrow> P i \<Longrightarrow> i \<in> reach P E S"

text \<open>
  \<open>ts'\<close> is \<open>ts\<close> with exactly the tasks at \<open>N\<close> marked failed, each with the message
  naming one of its dependencies: \<open>f\<close>, for a task in \<open>S\<close>, or the id of a task in \<open>N\<close>.
\<close>

definition propagated ::
  "string \<Rightarrow> nat set \<Rightarrow> nat set \<Rightarrow> 'r TaskStep list \<Rightarrow> 'r TaskStep list \<Rightarrow> bool" where
  "propagated f S N ts ts' \<longleftrightarrow>
     length ts' = length ts \<and>
     (\<forall>j<length ts.
        (j \<in> N \<longrightarrow> (\<exists>d. ts' ! j = markFailed (depFailedMsg d) (ts ! j) \<and>
                        (d = f \<and> j \<in> S \<or> (\<exists>k\<in>N. d = tid (ts ! k) \<and> dependsOn ts j k)))) \<and>
        (j \<notin> N \<longrightarrow> ts' ! j = ts ! j))"

text \<open>
  The part of the collection that a run never assigns to: the ids and the dependency
  lists, in order.
\<close>

definition graphOf :: "'r TaskStep list \<Rightarrow> (string \<times> string list) list" where
  "graphOf ts = map (\<lambda>t. (tid t, dependencies t)) ts"

text \<open>
  The dependency relation between ids: \<open>(d, i)\<close> when a task with id \<open>i\<close> lists \<open>d\<close>
  among its dependencies.
\<close>

definition depRel :: "'r TaskStep list \<Rightarrow> (string \<times> string) set" where
  "depRel ts = {(d, tid t) | d t. t \<in> set ts \<and> d \<in> set (dependencies t)}"

text \<open>The ids of the tasks on which \<^verbatim>\<open>executeTask\<close> has been called.\<close>

definition runAgents :: "event list \<Rightarrow> string set" where
  "runAgents l = {x. RunAgent x \<in> set l}"

text \<open>No task-completed notification fails.\<close>

definition completeNotifyOk :: "'r env \<Rightarrow> bool" where
  "completeNotifyOk env \<longleftrightarrow> (\<forall>t s. fst (notifyTaskComplete env t s) = None)"

text \<open>No task-failed notification fails.\<close>

definition failedNotifyOk :: "'r env \<Rightarrow> bool" where
  "failedNotifyOk env \<longleftrightarrow> (\<forall>t m s. fst (notifyTaskFailed env t m s) = None)"

text \<open>
  The data model's rule for \<open>result\<close> and \<open>error\<close>: a completed task has a result and no
  error, a failed task an error and no result, a pending or running task neither.
\<close>

definition fieldsOK :: "'r TaskStep \<Rightarrow> bool" where
  "fieldsOK t \<longleftrightarrow>
     (case status t of
        Completed \<Rightarrow> result t \<noteq> None \<and> error t = None
      | Failed \<Rightarrow> result t = None \<and> error t \<noteq> None
      | _ \<Rightarrow> result t = None \<and> error t = None)"

text \<open>
  What the call of \<^verbatim>\<open>executeTask\<close> on the task at \<open>i\<close> returned in the run that went from
  the collection \<open>ts\<close> to the state \<open>s\<close>: the agent was given the calls made before this
  one, the task with status running, and the results the map holds for its dependencies
  (they completed before the task was started, so the map of \<open>s\<close> holds for them what it
  held at the call). \<open>None\<close> when the run made no such call or when the call threw.
\<close>

definition executorResult :: "'r env \<Rightarrow> 'r TaskStep list \<Rightarrow> 'r run \<Rightarrow> nat \<Rightarrow> 'r option" where
  "executorResult env ts s i =
     (if RunAgent (tid (ts ! i)) \<in> set (log s) then
        (case agent env (takeWhile (\<lambda>e. e \<noteq> RunAgent (tid (ts ! i))) (log s))
                ((ts ! i)\<lparr>status := Running\<rparr>)
                (map (\<lambda>depId. (depId, results s depId)) (dependencies (ts ! i))) of
           Inl _ \<Rightarrow> None
         | Inr v \<Rightarrow> Some v)
      else None)"

text \<open>
  \<open>ts'\<close> is the collection \<open>ts\<close>, whose tasks were pending and held neither result nor
  error, with nothing but statuses, results and errors assigned.
\<close>

definition frame :: "'r TaskStep list \<Rightarrow> 'r TaskStep list \<Rightarrow> bool" where
  "frame ts ts' \<longleftrightarrow>
     length ts' = length ts \<and>
     (\<forall>i<length ts. (ts' ! i)\<lparr>status := Pending, result := None, error := None\<rparr> = ts ! i)"

text \<open>
  The configurations a run goes through from the state \<open>s0\<close> in which it enters the loop:
  the suspended callbacks of the current wave, and the state. At the head of the loop no
  callback is suspended. When the ready set is not empty, its tasks are started, one after
  the other and without interruption (lines 55-60). Then the callback that the schedule
  names is resumed, as \<open>awaitAll\<close> does, until none is left; a callback that throws ends
  the run.
\<close>

inductive_set reachable :: "'r env \<Rightarrow> 'r run \<Rightarrow> ((nat \<times> 'r cont) list \<times> 'r run) set"
  for env :: "'r env" and s0 :: "'r run" where
  head: "([], s0) \<in> reachable env s0"
| wave: "([], s) \<in> reachable env s0 \<Longrightarrow> readyIdx (tasks s) \<noteq> [] \<Longrightarrow>
         dispatchAll env (readyIdx (tasks s)) [] s \<in> reachable env s0"
| step: "(fl, s) \<in> reachable env s0 \<Longrightarrow> fl \<noteq> [] \<Longrightarrow> k = nextUp (sched s) (length fl) \<Longrightarrow>
         resume env (fst (fl ! k)) (snd (fl ! k)) (s\<lparr>sched := tl (sched s)\<rparr>) = (Inr r, s') \<Longrightarrow>
         (case r of None \<Rightarrow> take k fl @ drop (Suc k) fl | Some c \<Rightarrow> fl[k := (fst (fl ! k), c)], s')
           \<in> reachable env s0"

text \<open>
  The dependency id \<open>d\<close> is satisfied, and the callback of the completed task that
  \<open>taskMap\<close> holds for it is not suspended: it has returned, or the task was handed in
  completed.
\<close>

definition settled :: "(nat \<rightharpoonup> 'r cont) \<Rightarrow> 'r TaskStep list \<Rightarrow> string \<Rightarrow> bool" where
  "settled m ts d \<longleftrightarrow>
     (\<exists>j<length ts. tid (ts ! j) = d \<and> status (ts ! j) = Completed \<and> m j = None \<and>
        (\<forall>k<length ts. j < k \<longrightarrow> tid (ts ! k) \<noteq> d))"

text \<open>
  How the \<open>k\<close>-th call of the log ended when it is a call of the notifier: the client is
  asked again, with the calls made before that one. \<open>Some m\<close>: it threw \<open>m\<close>.
\<close>

definition sendOutcome :: "'r env \<Rightarrow> event list \<Rightarrow> nat \<Rightarrow> string option" where
  "sendOutcome env l k =
     (case larkClient env of
        None \<Rightarrow> None
      | Some client \<Rightarrow>
          (case l ! k of Sent chat msg \<Rightarrow> client (take k l) chat msg | RunAgent _ \<Rightarrow> None))"

text \<open>The notifications of the log that failed, each with the error it threw.\<close>

definition failedSends :: "'r env \<Rightarrow> event list \<Rightarrow> (message \<times> string) list" where
  "failedSends env l =
     concat (map (\<lambda>k. case l ! k of
                         Sent chat msg \<Rightarrow>
                           (case sendOutcome env l k of None \<Rightarrow> [] | Some e \<Rightarrow> [(msg, e)])
                       | RunAgent _ \<Rightarrow> [])
                 [0..<length l])"

text \<open>
  The failure \<open>e\<close> of a notification has reached the \<^verbatim>\<open>catch\<close> block of the task at \<open>i\<close>, or
  is about to: the callback awaits a task-started or task-completed notification that
  fails with \<open>e\<close>, or the task is failed with \<open>e\<close> as its error.
\<close>

definition caught :: "(nat \<rightharpoonup> 'r cont) \<Rightarrow> 'r TaskStep list \<Rightarrow> string \<Rightarrow> nat \<Rightarrow> bool" where
  "caught m ts e i \<longleftrightarrow>
     m i = Some (AwaitStart (Some e)) \<or> m i = Some (AwaitComplete (Some e)) \<or>
     status (ts ! i) = Failed \<and> error (ts ! i) = Some e"

text \<open>The name of the task that a notification is about.\<close>

fun msgName :: "message \<Rightarrow> string" where
  "msgName (MsgStart n d) = n"
| "msgName (MsgComplete n) = n"
| "msgName (MsgFailed n e) = n"

section \<open>Invariants of a run\<close>

text \<open>The status a task has while its callback is suspended at the given point.\<close>

fun phaseStatus :: "'r cont \<Rightarrow> status" where
  "phaseStatus (AwaitStart _) = Running"
| "phaseStatus (AwaitExec _) = Running"
| "phaseStatus (AwaitComplete _) = Completed"
| "phaseStatus (AwaitFailed _) = Failed"

text \<open>
  What holds of the statuses between any two steps of a run; \<open>m\<close> maps the position of
  each task of the current wave to its suspended callback. A task with a suspended
  callback has the status of that point; a running task has a suspended callback; and
  once the callback of a failed task has returned, no task that names its id among its
  dependencies is pending.
\<close>

definition InvM1 :: "(nat \<rightharpoonup> 'r cont) \<Rightarrow> 'r TaskStep list \<Rightarrow> bool" where
  "InvM1 m ts \<longleftrightarrow>
     (\<forall>i c. m i = Some c \<longrightarrow> i < length ts \<and> status (ts ! i) = phaseStatus c) \<and>
     (\<forall>i<length ts. status (ts ! i) = Running \<longrightarrow> m i \<noteq> None) \<and>
     (\<forall>j<length ts. status (ts ! j) = Failed \<and> m j = None \<longrightarrow>
        (\<forall>i. dependsOn ts i j \<longrightarrow> status (ts ! i) \<noteq> Pending))"

text \<open>The same for the list of suspended callbacks of \<open>awaitAll\<close>.\<close>

definition Inv1 :: "(nat \<times> 'r cont) list \<Rightarrow> 'r TaskStep list \<Rightarrow> bool" where
  "Inv1 fl ts \<longleftrightarrow> distinct (map fst fl) \<and> InvM1 (map_of fl) ts"

text \<open>
  Every dependency id of the task at \<open>i\<close> is the id of a completed task whose callback
  has returned.
\<close>

definition depsSettled :: "(nat \<rightharpoonup> 'r cont) \<Rightarrow> 'r TaskStep list \<Rightarrow> nat \<Rightarrow> bool" where
  "depsSettled m ts i \<longleftrightarrow>
     (\<forall>d\<in>set (dependencies (ts ! i)).
        \<exists>j<length ts. tid (ts ! j) = d \<and> status (ts ! j) = Completed \<and> m j = None)"

text \<open>
  A task that has been dispatched (it is running or completed, its callback is suspended,
  or \<^verbatim>\<open>executeTask\<close> has been called on its id) has all its dependencies settled.
\<close>

definition InvM2 :: "(nat \<rightharpoonup> 'r cont) \<Rightarrow> 'r TaskStep list \<Rightarrow> string set \<Rightarrow> bool" where
  "InvM2 m ts A \<longleftrightarrow>
     (\<forall>i<length ts.
        status (ts ! i) = Running \<or> status (ts ! i) = Completed \<or> m i \<noteq> None \<or> tid (ts ! i) \<in> A
        \<longrightarrow> depsSettled m ts i)"

text \<open>Both invariants, for collections whose ids are distinct.\<close>

definition Inv2 :: "(nat \<times> 'r cont) list \<Rightarrow> 'r run \<Rightarrow> bool" where
  "Inv2 fl s \<longleftrightarrow>
     Inv1 fl (tasks s) \<and> InvM2 (map_of fl) (tasks s) (runAgents (log s)) \<and>
     distinct (map tid (tasks s))"

text \<open>
  Every task obeys that rule, and no task-completed notification awaited by a suspended
  callback is going to fail.
\<close>

definition InvM3 :: "(nat \<rightharpoonup> 'r cont) \<Rightarrow> 'r TaskStep list \<Rightarrow> bool" where
  "InvM3 m ts \<longleftrightarrow>
     (\<forall>i<length ts. fieldsOK (ts ! i)) \<and> (\<forall>i x. m i = Some (AwaitComplete x) \<longrightarrow> x = None)"

text \<open>The status invariant together with the rule for the fields.\<close>

definition Inv3 :: "(nat \<times> 'r cont) list \<Rightarrow> 'r run \<Rightarrow> bool" where
  "Inv3 fl s \<longleftrightarrow> Inv1 fl (tasks s) \<and> InvM3 (map_of fl) (tasks s)"

text \<open>
  The result map holds, under each task's id, what the task's \<open>result\<close> field holds, and
  nothing under other keys.
\<close>

definition InvM4 :: "'r TaskStep list \<Rightarrow> (string \<rightharpoonup> 'r) \<Rightarrow> bool" where
  "InvM4 ts res \<longleftrightarrow>
     (\<forall>i<length ts. res (tid (ts ! i)) = result (ts ! i)) \<and> dom res \<subseteq> tid ` set ts"

text \<open>All invariants, for collections whose ids are distinct.\<close>

definition Inv4 :: "(nat \<times> 'r cont) list \<Rightarrow> 'r run \<Rightarrow> bool" where
  "Inv4 fl s \<longleftrightarrow>
     Inv3 fl s \<and> InvM4 (tasks s) (results s) \<and> distinct (map tid (tasks s))"

text \<open>
  How the state of a run is related to the collection \<open>ts\<close> it started from:
  \<^verbatim>\<open>executeTask\<close> has not been called on a task that is pending or whose callback awaits the
  task-started notification; and a result that a task holds, or that a suspended callback
  is about to store, is what the call of \<^verbatim>\<open>executeTask\<close> on that task returned.
\<close>

definition InvM5 ::
  "'r env \<Rightarrow> 'r TaskStep list \<Rightarrow> (nat \<rightharpoonup> 'r cont) \<Rightarrow> 'r run \<Rightarrow> bool" where
  "InvM5 env ts m s \<longleftrightarrow>
     frame ts (tasks s) \<and>
     (\<forall>i<length ts. status (tasks s ! i) = Pending \<or> (\<exists>x. m i = Some (AwaitStart x))
        \<longrightarrow> RunAgent (tid (ts ! i)) \<notin> set (log s)) \<and>
     (\<forall>i<length ts. \<forall>v. m i = Some (AwaitExec (Inr v)) \<or> result (tasks s ! i) = Some v
        \<longrightarrow> executorResult env ts s i = Some v)"

text \<open>All invariants of a run, relative to the collection it started from.\<close>

definition Inv5 :: "'r env \<Rightarrow> 'r TaskStep list \<Rightarrow> (nat \<times> 'r cont) list \<Rightarrow> 'r run \<Rightarrow> bool" where
  "Inv5 env ts fl s \<longleftrightarrow>
     Inv4 fl s \<and> InvM2 (map_of fl) (tasks s) (runAgents (log s)) \<and> InvM5 env ts (map_of fl) s"

text \<open>
  What holds in every configuration of a run that was handed the collection \<open>ts0\<close>,
  whatever the statuses in it. Ids and dependencies are those of \<open>ts0\<close>. A suspended
  callback belongs to a task that was handed in pending, and the task has the status of
  the point where the callback is suspended. A task that was not handed in pending is as
  it was. A task handed in pending that is running has a suspended callback, and every
  dependency of a task with a suspended callback is settled.
\<close>

definition InvK :: "'r TaskStep list \<Rightarrow> (nat \<rightharpoonup> 'r cont) \<Rightarrow> 'r TaskStep list \<Rightarrow> bool" where
  "InvK ts0 m ts \<longleftrightarrow>
     graphOf ts = graphOf ts0 \<and>
     (\<forall>i c. m i = Some c \<longrightarrow>
        i < length ts0 \<and> status (ts0 ! i) = Pending \<and> status (ts ! i) = phaseStatus c) \<and>
     (\<forall>i<length ts0. status (ts0 ! i) \<noteq> Pending \<longrightarrow> ts ! i = ts0 ! i) \<and>
     (\<forall>i<length ts0. status (ts0 ! i) = Pending \<and> status (ts ! i) = Running \<longrightarrow> m i \<noteq> None) \<and>
     (\<forall>i. m i \<noteq> None \<longrightarrow> (\<forall>d\<in>set (dependencies (ts ! i)). settled m ts d))"

text \<open>
  What holds of the failed notifications in every configuration of a run: a failed
  task-started or task-completed notification has reached the \<^verbatim>\<open>catch\<close> block of a task
  of that name, or is about to; a failed task-failed notification is awaited by a
  suspended callback; and a callback that awaits a failing task-failed notification awaits
  one of the log, with its error.
\<close>

definition InvN :: "'r env \<Rightarrow> (nat \<rightharpoonup> 'r cont) \<Rightarrow> 'r run \<Rightarrow> bool" where
  "InvN env m s \<longleftrightarrow>
     (\<forall>msg e. (msg, e) \<in> set (failedSends env (log s)) \<longrightarrow>
        (case msg of
           MsgFailed n x \<Rightarrow> (\<exists>i. m i = Some (AwaitFailed (Some e)))
         | _ \<Rightarrow> (\<exists>i<length (tasks s). name (tasks s ! i) = msgName msg \<and> caught m (tasks s) e i))) \<and>
     (\<forall>i e. m i = Some (AwaitFailed (Some e)) \<longrightarrow>
        (\<exists>n x. (MsgFailed n x, e) \<in> set (failedSends env (log s))))"

section \<open>Example collections and collaborators\<close>

text \<open>A task with the given id, dependencies and status, and no result or error.\<close>

definition mkTask :: "string \<Rightarrow> string list \<Rightarrow> status \<Rightarrow> nat TaskStep" where
  "mkTask i ds st =
     \<lparr>tid = i, name = i, description = [], agentType = ''Plan'', dependencies = ds,
      status = st, result = None, error = None\<rparr>"

text \<open>No notifier configured; every agent returns the number of calls made before it.\<close>

definition quietEnv :: "nat env" where
  "quietEnv = \<lparr>larkClient = None, chatId = None, agent = (\<lambda>h t d. Inr (length h))\<rparr>"

text \<open>
  A notifier is configured and every agent returns 7; \<open>larkEnv True\<close> delivers every
  message, \<open>larkEnv False\<close> fails on every message.
\<close>

definition larkEnv :: "bool \<Rightarrow> nat env" where
  "larkEnv up =
     \<lparr>larkClient = Some (\<lambda>h chat msg. if up then None else Some ''lark down''),
      chatId = Some ''chat'', agent = (\<lambda>h t d. Inr 7)\<rparr>"

text \<open>
  The agent of task \<open>a\<close> throws, every other agent returns 7; with \<open>lark\<close> a notifier
  is configured that fails on the task-failed message only.
\<close>

definition boomEnv :: "bool \<Rightarrow> nat env" where
  "boomEnv lark =
     \<lparr>larkClient =
        (if lark then Some (\<lambda>h chat msg. case msg of MsgFailed _ _ \<Rightarrow> Some ''lark down'' | _ \<Rightarrow> None)
         else None),
      chatId = Some ''chat'',
      agent = (\<lambda>h t d. if tid t = ''a'' then Inl ''boom'' else Inr 7)\<rparr>"

text \<open>
  A notifier that fails on the task-completed message only; every agent returns 7.
\<close>

definition completeDownEnv :: "nat env" where
  "completeDownEnv =
     \<lparr>larkClient = Some (\<lambda>h chat msg. case msg of MsgComplete _ \<Rightarrow> Some ''lark down'' | _ \<Rightarrow> None),
      chatId = Some ''chat'', agent = (\<lambda>h t d. Inr 7)\<rparr>"

text \<open>Two pending tasks, the second depending on the first.\<close>

definition twoTasks :: "nat TaskStep list" where
  "twoTasks = [mkTask ''a'' [] Pending, mkTask ''b'' [''a''] Pending]"

text \<open>Three pending tasks in a chain.\<close>

definition chain3 :: "nat TaskStep list" where
  "chain3 = [mkTask ''a'' [] Pending, mkTask ''b'' [''a''] Pending, mkTask ''c'' [''b''] Pending]"

text \<open>A failed task \<open>a\<close>, a chain of pending tasks behind it, a running dependent and an unrelated task.\<close>

definition chainTasks :: "nat TaskStep list" where
  "chainTasks =
     [mkTask ''a'' [] Failed, mkTask ''b'' [''a''] Pending, mkTask ''c'' [''b''] Pending,
      mkTask ''d'' [''a''] Running, mkTask ''e'' [''zz''] Pending]"

text \<open>A completed task, a pending task that depends on it, and a pending task without dependencies.\<close>

definition readyExample :: "nat TaskStep list" where
  "readyExample =
     [mkTask ''a'' [] Completed, mkTask ''b'' [''a''] Pending, mkTask ''c'' [] Pending]"

section \<open>The ready set\<close>

lemma readyTasks_readyIdx: "readyTasks ts = map ((!) ts) (readyIdx ts)"
proof -
  have "filter (isReady ts) (map ((!) ts) [0..<length ts])
      = map ((!) ts) (filter (isReady ts \<circ> (!) ts) [0..<length ts])"
    by (rule filter_map)
  then show ?thesis
    by (simp add: readyTasks_def readyIdx_def map_nth comp_def)
qed

lemma readyIdx_Nil_iff: "readyIdx ts = [] \<longleftrightarrow> readyTasks ts = []"
  by (simp add: readyTasks_readyIdx)

lemma isReady_iff:
  "isReady ts t \<longleftrightarrow>
     status t = Pending \<and>
     (\<forall>d \<in> set (dependencies t). \<exists>u. taskMap ts d = Some u \<and> status u = Completed)"
  by (auto simp: isReady_def list_all_iff split: option.splits)

lemma taskMap_snoc: "taskMap (ts @ [t]) = (taskMap ts)(tid t \<mapsto> t)"
  by (simp add: taskMap_def fun_eq_iff)

lemma taskMap_Some_iff:
  "taskMap ts d = Some u \<longleftrightarrow>
     (\<exists>j<length ts. ts ! j = u \<and> tid u = d \<and> (\<forall>k<length ts. j < k \<longrightarrow> tid (ts ! k) \<noteq> d))"
proof (induction ts rule: rev_induct)
  case Nil
  then show ?case by (simp add: taskMap_def)
next
  case (snoc t ts)
  show ?case
  proof (cases "tid t = d")
    case True
    have "(\<exists>j<Suc (length ts). (ts @ [t]) ! j = u \<and> tid u = d \<and>
            (\<forall>k<Suc (length ts). j < k \<longrightarrow> tid ((ts @ [t]) ! k) \<noteq> d)) \<longleftrightarrow> t = u"
    proof
      assume "\<exists>j<Suc (length ts). (ts @ [t]) ! j = u \<and> tid u = d \<and>
            (\<forall>k<Suc (length ts). j < k \<longrightarrow> tid ((ts @ [t]) ! k) \<noteq> d)"
      then obtain j where j: "j < Suc (length ts)" "(ts @ [t]) ! j = u"
        and l: "\<forall>k<Suc (length ts). j < k \<longrightarrow> tid ((ts @ [t]) ! k) \<noteq> d" by blast
      have "\<not> j < length ts"
      proof
        assume "j < length ts"
        with l have "tid ((ts @ [t]) ! length ts) \<noteq> d" by blast
        with True show False by simp
      qed
      with j have "j = length ts" by simp
      with j show "t = u" by simp
    next
      assume "t = u"
      with True have "(ts @ [t]) ! length ts = u \<and> tid u = d" by simp
      then show "\<exists>j<Suc (length ts). (ts @ [t]) ! j = u \<and> tid u = d \<and>
            (\<forall>k<Suc (length ts). j < k \<longrightarrow> tid ((ts @ [t]) ! k) \<noteq> d)"
        by (intro exI [of _ "length ts"]) simp
    qed
    then have "(taskMap (ts @ [t]) d = Some u) =
        (\<exists>j<Suc (length ts). (ts @ [t]) ! j = u \<and> tid u = d \<and>
            (\<forall>k<Suc (length ts). j < k \<longrightarrow> tid ((ts @ [t]) ! k) \<noteq> d))"
      using True by (simp only: taskMap_snoc fun_upd_same option.inject)
    then show ?thesis by (simp only: length_append_singleton)
  next
    case False
    have "(\<exists>j<Suc (length ts). (ts @ [t]) ! j = u \<and> tid u = d \<and>
            (\<forall>k<Suc (length ts). j < k \<longrightarrow> tid ((ts @ [t]) ! k) \<noteq> d)) \<longleftrightarrow>
          (\<exists>j<length ts. ts ! j = u \<and> tid u = d \<and> (\<forall>k<length ts. j < k \<longrightarrow> tid (ts ! k) \<noteq> d))"
      (is "?L \<longleftrightarrow> ?R")
    proof
      assume ?L
      then obtain j where j: "j < Suc (length ts)" "(ts @ [t]) ! j = u" "tid u = d"
        and l: "\<forall>k<Suc (length ts). j < k \<longrightarrow> tid ((ts @ [t]) ! k) \<noteq> d" by blast
      have jl: "j < length ts"
      proof (rule ccontr)
        assume "\<not> j < length ts"
        with j have "j = length ts" by simp
        with j False show False by simp
      qed
      have "\<forall>k<length ts. j < k \<longrightarrow> tid (ts ! k) \<noteq> d"
      proof (intro allI impI)
        fix k assume k: "k < length ts" "j < k"
        with l have "tid ((ts @ [t]) ! k) \<noteq> d" by simp
        with k show "tid (ts ! k) \<noteq> d" by (simp add: nth_append)
      qed
      moreover have "ts ! j = u" using j(2) jl by (simp add: nth_append)
      ultimately show ?R using jl j(3) by blast
    next
      assume ?R
      then obtain j where j: "j < length ts" "ts ! j = u" "tid u = d"
        and l: "\<forall>k<length ts. j < k \<longrightarrow> tid (ts ! k) \<noteq> d" by blast
      have "\<forall>k<Suc (length ts). j < k \<longrightarrow> tid ((ts @ [t]) ! k) \<noteq> d"
      proof (intro allI impI)
        fix k assume k: "k < Suc (length ts)" "j < k"
        show "tid ((ts @ [t]) ! k) \<noteq> d"
        proof (cases "k < length ts")
          case True
          with l k show ?thesis by (simp add: nth_append)
        next
          case False
          with k have "k = length ts" by simp
          with \<open>tid t \<noteq> d\<close> show ?thesis by simp
        qed
      qed
      with j show ?L by (intro exI [of _ j]) (simp add: nth_append)
    qed
    moreover have "taskMap (ts @ [t]) d = taskMap ts d"
      using False by (simp add: taskMap_snoc)
    ultimately have "(taskMap (ts @ [t]) d = Some u) =
        (\<exists>j<Suc (length ts). (ts @ [t]) ! j = u \<and> tid u = d \<and>
            (\<forall>k<Suc (length ts). j < k \<longrightarrow> tid ((ts @ [t]) ! k) \<noteq> d))"
      using snoc.IH by (simp only:)
    then show ?thesis by (simp only: length_append_singleton)
  qed
qed

lemma depDone_taskMap:
  "depDone ts d \<longleftrightarrow> (\<exists>u. taskMap ts d = Some u \<and> status u = Completed)"
  unfolding depDone_def taskMap_Some_iff by blast

lemma isReady_depDone:
  "isReady ts t \<longleftrightarrow> status t = Pending \<and> (\<forall>d\<in>set (dependencies t). depDone ts d)"
  by (simp add: isReady_iff depDone_taskMap)

text \<open>
  Claim C6. The ready-set computation returns exactly the tasks of the collection (in
  their order) that are pending and whose every dependency id is mapped by \<open>taskMap\<close> to a
  task that is completed; a pending task without dependencies is always among them.
  \<open>readyTasks\<close> is a function of the collection alone and returns nothing but the list:
  it has no effect on the collection, and two applications to the same collection give
  the same list.
\<close>

theorem readyTasks_exact:
  "readyTasks ts =
     filter (\<lambda>t. status t = Pending \<and>
                 (\<forall>d \<in> set (dependencies t). \<exists>u. taskMap ts d = Some u \<and> status u = Completed)) ts
   \<and> (\<forall>t \<in> set ts. status t = Pending \<and> dependencies t = [] \<longrightarrow> t \<in> set (readyTasks ts))"
  by (auto simp: readyTasks_def isReady_iff cong: filter_cong)

theorem readyTasks_exact_witness:
  "readyTasks [mkTask ''a'' [] Completed, mkTask ''b'' [''a''] Pending,
               mkTask ''c'' [''zz''] Pending, mkTask ''d'' [] Pending]
     = [mkTask ''b'' [''a''] Pending, mkTask ''d'' [] Pending]
   \<and> mkTask ''d'' [] Pending
       \<in> set (readyTasks [mkTask ''a'' [] Completed, mkTask ''b'' [''a''] Pending,
                           mkTask ''c'' [''zz''] Pending, mkTask ''d'' [] Pending])"
  using readyTasks_exact [of "[mkTask ''a'' [] Completed, mkTask ''b'' [''a''] Pending,
               mkTask ''c'' [''zz''] Pending, mkTask ''d'' [] Pending]"]
  by (simp add: mkTask_def taskMap_def)

section \<open>Stalled runs and the empty collection\<close>

text \<open>
  Claim C8. From a state in which the ready set is empty and no task is running, the
  scheduling loop ends: it returns normally (no exception), and it returns the state it
  was entered with, so every task that was pending is still pending.
\<close>

theorem stalled_run_returns:
  "readyTasks (tasks s) = [] \<Longrightarrow> \<not> list_ex (\<lambda>t. status t = Running) (tasks s) \<Longrightarrow>
   schedulingLoop env s = Some (Inr s)"
  by (subst schedulingLoop.simps) (simp add: readyIdx_Nil_iff)

theorem stalled_run_returns_witness:
  "readyTasks [mkTask ''x'' [''y''] Pending, mkTask ''y'' [''x''] Pending] = []
   \<and> executeTaskDAG quietEnv [] [mkTask ''x'' [''y''] Pending, mkTask ''y'' [''x''] Pending]
       = Some (Inr \<lparr>tasks = [mkTask ''x'' [''y''] Pending, mkTask ''y'' [''x''] Pending],
                    results = Map.empty, log = [], sched = []\<rparr>)"
proof -
  let ?ts = "[mkTask ''x'' [''y''] Pending, mkTask ''y'' [''x''] Pending]"
  have r: "readyTasks (tasks (initRun [] ?ts)) = []"
    by (simp add: initRun_def readyTasks_def isReady_def taskMap_def mkTask_def)
  have n: "\<not> list_ex (\<lambda>t. status t = Running) (tasks (initRun [] ?ts))"
    by (simp add: initRun_def mkTask_def)
  show ?thesis
    using r stalled_run_returns [OF r n, of quietEnv]
    by (simp add: executeTaskDAG_def initRun_def)
qed

text \<open>
  Claim C10. On the empty collection the loop condition is false at once:
  \<open>executeTaskDAG\<close> returns the empty result map, and the log of calls to the agents and
  to the notifier is empty.
\<close>

theorem empty_collection:
  "executeTaskDAG env schedule [] =
     Some (Inr \<lparr>tasks = [], results = Map.empty, log = [], sched = schedule\<rparr>)"
  by (simp add: executeTaskDAG_def initRun_def schedulingLoop.simps)

section \<open>Failure propagation\<close>

lemma markFailed_simps [simp]:
  "tid (markFailed m t) = tid t"
  "dependencies (markFailed m t) = dependencies t"
  "status (markFailed m t) = Failed"
  "result (markFailed m t) = result t"
  "error (markFailed m t) = Some m"
  by (simp_all add: markFailed_def)

lemma reach_P: "x \<in> reach P E S \<Longrightarrow> P x"
  by (induction rule: reach.induct) auto

lemma reach_empty: "reach P E {} = {}"
proof -
  have "False" if "x \<in> reach P E {}" for x
    using that by (induction rule: reach.induct) simp_all
  then show ?thesis by blast
qed

lemma reach_skip: 
  assumes "\<not> P i" shows "reach P E (insert i S) = reach P E S"
proof (rule set_eqI, rule iffI)
  fix x assume "x \<in> reach P E (insert i S)"
  then show "x \<in> reach P E S"
  proof (induction rule: reach.induct)
    case (seed x)
    with assms have "x \<in> S" by auto
    with seed show ?case by (simp add: reach.seed)
  next
    case (step j x)
    then show ?case by (simp add: reach.step)
  qed
next
  fix x assume "x \<in> reach P E S"
  then show "x \<in> reach P E (insert i S)"
  proof (induction rule: reach.induct)
    case (seed x)
    then show ?case by (simp add: reach.seed)
  next
    case (step j x)
    then show ?case by (simp add: reach.step)
  qed
qed

lemma reach_split:
  fixes P :: "nat \<Rightarrow> bool" and E :: "nat \<Rightarrow> nat \<Rightarrow> bool" and S :: "nat set" and i :: nat
  assumes i: "P i"
  defines "P1 \<equiv> \<lambda>x. P x \<and> x \<noteq> i"
  defines "N1 \<equiv> reach P1 E {x. E x i}"
  defines "P2 \<equiv> \<lambda>x. P1 x \<and> x \<notin> N1"
  shows "reach P E (insert i S) = insert i (N1 \<union> reach P2 E S)"
proof (rule set_eqI, rule iffI)
  fix x assume "x \<in> reach P E (insert i S)"
  then show "x \<in> insert i (N1 \<union> reach P2 E S)"
  proof (induction rule: reach.induct)
    case (seed x)
    show ?case
    proof (cases "x = i \<or> x \<in> N1")
      case True then show ?thesis by auto
    next
      case False
      with seed have "x \<in> S" "P2 x" by (auto simp: P2_def P1_def)
      then have "x \<in> reach P2 E S" by (rule reach.seed)
      then show ?thesis by simp
    qed
  next
    case (step j x)
    show ?case
    proof (cases "x = i \<or> x \<in> N1")
      case True then show ?thesis by auto
    next
      case False
      with step have p1: "P1 x" and p2: "P2 x" by (auto simp: P2_def P1_def)
      from step.IH consider "j = i" | "j \<in> N1" | "j \<in> reach P2 E S" by auto
      then show ?thesis
      proof cases
        case 1
        with step have "x \<in> {x. E x i}" by simp
        then have "x \<in> N1" unfolding N1_def using p1 by (rule reach.seed)
        with False show ?thesis by simp
      next
        case 2
        then have "x \<in> N1" unfolding N1_def using step.hyps(2) p1 by (rule reach.step)
        with False show ?thesis by simp
      next
        case 3
        then have "x \<in> reach P2 E S" using step.hyps(2) p2 by (rule reach.step)
        then show ?thesis by simp
      qed
    qed
  qed
next
  fix x assume x: "x \<in> insert i (N1 \<union> reach P2 E S)"
  have a: "i \<in> reach P E (insert i S)" using i by (simp add: reach.seed)
  have b: "y \<in> reach P E (insert i S)" if "y \<in> N1" for y
    using that unfolding N1_def
  proof (induction rule: reach.induct)
    case (seed y)
    then have "E y i" "P y" by (simp_all add: P1_def)
    with a show ?case by (rule reach.step)
  next
    case (step j y)
    then have "E y j" "P y" by (simp_all add: P1_def)
    with step.IH show ?case by (rule reach.step)
  qed
  have c: "y \<in> reach P E (insert i S)" if "y \<in> reach P2 E S" for y
    using that
  proof (induction rule: reach.induct)
    case (seed y)
    then have "y \<in> insert i S" "P y" by (simp_all add: P2_def P1_def)
    then show ?case by (rule reach.seed)
  next
    case (step j y)
    then have "E y j" "P y" by (simp_all add: P2_def P1_def)
    with step.IH show ?case by (rule reach.step)
  qed
  from x a b c show "x \<in> reach P E (insert i S)" by auto
qed


lemma propagated_length: "propagated f S N ts ts' \<Longrightarrow> length ts' = length ts"
  by (simp add: propagated_def)

lemma propagated_nth:
  "propagated f S N ts ts' \<Longrightarrow> j < length ts \<Longrightarrow>
   ts' ! j = ts ! j \<or> (\<exists>d. ts' ! j = markFailed (depFailedMsg d) (ts ! j))"
  unfolding propagated_def by blast

lemma propagated_dependsOn:
  assumes "propagated f S N ts ts'"
  shows "dependsOn ts' = dependsOn ts"
proof (intro ext)
  fix a b
  have len: "length ts' = length ts" using assms by (rule propagated_length)
  have same: "tid (ts' ! j) = tid (ts ! j) \<and> dependencies (ts' ! j) = dependencies (ts ! j)"
    if "j < length ts" for j
    using propagated_nth [OF assms that] by auto
  show "dependsOn ts' a b = dependsOn ts a b"
    using same [of a] same [of b] by (auto simp: dependsOn_def len)
qed

lemma propagated_tid:
  "propagated f S N ts ts' \<Longrightarrow> j < length ts \<Longrightarrow> tid (ts' ! j) = tid (ts ! j)"
  using propagated_nth [of f S N ts ts' j] by auto

lemma propagated_pendingAt:
  assumes "propagated f S N ts ts'"
  shows "pendingAt ts' = (\<lambda>x. pendingAt ts x \<and> x \<notin> N)"
proof (intro ext)
  fix x
  have len: "length ts' = length ts" using assms by (rule propagated_length)
  show "pendingAt ts' x = (pendingAt ts x \<and> x \<notin> N)"
  proof (cases "x < length ts")
    case False
    then show ?thesis by (simp add: pendingAt_def len)
  next
    case True
    show ?thesis
    proof (cases "x \<in> N")
      case True
      with \<open>x < length ts\<close> assms obtain d where "ts' ! x = markFailed (depFailedMsg d) (ts ! x)"
        unfolding propagated_def by blast
      with True show ?thesis by (simp add: pendingAt_def)
    next
      case False
      with \<open>x < length ts\<close> assms have "ts' ! x = ts ! x"
        unfolding propagated_def by blast
      with False show ?thesis by (simp add: pendingAt_def len)
    qed
  qed
qed

lemma update_dependsOn:
  "dependsOn (ts[i := markFailed m (ts ! i)]) = dependsOn ts"
proof (intro ext)
  fix a b
  show "dependsOn (ts[i := markFailed m (ts ! i)]) a b = dependsOn ts a b"
    by (cases "a = i"; cases "b = i") (auto simp: dependsOn_def)
qed

lemma update_pendingAt:
  "pendingAt (ts[i := markFailed m (ts ! i)]) = (\<lambda>x. pendingAt ts x \<and> x \<noteq> i)"
proof (intro ext)
  fix x
  show "pendingAt (ts[i := markFailed m (ts ! i)]) x = (pendingAt ts x \<and> x \<noteq> i)"
    by (cases "x = i") (auto simp: pendingAt_def)
qed

lemma set_dependents:
  "i < length ts \<Longrightarrow> set (dependents (tid (ts ! i)) ts) = {x. dependsOn ts x i}"
  by (auto simp: dependents_def dependsOn_def)

lemma markLoop_propagated:
  "propagated f (set is) (reach (pendingAt ts) (dependsOn ts) (set is)) ts (markLoop f is ts)"
proof (induction f "is" ts rule: markLoop.induct)
  case (1 f ts)
  show ?case by (simp add: reach_empty propagated_def)
next
  case (2 f i "is" ts)
  let ?P = "pendingAt ts" and ?E = "dependsOn ts"
  show ?case
  proof (cases "i < length ts \<and> status (ts ! i) = Pending")
    case False
    then have np: "\<not> ?P i" by (simp add: pendingAt_def)
    have eq: "markLoop f (i # is) ts = markLoop f is ts" using False by auto
    have "propagated f (set is) (reach ?P ?E (set is)) ts (markLoop f is ts)"
      using "2.IH"(3) False by blast
    then have "propagated f (insert i (set is)) (reach ?P ?E (set is)) ts (markLoop f is ts)"
      unfolding propagated_def by blast
    then show ?thesis
      using eq np reach_skip [where P = ?P and i = i and E = ?E and S = "set is"] by simp
  next
    case True
    then have il: "i < length ts" and ip: "?P i" by (simp_all add: pendingAt_def)
    define ts1 where "ts1 = ts[i := markFailed (depFailedMsg f) (ts ! i)]"
    define ts2 where "ts2 = markLoop (tid (ts1 ! i)) (dependents (tid (ts1 ! i)) ts1) ts1"
    define ts3 where "ts3 = markLoop f is ts2"
    define P1 where "P1 = (\<lambda>x. ?P x \<and> x \<noteq> i)"
    define N1 where "N1 = reach P1 ?E {x. ?E x i}"
    define P2 where "P2 = (\<lambda>x. P1 x \<and> x \<notin> N1)"
    define N2 where "N2 = reach P2 ?E (set is)"
    have eq: "markLoop f (i # is) ts = ts3"
      using True by (simp add: ts1_def ts2_def ts3_def Let_def)
    have len1: "length ts1 = length ts" by (simp add: ts1_def)
    have ti: "tid (ts1 ! i) = tid (ts ! i)" using il by (simp add: ts1_def)
    have E1: "dependsOn ts1 = ?E" unfolding ts1_def by (rule update_dependsOn)
    have Pe1: "pendingAt ts1 = P1" unfolding ts1_def P1_def by (rule update_pendingAt)
    have D1: "set (dependents (tid (ts ! i)) ts1) = {x. ?E x i}"
      using set_dependents [of i ts1] il by (simp add: len1 E1 ti)
    have ts2: "ts2 = markLoop (tid (ts ! i)) (dependents (tid (ts ! i)) ts1) ts1"
      by (simp add: ts2_def ti)
    have ih1: "propagated (tid (ts ! i)) {x. ?E x i} N1 ts1 ts2"
      using "2.IH"(1) [OF True ts1_def] by (simp add: ts2 Pe1 E1 D1 N1_def ti)
    have E2: "dependsOn ts2 = ?E" using propagated_dependsOn [OF ih1] E1 by simp
    have Pe2: "pendingAt ts2 = P2"
      using propagated_pendingAt [OF ih1] by (simp add: Pe1 P2_def)
    have ih2: "propagated f (set is) N2 ts2 ts3"
      using "2.IH"(2) [OF True ts1_def] by (simp add: ts2_def [symmetric] ts3_def Pe2 E2 N2_def)
    have N: "reach ?P ?E (insert i (set is)) = insert i (N1 \<union> N2)"
      using ip reach_split [where P = ?P and i = i and E = ?E and S = "set is"]
      by (simp add: N1_def N2_def P2_def P1_def)
    have n1: "x \<noteq> i \<and> x \<notin> N2" if "x \<in> N1" for x
    proof -
      have "P1 x" using that unfolding N1_def by (rule reach_P)
      moreover have "P2 x" if "x \<in> N2" using that unfolding N2_def by (rule reach_P)
      ultimately show ?thesis using that by (auto simp: P1_def P2_def)
    qed
    have n2: "x \<noteq> i \<and> x \<notin> N1" if "x \<in> N2" for x
    proof -
      have "P2 x" using that unfolding N2_def by (rule reach_P)
      then show ?thesis by (simp add: P2_def P1_def)
    qed
    have len2: "length ts2 = length ts" using propagated_length [OF ih1] len1 by simp
    have len3: "length ts3 = length ts" using propagated_length [OF ih2] len2 by simp
    have "propagated f (insert i (set is)) (insert i (N1 \<union> N2)) ts ts3"
      unfolding propagated_def
    proof (intro conjI allI impI)
      show "length ts3 = length ts" by (rule len3)
    next
      fix j assume j: "j < length ts" and jn: "j \<notin> insert i (N1 \<union> N2)"
      then have "ts3 ! j = ts2 ! j" using ih2 unfolding propagated_def by (simp add: len2)
      also have "ts2 ! j = ts1 ! j" using ih1 j jn unfolding propagated_def by (simp add: len1)
      also have "ts1 ! j = ts ! j" using jn by (simp add: ts1_def)
      finally show "ts3 ! j = ts ! j" .
    next
      fix j assume j: "j < length ts" and jn: "j \<in> insert i (N1 \<union> N2)"
      then consider "j = i" | "j \<in> N1" | "j \<in> N2" by blast
      then show "\<exists>d. ts3 ! j = markFailed (depFailedMsg d) (ts ! j) \<and>
                  (d = f \<and> j \<in> insert i (set is) \<or>
                   (\<exists>k\<in>insert i (N1 \<union> N2). d = tid (ts ! k) \<and> dependsOn ts j k))"
      proof cases
        case 1
        have i1: "i \<notin> N1" using n1 by blast
        have i2: "i \<notin> N2" using n2 by blast
        have "ts3 ! i = ts2 ! i" using ih2 il i2 unfolding propagated_def by (simp add: len2)
        also have "ts2 ! i = ts1 ! i" using ih1 il i1 unfolding propagated_def by (simp add: len1)
        also have "ts1 ! i = markFailed (depFailedMsg f) (ts ! i)" using il by (simp add: ts1_def)
        finally show ?thesis using 1 by auto
      next
        case 2
        then have ji: "j \<noteq> i" and j2: "j \<notin> N2" using n1 by auto
        have a: "ts3 ! j = ts2 ! j" using ih2 j j2 unfolding propagated_def by (simp add: len2)
        have b: "ts1 ! j = ts ! j" using ji by (simp add: ts1_def)
        have "\<exists>d. ts2 ! j = markFailed (depFailedMsg d) (ts1 ! j) \<and>
                (d = tid (ts ! i) \<and> j \<in> {x. ?E x i} \<or>
                 (\<exists>k\<in>N1. d = tid (ts1 ! k) \<and> dependsOn ts1 j k))"
          using ih1 2 j unfolding propagated_def by (simp add: len1)
        then obtain d where d: "ts2 ! j = markFailed (depFailedMsg d) (ts1 ! j)"
          and c: "d = tid (ts ! i) \<and> ?E j i \<or> (\<exists>k\<in>N1. d = tid (ts1 ! k) \<and> ?E j k)"
          unfolding E1 by blast
        from c have "\<exists>k\<in>insert i (N1 \<union> N2). d = tid (ts ! k) \<and> ?E j k"
        proof
          assume "d = tid (ts ! i) \<and> ?E j i" then show ?thesis by blast
        next
          assume "\<exists>k\<in>N1. d = tid (ts1 ! k) \<and> ?E j k"
          then obtain k where k: "k \<in> N1" "d = tid (ts1 ! k)" "?E j k" by blast
          have "k \<noteq> i" using n1 [OF k(1)] by simp
          then have "tid (ts1 ! k) = tid (ts ! k)" by (simp add: ts1_def)
          with k show ?thesis by blast
        qed
        with a b d show ?thesis by auto
      next
        case 3
        then have ji: "j \<noteq> i" and j1: "j \<notin> N1" using n2 by auto
        have b: "ts1 ! j = ts ! j" using ji by (simp add: ts1_def)
        have b2: "ts2 ! j = ts1 ! j" using ih1 j j1 unfolding propagated_def by (simp add: len1)
        have "\<exists>d. ts3 ! j = markFailed (depFailedMsg d) (ts2 ! j) \<and>
                (d = f \<and> j \<in> set is \<or> (\<exists>k\<in>N2. d = tid (ts2 ! k) \<and> dependsOn ts2 j k))"
          using ih2 3 j unfolding propagated_def by (simp add: len2)
        then obtain d where d: "ts3 ! j = markFailed (depFailedMsg d) (ts2 ! j)"
          and c: "d = f \<and> j \<in> set is \<or> (\<exists>k\<in>N2. d = tid (ts2 ! k) \<and> ?E j k)"
          unfolding E2 by blast
        from c have "d = f \<and> j \<in> insert i (set is) \<or>
                     (\<exists>k\<in>insert i (N1 \<union> N2). d = tid (ts ! k) \<and> ?E j k)"
        proof
          assume "d = f \<and> j \<in> set is" then show ?thesis by blast
        next
          assume "\<exists>k\<in>N2. d = tid (ts2 ! k) \<and> ?E j k"
          then obtain k where k: "k \<in> N2" "d = tid (ts2 ! k)" "?E j k" by blast
          then have kl: "k < length ts" by (simp add: dependsOn_def)
          have "tid (ts2 ! k) = tid (ts1 ! k)"
            using propagated_tid [OF ih1, of k] kl by (simp add: len1)
          moreover have "tid (ts1 ! k) = tid (ts ! k)" using n2 [OF k(1)] by (simp add: ts1_def)
          ultimately show ?thesis using k by auto
        qed
        with b b2 d show ?thesis by auto
      qed
    qed
    then show ?thesis using eq N by simp
  qed
qed


lemma affected_reach:
  "affected f ts = reach (pendingAt ts) (dependsOn ts) (set (dependents f ts))"
proof (rule set_eqI, rule iffI)
  fix x assume "x \<in> affected f ts"
  then show "x \<in> reach (pendingAt ts) (dependsOn ts) (set (dependents f ts))"
  proof (induction rule: affected.induct)
    case (direct i)
    then have "i \<in> set (dependents f ts)" "pendingAt ts i"
      by (simp_all add: dependents_def pendingAt_def)
    then show ?case by (rule reach.seed)
  next
    case (chain j i)
    have "pendingAt ts j" using chain.IH by (rule reach_P)
    with chain have "dependsOn ts i j" "pendingAt ts i"
      by (simp_all add: dependsOn_def pendingAt_def)
    with chain.IH show ?case by (rule reach.step)
  qed
next
  fix x assume "x \<in> reach (pendingAt ts) (dependsOn ts) (set (dependents f ts))"
  then show "x \<in> affected f ts"
  proof (induction rule: reach.induct)
    case (seed i)
    then show ?case by (simp add: dependents_def pendingAt_def affected.direct)
  next
    case (step j i)
    then show ?case by (simp add: dependsOn_def pendingAt_def affected.chain)
  qed
qed

lemma affected_pending: "j \<in> affected f ts \<Longrightarrow> j < length ts \<and> status (ts ! j) = Pending"
  by (induction rule: affected.induct) simp_all

lemma markDependentTasksAsFailed_propagated:
  "propagated f (set (dependents f ts)) (affected f ts) ts (markDependentTasksAsFailed f ts)"
  unfolding markDependentTasksAsFailed_def affected_reach by (rule markLoop_propagated)

text \<open>
  Claim C5. One call of the failure propagator on a failed task id keeps the collection's
  length and changes exactly the tasks in \<open>affected\<close>: the pending tasks whose dependencies
  include that id and, recursively, the pending tasks whose dependencies include the id
  of a task just marked. Each of them gets status failed and the error
  \<open>Dependency d failed\<close>, where \<open>d\<close> is one of its own dependencies and is the failed id or
  the id of another marked task; its other fields are kept. Every other task, and so every
  task that is running, completed or already failed, is left as it is. The result is a fixed
  point: no task that is still pending depends on the failed id or on a marked task.
\<close>

theorem markDependentTasksAsFailed_exact:
  "length (markDependentTasksAsFailed f ts) = length ts \<and>
   (\<forall>j<length ts.
      (j \<in> affected f ts \<longrightarrow>
         (\<exists>d\<in>set (dependencies (ts ! j)).
            (d = f \<or> (\<exists>k\<in>affected f ts. d = tid (ts ! k))) \<and>
            markDependentTasksAsFailed f ts ! j =
              (ts ! j)\<lparr>status := Failed, error := Some (''Dependency '' @ d @ '' failed'')\<rparr>)) \<and>
      (j \<notin> affected f ts \<longrightarrow> markDependentTasksAsFailed f ts ! j = ts ! j) \<and>
      (status (ts ! j) \<noteq> Pending \<longrightarrow> markDependentTasksAsFailed f ts ! j = ts ! j) \<and>
      (status (markDependentTasksAsFailed f ts ! j) = Pending \<longrightarrow>
         f \<notin> set (dependencies (ts ! j)) \<and>
         (\<forall>k\<in>affected f ts. tid (ts ! k) \<notin> set (dependencies (ts ! j)))))"
proof (intro conjI allI impI)
  let ?ts' = "markDependentTasksAsFailed f ts"
  note p = markDependentTasksAsFailed_propagated [of f ts]
  show "length ?ts' = length ts" using p by (rule propagated_length)
  fix j assume j: "j < length ts"
  have unch: "?ts' ! j = ts ! j" if "j \<notin> affected f ts"
    using p j that unfolding propagated_def by blast
  show "?ts' ! j = ts ! j" if "j \<notin> affected f ts" using that by (rule unch)
  show "?ts' ! j = ts ! j" if "status (ts ! j) \<noteq> Pending"
    using that affected_pending [of j f ts] unch by blast
  have aff: "\<exists>d. ?ts' ! j = markFailed (depFailedMsg d) (ts ! j) \<and>
       (d = f \<and> j \<in> set (dependents f ts) \<or>
        (\<exists>k\<in>affected f ts. d = tid (ts ! k) \<and> dependsOn ts j k))" if "j \<in> affected f ts"
    using p j that unfolding propagated_def by blast
  show "\<exists>d\<in>set (dependencies (ts ! j)).
            (d = f \<or> (\<exists>k\<in>affected f ts. d = tid (ts ! k))) \<and>
            ?ts' ! j = (ts ! j)\<lparr>status := Failed, error := Some (''Dependency '' @ d @ '' failed'')\<rparr>"
    if "j \<in> affected f ts"
  proof -
    from aff [OF that] obtain d where d: "?ts' ! j = markFailed (depFailedMsg d) (ts ! j)"
      and c: "d = f \<and> j \<in> set (dependents f ts) \<or>
        (\<exists>k\<in>affected f ts. d = tid (ts ! k) \<and> dependsOn ts j k)" by blast
    from c have "d \<in> set (dependencies (ts ! j))"
      by (auto simp: dependents_def dependsOn_def)
    moreover from c have "d = f \<or> (\<exists>k\<in>affected f ts. d = tid (ts ! k))" by blast
    ultimately show ?thesis using d by (auto simp: markFailed_def depFailedMsg_def)
  qed
  assume pend: "status (?ts' ! j) = Pending"
  have na: "j \<notin> affected f ts"
  proof
    assume "j \<in> affected f ts"
    from aff [OF this] pend show False by auto
  qed
  then have same: "?ts' ! j = ts ! j" by (rule unch)
  with pend have pj: "status (ts ! j) = Pending" by simp
  show "f \<notin> set (dependencies (ts ! j))"
    using na affected.direct [OF j pj] by blast
  show "\<forall>k\<in>affected f ts. tid (ts ! k) \<notin> set (dependencies (ts ! j))"
    using na affected.chain [OF _ j pj] by blast
qed

theorem markDependentTasksAsFailed_exact_witness:
  "2 \<in> affected ''a'' chainTasks \<and>
   markDependentTasksAsFailed ''a'' chainTasks ! 2 =
     (mkTask ''c'' [''b''] Pending)\<lparr>status := Failed, error := Some ''Dependency b failed''\<rparr> \<and>
   markDependentTasksAsFailed ''a'' chainTasks ! 3 = mkTask ''d'' [''a''] Running"
proof -
  have b: "1 \<in> affected ''a'' chainTasks"
    by (rule affected.direct) (simp_all add: chainTasks_def mkTask_def)
  have c: "2 \<in> affected ''a'' chainTasks"
    by (rule affected.chain [OF b]) (simp_all add: chainTasks_def mkTask_def)
  have l: "(2::nat) < length chainTasks" "(3::nat) < length chainTasks"
    by (simp_all add: chainTasks_def)
  have d: "status (chainTasks ! 3) \<noteq> Pending" by (simp add: chainTasks_def mkTask_def)
  note T = markDependentTasksAsFailed_exact [of "''a''" chainTasks]
  have "\<exists>d\<in>set (dependencies (chainTasks ! 2)).
          markDependentTasksAsFailed ''a'' chainTasks ! 2 =
            (chainTasks ! 2)\<lparr>status := Failed, error := Some (''Dependency '' @ d @ '' failed'')\<rparr>"
    using T l(1) c by blast
  then have two: "markDependentTasksAsFailed ''a'' chainTasks ! 2 =
     (mkTask ''c'' [''b''] Pending)\<lparr>status := Failed, error := Some ''Dependency b failed''\<rparr>"
    by (simp add: chainTasks_def mkTask_def)
  have "markDependentTasksAsFailed ''a'' chainTasks ! 3 = chainTasks ! 3"
    using T l(2) d by blast
  then have three: "markDependentTasksAsFailed ''a'' chainTasks ! 3 = mkTask ''d'' [''a''] Running"
    by (simp add: chainTasks_def)
  from c two three show ?thesis by simp
qed

section \<open>Effects of the steps, and dispatch\<close>

lemma notify_fields [simp]:
  "tasks (snd (notify env msg s)) = tasks s"
  "results (snd (notify env msg s)) = results s"
  "sched (snd (notify env msg s)) = sched s"
  "runAgents (log (snd (notify env msg s))) = runAgents (log s)"
  by (simp_all add: notify_def runAgents_def split: option.splits)

lemma updTask_fields [simp]:
  "tasks (updTask i f s) = (tasks s)[i := f (tasks s ! i)]"
  "results (updTask i f s) = results s"
  "sched (updTask i f s) = sched s"
  "log (updTask i f s) = log s"
  by (simp_all add: updTask_def)

lemma startTask_fields:
  "tasks (snd (startTask env i s)) = (tasks s)[i := (tasks s ! i)\<lparr>status := Running\<rparr>]"
  "results (snd (startTask env i s)) = results s"
  "sched (snd (startTask env i s)) = sched s"
  "runAgents (log (snd (startTask env i s))) = runAgents (log s)"
  "\<exists>out. fst (startTask env i s) = AwaitStart out"
  by (simp_all add: startTask_def notifyTaskStart_def Let_def split_beta)

lemma catchBlock_fields:
  "tasks (snd (catchBlock env i m s)) = (tasks s)[i := (tasks s ! i)\<lparr>status := Failed, error := Some m\<rparr>]"
  "results (snd (catchBlock env i m s)) = results s"
  "sched (snd (catchBlock env i m s)) = sched s"
  "runAgents (log (snd (catchBlock env i m s))) = runAgents (log s)"
  "\<exists>out. fst (catchBlock env i m s) = AwaitFailed out"
  by (simp_all add: catchBlock_def notifyTaskFailed_def Let_def split_beta)

lemma resume_cases [consumes 1, case_names exec catch complete finished propagate abort]:
  assumes "resume env i c s = (r, s')"
  obtains
    out where "c = AwaitStart None" "r = Inr (Some (AwaitExec out))" "tasks s' = tasks s"
      "results s' = results s" "runAgents (log s') = insert (tid (tasks s ! i)) (runAgents (log s))"
      "out = agent env (log s) (tasks s ! i)
               (map (\<lambda>d. (d, results s d)) (dependencies (tasks s ! i)))"
  | m out where "c = AwaitStart (Some m) \<or> c = AwaitExec (Inl m) \<or> c = AwaitComplete (Some m)"
      "r = Inr (Some (AwaitFailed out))"
      "tasks s' = (tasks s)[i := (tasks s ! i)\<lparr>status := Failed, error := Some m\<rparr>]"
      "results s' = results s" "runAgents (log s') = runAgents (log s)"
  | v out where "c = AwaitExec (Inr v)" "r = Inr (Some (AwaitComplete out))"
      "tasks s' = (tasks s)[i := (tasks s ! i)\<lparr>status := Completed, result := Some v\<rparr>]"
      "results s' = (results s)(tid (tasks s ! i) \<mapsto> v)" "runAgents (log s') = runAgents (log s)"
      "\<exists>t s0. out = fst (notifyTaskComplete env t s0)"
  | "c = AwaitComplete None" "r = Inr None" "s' = s"
  | "c = AwaitFailed None" "r = Inr None"
      "tasks s' = markDependentTasksAsFailed (tid (tasks s ! i)) (tasks s)"
      "results s' = results s" "log s' = log s"
  | m where "c = AwaitFailed (Some m)" "r = Inl m" "s' = s"
proof (cases "(env, i, c, s)" rule: resume.cases)
  case (1 env' i' s0)
  then have "r = Inr (Some (AwaitExec (fst (executeTask env (tasks s ! i) s))))"
    and "s' = snd (executeTask env (tasks s ! i) s)"
    using assms by (simp_all add: split_beta)
  with 1 show ?thesis
    by (intro that(1)) (auto simp: executeTask_def Let_def runAgents_def)
next
  case (2 env' i' m s0)
  then have r: "r = Inr (Some (fst (catchBlock env i m s)))" and s: "s' = snd (catchBlock env i m s)"
    using assms by (simp_all add: split_beta)
  obtain out where "fst (catchBlock env i m s) = AwaitFailed out"
    using catchBlock_fields(5) by blast
  with 2 r s show ?thesis
    by (intro that(2) [of m out]) (simp_all add: catchBlock_fields)
next
  case (3 env' i' v s0)
  define s1 where "s1 = updTask i (\<lambda>t. t\<lparr>status := Completed, result := Some v\<rparr>) s"
  define s2 where "s2 = s1\<lparr>results := (results s1)(tid (tasks s1 ! i) \<mapsto> v)\<rparr>"
  define n where "n = notifyTaskComplete env (tasks s2 ! i) s2"
  from 3 assms have r: "r = Inr (Some (AwaitComplete (fst n)))" and s: "s' = snd n"
    by (simp_all add: split_beta Let_def n_def s2_def s1_def)
  have t: "tid (tasks s1 ! i) = tid (tasks s ! i)"
    by (cases "i < length (tasks s)") (simp_all add: s1_def list_update_beyond)
  show ?thesis
  proof (rule that(3) [of v "fst n"])
    show "c = AwaitExec (Inr v)" using 3 by simp
    show "r = Inr (Some (AwaitComplete (fst n)))" by (rule r)
    show "tasks s' = (tasks s)[i := (tasks s ! i)\<lparr>status := Completed, result := Some v\<rparr>]"
      by (simp add: s n_def notifyTaskComplete_def s2_def s1_def)
    show "results s' = (results s)(tid (tasks s ! i) \<mapsto> v)"
      using t by (simp add: s n_def notifyTaskComplete_def s2_def) (simp add: s1_def)
    show "runAgents (log s') = runAgents (log s)"
      by (simp add: s n_def notifyTaskComplete_def s2_def s1_def)
    show "\<exists>t s0. fst n = fst (notifyTaskComplete env t s0)"
      using n_def by blast
  qed
next
  case (4 env' i' m s0)
  then have r: "r = Inr (Some (fst (catchBlock env i m s)))" and s: "s' = snd (catchBlock env i m s)"
    using assms by (simp_all add: split_beta)
  obtain out where "fst (catchBlock env i m s) = AwaitFailed out"
    using catchBlock_fields(5) by blast
  with 4 r s show ?thesis
    by (intro that(2) [of m out]) (simp_all add: catchBlock_fields)
next
  case (5 env' i' s0)
  with assms show ?thesis by (intro that(4)) simp_all
next
  case (6 env' i' m s0)
  then have r: "r = Inr (Some (fst (catchBlock env i m s)))" and s: "s' = snd (catchBlock env i m s)"
    using assms by (simp_all add: split_beta)
  obtain out where "fst (catchBlock env i m s) = AwaitFailed out"
    using catchBlock_fields(5) by blast
  with 6 r s show ?thesis
    by (intro that(2) [of m out]) (simp_all add: catchBlock_fields)
next
  case (7 env' i' s0)
  with assms show ?thesis by (intro that(5)) auto
next
  case (8 env' i' m s0)
  with assms show ?thesis by (intro that(6) [of m]) simp_all
qed

lemma distinct_readyIdx: "distinct (readyIdx ts)"
  by (simp add: readyIdx_def)

lemma readyIdx_mem: "i \<in> set (readyIdx ts) \<longleftrightarrow> i < length ts \<and> isReady ts (ts ! i)"
  by (auto simp: readyIdx_def)

lemma dispatchAll_tasks:
  "distinct is \<Longrightarrow>
   length (tasks (snd (dispatchAll env is fl s))) = length (tasks s) \<and>
   (\<forall>j<length (tasks s). tasks (snd (dispatchAll env is fl s)) ! j =
      (if j \<in> set is then (tasks s ! j)\<lparr>status := Running\<rparr> else tasks s ! j))"
proof (induction "is" arbitrary: fl s)
  case Nil
  then show ?case by simp
next
  case (Cons i "is")
  define s1 where "s1 = snd (startTask env i s)"
  define fl1 where "fl1 = fl @ [(i, fst (startTask env i s))]"
  have eq: "dispatchAll env (i # is) fl s = dispatchAll env is fl1 s1"
    by (simp add: split_beta s1_def fl1_def)
  have t1: "tasks s1 = (tasks s)[i := (tasks s ! i)\<lparr>status := Running\<rparr>]"
    by (simp add: s1_def startTask_fields)
  from Cons.prems have d: "distinct is" and ni: "i \<notin> set is" by simp_all
  note ih = Cons.IH [OF d, of fl1 s1]
  show ?case
  proof (intro conjI allI impI)
    show "length (tasks (snd (dispatchAll env (i # is) fl s))) = length (tasks s)"
      unfolding eq using ih by (simp add: t1)
  next
    fix j assume j: "j < length (tasks s)"
    then have "tasks (snd (dispatchAll env is fl1 s1)) ! j =
        (if j \<in> set is then (tasks s1 ! j)\<lparr>status := Running\<rparr> else tasks s1 ! j)"
      using ih by (simp add: t1)
    then show "tasks (snd (dispatchAll env (i # is) fl s)) ! j =
        (if j \<in> set (i # is) then (tasks s ! j)\<lparr>status := Running\<rparr> else tasks s ! j)"
      unfolding eq using j ni by (cases "j = i") (auto simp: t1)
  qed
qed

lemmas run_simps =
  executeTaskDAG_def initRun_def schedulingLoop.simps awaitAll.simps readyIdx_def isReady_def
  taskMap_def startTask_def catchBlock_def updTask_def notify_def notifyTaskStart_def
  notifyTaskComplete_def notifyTaskFailed_def executeTask_def nextUp_def
  markDependentTasksAsFailed_def dependents_def markFailed_def depFailedMsg_def Let_def

lemma upt_0_2: "[0..<2] = [0, 1]"
  by (simp add: upt_rec)

section \<open>Statuses during a run\<close>

lemma map_fst_update: "k < length fl \<Longrightarrow> map fst (fl[k := (fst (fl ! k), c)]) = map fst fl"
  by (simp add: map_update list_update_same_conv)

lemma map_of_update:
  "distinct (map fst fl) \<Longrightarrow> k < length fl \<Longrightarrow>
   map_of (fl[k := (fst (fl ! k), c)]) = (map_of fl)(fst (fl ! k) \<mapsto> c)"
proof (induction fl arbitrary: k)
  case Nil
  then show ?case by simp
next
  case (Cons p fl)
  show ?case
  proof (cases k)
    case 0
    then show ?thesis by (cases p) (simp add: fun_eq_iff)
  next
    case (Suc j)
    with Cons.prems have j: "j < length fl" and d: "distinct (map fst fl)"
      and n: "fst p \<noteq> fst (fl ! j)" by auto
    from Cons.IH [OF d j] Suc n show ?thesis
      by (cases p) (auto simp: fun_eq_iff)
  qed
qed

lemma map_of_remove:
  "distinct (map fst fl) \<Longrightarrow> k < length fl \<Longrightarrow>
   map_of (take k fl @ drop (Suc k) fl) = (map_of fl)(fst (fl ! k) := None)"
proof (induction fl arbitrary: k)
  case Nil
  then show ?case by simp
next
  case (Cons p fl)
  show ?case
  proof (cases k)
    case 0
    have "map_of fl (fst p) = None"
      using Cons.prems(1) by (simp add: map_of_eq_None_iff)
    with 0 show ?thesis by (cases p) (auto simp: fun_eq_iff)
  next
    case (Suc j)
    with Cons.prems have j: "j < length fl" and d: "distinct (map fst fl)"
      and n: "fst p \<noteq> fst (fl ! j)" by auto
    from Cons.IH [OF d j] Suc n show ?thesis
      by (cases p) (auto simp: fun_eq_iff)
  qed
qed

lemma distinct_take_drop: "distinct xs \<Longrightarrow> distinct (take k xs @ drop (Suc k) xs)"
proof (induction xs arbitrary: k)
  case Nil
  then show ?case by simp
next
  case (Cons x xs)
  show ?case
  proof (cases k)
    case 0
    with Cons.prems show ?thesis by simp
  next
    case (Suc j)
    have "x \<notin> set (take j xs)" "x \<notin> set (drop (Suc j) xs)"
      using Cons.prems by (auto dest: in_set_takeD in_set_dropD)
    with Cons.IH [of j] Cons.prems Suc show ?thesis by simp
  qed
qed

lemma distinct_remove:
  "distinct (map fst fl) \<Longrightarrow> distinct (map fst (take k fl @ drop (Suc k) fl))"
  using distinct_take_drop [of "map fst fl" k] by (simp add: take_map drop_map)

lemma map_of_snoc:
  "i \<notin> fst ` set fl \<Longrightarrow> map_of (fl @ [(i, c)]) = (map_of fl)(i \<mapsto> c)"
proof (induction fl)
  case Nil
  then show ?case by simp
next
  case (Cons p fl)
  then show ?case by (cases p) (auto simp: fun_eq_iff)
qed

lemma map_of_nth:
  "distinct (map fst fl) \<Longrightarrow> k < length fl \<Longrightarrow> map_of fl (fst (fl ! k)) = Some (snd (fl ! k))"
  by (simp add: map_of_eq_Some_iff)

lemma dependsOn_update:
  assumes "tid t = tid (ts ! i)" and "dependencies t = dependencies (ts ! i)"
  shows "dependsOn (ts[i := t]) = dependsOn ts"
proof (intro ext)
  fix a b
  show "dependsOn (ts[i := t]) a b = dependsOn ts a b"
    using assms by (cases "a = i"; cases "b = i") (auto simp: dependsOn_def)
qed

lemma InvM1_update:
  assumes inv: "InvM1 m ts" and i: "i < length ts"
    and t: "tid t = tid (ts ! i)" "dependencies t = dependencies (ts ! i)"
    and st: "status t = phaseStatus c" and np: "status (ts ! i) = Pending \<or> m i \<noteq> None"
  shows "InvM1 (m(i \<mapsto> c)) (ts[i := t])"
  unfolding InvM1_def
proof (intro conjI allI impI)
  fix j c' assume "(m(i \<mapsto> c)) j = Some c'"
  then have "j < length (ts[i := t]) \<and> status (ts[i := t] ! j) = phaseStatus c'"
    using inv i st unfolding InvM1_def by (cases "j = i") auto
  then show "j < length (ts[i := t])" and "status (ts[i := t] ! j) = phaseStatus c'"
    by simp_all
next
  fix j assume "j < length (ts[i := t])" "status (ts[i := t] ! j) = Running"
  then show "(m(i \<mapsto> c)) j \<noteq> None"
    using inv unfolding InvM1_def by (cases "j = i") auto
next
  fix j a assume j: "j < length (ts[i := t])"
    and f: "status (ts[i := t] ! j) = Failed \<and> (m(i \<mapsto> c)) j = None"
    and d: "dependsOn (ts[i := t]) a j"
  from f have ji: "j \<noteq> i" by auto
  with j f have "j < length ts" "status (ts ! j) = Failed" "m j = None" by auto
  moreover have d': "dependsOn ts a j" using d dependsOn_update [OF t] by simp
  ultimately have a: "status (ts ! a) \<noteq> Pending" using inv unfolding InvM1_def by blast
  have al: "a < length ts" using d' by (simp add: dependsOn_def)
  show "status (ts[i := t] ! a) \<noteq> Pending"
  proof (cases "a = i")
    case True
    from np show ?thesis
    proof
      assume "status (ts ! i) = Pending" with a True show ?thesis by simp
    next
      assume "m i \<noteq> None"
      then obtain c0 where "m i = Some c0" by blast
      with inv have "status (ts ! i) = phaseStatus c0" unfolding InvM1_def by blast
      then have "status (ts ! i) \<noteq> Pending" by (cases c0) auto
      moreover have "status t \<noteq> Pending" using st by (cases c) auto
      ultimately show ?thesis using True i by simp
    qed
  next
    case False
    with a show ?thesis by simp
  qed
qed

lemma InvM1_retag:
  assumes inv: "InvM1 m ts" and mi: "m i = Some c0" and ph: "phaseStatus c = phaseStatus c0"
  shows "InvM1 (m(i \<mapsto> c)) ts"
proof -
  from inv mi have i: "i < length ts" and st: "status (ts ! i) = phaseStatus c0"
    unfolding InvM1_def by blast+
  have "InvM1 (m(i \<mapsto> c)) (ts[i := ts ! i])"
    using inv i by (rule InvM1_update) (use st ph mi in auto)
  then show ?thesis by simp
qed

lemma InvM1_finished:
  assumes inv: "InvM1 m ts" and mi: "m i = Some (AwaitComplete x)"
  shows "InvM1 (m(i := None)) ts"
proof -
  from inv mi have i: "i < length ts" and st: "status (ts ! i) = Completed"
    unfolding InvM1_def by force+
  show ?thesis
    unfolding InvM1_def
  proof (intro conjI allI impI)
    fix j c assume "(m(i := None)) j = Some c"
    then have "j < length ts \<and> status (ts ! j) = phaseStatus c"
      using inv unfolding InvM1_def by (cases "j = i") auto
    then show "j < length ts" and "status (ts ! j) = phaseStatus c" by simp_all
  next
    fix j assume "j < length ts" "status (ts ! j) = Running"
    then show "(m(i := None)) j \<noteq> None"
      using inv st unfolding InvM1_def by (cases "j = i") auto
  next
    fix j a assume "j < length ts" "status (ts ! j) = Failed \<and> (m(i := None)) j = None"
      "dependsOn ts a j"
    then show "status (ts ! a) \<noteq> Pending"
      using inv st unfolding InvM1_def by (cases "j = i") auto
  qed
qed

lemma markDependentTasksAsFailed_nth:
  "j < length ts \<Longrightarrow>
   markDependentTasksAsFailed f ts ! j = ts ! j \<or>
   status (ts ! j) = Pending \<and>
     (\<exists>d. markDependentTasksAsFailed f ts ! j = markFailed (depFailedMsg d) (ts ! j))"
  using markDependentTasksAsFailed_propagated [of f ts] affected_pending [of j f ts]
  unfolding propagated_def by blast

lemma markDependentTasksAsFailed_length [simp]:
  "length (markDependentTasksAsFailed f ts) = length ts"
  using markDependentTasksAsFailed_propagated [of f ts] by (rule propagated_length)

lemma markDependentTasksAsFailed_dependsOn [simp]:
  "dependsOn (markDependentTasksAsFailed f ts) = dependsOn ts"
  using markDependentTasksAsFailed_propagated [of f ts] by (rule propagated_dependsOn)

lemma markDependentTasksAsFailed_closed:
  assumes j: "j < length ts" and p: "status (markDependentTasksAsFailed f ts ! j) = Pending"
  shows "f \<notin> set (dependencies (ts ! j))"
    and "k < length ts \<Longrightarrow> status (ts ! k) = Pending \<Longrightarrow>
         status (markDependentTasksAsFailed f ts ! k) = Failed \<Longrightarrow>
         tid (ts ! k) \<notin> set (dependencies (ts ! j))"
proof -
  let ?ts' = "markDependentTasksAsFailed f ts"
  note P = markDependentTasksAsFailed_propagated [of f ts]
  have na: "j \<notin> affected f ts"
  proof
    assume "j \<in> affected f ts"
    with P j obtain d where "?ts' ! j = markFailed (depFailedMsg d) (ts ! j)"
      unfolding propagated_def by blast
    with p show False by simp
  qed
  with P j have "?ts' ! j = ts ! j" unfolding propagated_def by blast
  with p have pj: "status (ts ! j) = Pending" by simp
  show "f \<notin> set (dependencies (ts ! j))"
    using na affected.direct [OF j pj] by blast
  assume k: "k < length ts" "status (ts ! k) = Pending" "status (?ts' ! k) = Failed"
  have "k \<in> affected f ts"
  proof (rule ccontr)
    assume "k \<notin> affected f ts"
    with P k(1) have "?ts' ! k = ts ! k" unfolding propagated_def by blast
    with k show False by simp
  qed
  then show "tid (ts ! k) \<notin> set (dependencies (ts ! j))"
    using na affected.chain [OF _ j pj] by blast
qed

lemma InvM1_propagate:
  assumes inv: "InvM1 m ts" and mi: "m i = Some (AwaitFailed x)"
  shows "InvM1 (m(i := None)) (markDependentTasksAsFailed (tid (ts ! i)) ts)"
proof -
  let ?ts' = "markDependentTasksAsFailed (tid (ts ! i)) ts"
  from inv mi have i: "i < length ts" and st: "status (ts ! i) = Failed"
    unfolding InvM1_def by force+
  note nth = markDependentTasksAsFailed_nth [of _ ts "tid (ts ! i)"]
  have keep: "?ts' ! j = ts ! j" if "j < length ts" "status (ts ! j) \<noteq> Pending" for j
    using nth [OF that(1)] that(2) by blast
  show ?thesis
    unfolding InvM1_def
  proof (intro conjI allI impI)
    fix j c assume a: "(m(i := None)) j = Some c"
    then have mj: "m j = Some c" by (cases "j = i") auto
    with inv have j: "j < length ts" and s: "status (ts ! j) = phaseStatus c"
      unfolding InvM1_def by blast+
    then have "status (ts ! j) \<noteq> Pending" by (cases c) auto
    with keep [OF j] j s show "j < length ?ts'" and "status (?ts' ! j) = phaseStatus c"
      by simp_all
  next
    fix j assume j: "j < length ?ts'" and r: "status (?ts' ! j) = Running"
    then have jl: "j < length ts" by simp
    from nth [OF jl] r have "status (ts ! j) = Running" by auto
    with inv jl have "m j \<noteq> None" unfolding InvM1_def by blast
    moreover have "j \<noteq> i" using st \<open>status (ts ! j) = Running\<close> by auto
    ultimately show "(m(i := None)) j \<noteq> None" by simp
  next
    fix j a assume j: "j < length ?ts'"
      and f: "status (?ts' ! j) = Failed \<and> (m(i := None)) j = None"
      and d: "dependsOn ?ts' a j"
    from j have jl: "j < length ts" by simp
    from d have d': "dependsOn ts a j" by simp
    then have al: "a < length ts" and dep: "tid (ts ! j) \<in> set (dependencies (ts ! a))"
      by (simp_all add: dependsOn_def)
    show "status (?ts' ! a) \<noteq> Pending"
    proof
      assume pa: "status (?ts' ! a) = Pending"
      note cl = markDependentTasksAsFailed_closed [OF al pa]
      from nth [OF al] pa have pa0: "status (ts ! a) = Pending" by auto
      show False
      proof (cases "j = i")
        case True
        with cl(1) dep show False by simp
      next
        case False
        with f have mj: "m j = None" by simp
        show False
        proof (cases "status (ts ! j) = Pending")
          case True
          with cl(2) [OF jl] f dep show False by blast
        next
          case False
          with keep [OF jl] f have "status (ts ! j) = Failed" by simp
          with inv jl mj d' pa0 show False unfolding InvM1_def by blast
        qed
      qed
    qed
  qed
qed

lemma Inv1_resume:
  assumes inv: "Inv1 fl (tasks s)" and k: "k < length fl"
    and res: "resume env (fst (fl ! k)) (snd (fl ! k)) s = (Inr r, s')"
  shows "Inv1 (case r of None \<Rightarrow> take k fl @ drop (Suc k) fl
                 | Some c \<Rightarrow> fl[k := (fst (fl ! k), c)]) (tasks s')"
proof -
  let ?i = "fst (fl ! k)" and ?m = "map_of fl" and ?ts = "tasks s"
  from inv have d: "distinct (map fst fl)" and M: "InvM1 ?m ?ts" by (simp_all add: Inv1_def)
  have mi: "?m ?i = Some (snd (fl ! k))" using d k by (rule map_of_nth)
  with M have il: "?i < length ?ts" unfolding InvM1_def by blast
  have upd: "Inv1 (fl[k := (?i, c)]) ts'" if "InvM1 (?m(?i \<mapsto> c)) ts'" for c ts'
  proof -
    have "distinct (map fst (fl[k := (?i, c)]))" using d k by (simp only: map_fst_update)
    moreover have "map_of (fl[k := (?i, c)]) = ?m(?i \<mapsto> c)"
      using d k by (rule map_of_update)
    ultimately show ?thesis using that by (simp only: Inv1_def simp_thms)
  qed
  have rem: "Inv1 (take k fl @ drop (Suc k) fl) ts'" if "InvM1 (?m(?i := None)) ts'" for ts'
  proof -
    have "distinct (map fst (take k fl @ drop (Suc k) fl))" using d by (rule distinct_remove)
    moreover have "map_of (take k fl @ drop (Suc k) fl) = ?m(?i := None)"
      using d k by (rule map_of_remove)
    ultimately show ?thesis using that by (simp only: Inv1_def simp_thms)
  qed
  from res show ?thesis
  proof (cases rule: resume_cases)
    case (exec out)
    with mi have "?m ?i = Some (AwaitStart None)" by simp
    then have "InvM1 (?m(?i \<mapsto> AwaitExec out)) ?ts"
      by (rule InvM1_retag [OF M]) simp
    with exec show ?thesis by (simp add: upd)
  next
    case (catch m out)
    have "InvM1 (?m(?i \<mapsto> AwaitFailed out)) (?ts[?i := (?ts ! ?i)\<lparr>status := Failed, error := Some m\<rparr>])"
      using M il by (rule InvM1_update) (use mi in simp_all)
    with catch show ?thesis by (simp add: upd)
  next
    case (complete v out)
    have "InvM1 (?m(?i \<mapsto> AwaitComplete out)) (?ts[?i := (?ts ! ?i)\<lparr>status := Completed, result := Some v\<rparr>])"
      using M il by (rule InvM1_update) (use mi in simp_all)
    with complete show ?thesis by (simp add: upd)
  next
    case finished
    with mi have "InvM1 (?m(?i := None)) ?ts" by (intro InvM1_finished [OF M]) simp
    with finished show ?thesis by (simp add: rem)
  next
    case propagate
    with mi have "InvM1 (?m(?i := None)) (markDependentTasksAsFailed (tid (?ts ! ?i)) ?ts)"
      by (intro InvM1_propagate [OF M]) simp
    with propagate show ?thesis by (simp add: rem)
  next
    case (abort m)
    then show ?thesis by simp
  qed
qed

lemma Inv1_not_Pending:
  "Inv1 fl ts \<Longrightarrow> i \<in> fst ` set fl \<Longrightarrow> status (ts ! i) \<noteq> Pending"
proof -
  assume inv: "Inv1 fl ts" and "i \<in> fst ` set fl"
  then obtain c where "map_of fl i = Some c"
    by (metis map_of_eq_None_iff not_Some_eq)
  with inv have "status (ts ! i) = phaseStatus c" unfolding Inv1_def InvM1_def by blast
  then show ?thesis by (cases c) auto
qed

lemma Inv1_dispatchAll:
  "Inv1 fl (tasks s) \<Longrightarrow> distinct is \<Longrightarrow>
   (\<forall>i\<in>set is. i < length (tasks s) \<and> status (tasks s ! i) = Pending) \<Longrightarrow>
   Inv1 (fst (dispatchAll env is fl s)) (tasks (snd (dispatchAll env is fl s)))"
proof (induction "is" arbitrary: fl s)
  case Nil
  then show ?case by simp
next
  case (Cons i "is")
  define s1 where "s1 = snd (startTask env i s)"
  define fl1 where "fl1 = fl @ [(i, fst (startTask env i s))]"
  have eq: "dispatchAll env (i # is) fl s = dispatchAll env is fl1 s1"
    by (simp add: split_beta s1_def fl1_def)
  have t1: "tasks s1 = (tasks s)[i := (tasks s ! i)\<lparr>status := Running\<rparr>]"
    by (simp add: s1_def startTask_fields)
  obtain out where out: "fst (startTask env i s) = AwaitStart out"
    using startTask_fields(5) by blast
  from Cons.prems have il: "i < length (tasks s)" and ip: "status (tasks s ! i) = Pending"
    and ni: "i \<notin> set is" and dis: "distinct is" by simp_all
  from Cons.prems(1) have d: "distinct (map fst fl)" and M: "InvM1 (map_of fl) (tasks s)"
    by (simp_all add: Inv1_def)
  have nf: "i \<notin> fst ` set fl" using Inv1_not_Pending [OF Cons.prems(1)] ip by blast
  have "InvM1 ((map_of fl)(i \<mapsto> AwaitStart out)) (tasks s1)"
    unfolding t1 using M il by (rule InvM1_update) (use ip in simp_all)
  moreover have "map_of fl1 = (map_of fl)(i \<mapsto> AwaitStart out)"
    unfolding fl1_def out using nf by (rule map_of_snoc)
  moreover have "distinct (map fst fl1)" using d nf by (simp add: fl1_def)
  ultimately have inv1: "Inv1 fl1 (tasks s1)" by (simp only: Inv1_def simp_thms)
  have rest: "\<forall>j\<in>set is. j < length (tasks s1) \<and> status (tasks s1 ! j) = Pending"
  proof
    fix j assume j: "j \<in> set is"
    with ni have "j \<noteq> i" by blast
    moreover from j Cons.prems(3) have "j < length (tasks s) \<and> status (tasks s ! j) = Pending"
      by simp
    ultimately show "j < length (tasks s1) \<and> status (tasks s1 ! j) = Pending"
      by (simp add: t1)
  qed
  show ?case unfolding eq using inv1 dis rest by (rule Cons.IH)
qed

lemma awaitAll_invariant:
  assumes "\<And>fl s x. I fl (s\<lparr>sched := x\<rparr>) = I fl s"
    and "\<And>fl s k r s'. I fl s \<Longrightarrow> k < length fl \<Longrightarrow>
          resume env (fst (fl ! k)) (snd (fl ! k)) s = (Inr r, s') \<Longrightarrow>
          I (case r of None \<Rightarrow> take k fl @ drop (Suc k) fl
                | Some c \<Rightarrow> fl[k := (fst (fl ! k), c)]) s'"
    and "I fl s" and "awaitAll env fl s = Inr s'"
  shows "I [] s'"
  using assms
proof (induction env fl s rule: awaitAll.induct)
  case (1 env fl s)
  show ?case
  proof (cases "fl = []")
    case True
    with "1.prems"(3,4) show ?thesis by (simp add: awaitAll.simps)
  next
    case False
    define k where "k = nextUp (sched s) (length fl)"
    define r where "r = resume env (fst (fl ! k)) (snd (fl ! k)) (s\<lparr>sched := tl (sched s)\<rparr>)"
    have kl: "k < length fl" using False by (simp add: k_def nextUp_less)
    have I0: "I fl (s\<lparr>sched := tl (sched s)\<rparr>)" using "1.prems"(1,3) by simp
    have eq: "awaitAll env fl s =
        (case fst r of Inl m \<Rightarrow> Inl (m, snd r)
         | Inr None \<Rightarrow> awaitAll env (take k fl @ drop (Suc k) fl) (snd r)
         | Inr (Some c) \<Rightarrow> awaitAll env (fl[k := (fst (fl ! k), c)]) (snd r))"
      unfolding k_def r_def using False by (subst awaitAll.simps) (simp add: Let_def)
    show ?thesis
    proof (cases "fst r")
      case (Inl m)
      with eq "1.prems"(4) show ?thesis by simp
    next
      case (Inr ro)
      then have res: "resume env (fst (fl ! k)) (snd (fl ! k)) (s\<lparr>sched := tl (sched s)\<rparr>)
          = (Inr ro, snd r)"
        by (simp add: r_def [symmetric] prod_eq_iff)
      note step = "1.prems"(2) [OF I0 kl res]
      show ?thesis
      proof (cases ro)
        case None
        with Inr eq "1.prems"(4) have a: "awaitAll env (take k fl @ drop (Suc k) fl) (snd r) = Inr s'"
          by simp
        from step None have i: "I (take k fl @ drop (Suc k) fl) (snd r)" by simp
        show ?thesis
          using "1.IH"(1) [OF False k_def r_def Inr None "1.prems"(1,2) i a] .
      next
        case (Some c)
        with Inr eq "1.prems"(4) have a: "awaitAll env (fl[k := (fst (fl ! k), c)]) (snd r) = Inr s'"
          by simp
        from step Some have i: "I (fl[k := (fst (fl ! k), c)]) (snd r)" by simp
        show ?thesis
          using "1.IH"(2) [OF False k_def r_def Inr Some "1.prems"(1,2) i a] .
      qed
    qed
  qed
qed

section \<open>Termination\<close>

lemma graphOf_update:
  "tid t = tid (ts ! i) \<Longrightarrow> dependencies t = dependencies (ts ! i) \<Longrightarrow>
   graphOf (ts[i := t]) = graphOf ts"
  by (cases "i < length ts")
     (simp_all add: graphOf_def map_update list_update_same_conv list_update_beyond)

lemma graphOf_markDependentTasksAsFailed [simp]:
  "graphOf (markDependentTasksAsFailed f ts) = graphOf ts"
proof (rule nth_equalityI)
  show "length (graphOf (markDependentTasksAsFailed f ts)) = length (graphOf ts)"
    by (simp add: graphOf_def)
next
  fix j assume "j < length (graphOf (markDependentTasksAsFailed f ts))"
  then have j: "j < length ts" by (simp add: graphOf_def)
  from markDependentTasksAsFailed_nth [OF j, of f]
  show "graphOf (markDependentTasksAsFailed f ts) ! j = graphOf ts ! j"
    using j by (auto simp: graphOf_def)
qed

lemma resume_graphOf: "graphOf (tasks (snd (resume env i c s))) = graphOf (tasks s)"
proof -
  obtain r s' where rs: "resume env i c s = (r, s')" by (cases "resume env i c s")
  from rs have "graphOf (tasks s') = graphOf (tasks s)"
    by (cases rule: resume_cases) (simp_all add: graphOf_update)
  with rs show ?thesis by simp
qed

lemma startTask_graphOf: "graphOf (tasks (snd (startTask env i s))) = graphOf (tasks s)"
  by (simp add: startTask_fields graphOf_update)

lemma dispatchAll_graphOf: "graphOf (tasks (snd (dispatchAll env is fl s))) = graphOf (tasks s)"
  by (induction "is" arbitrary: fl s) (simp_all add: split_beta startTask_graphOf)

lemma depRel_graphOf: "depRel ts = {(d, i). \<exists>ds. (i, ds) \<in> set (graphOf ts) \<and> d \<in> set ds}"
  by (auto simp: depRel_def graphOf_def)

lemma ids_graphOf: "tid ` set ts = fst ` set (graphOf ts)"
  by (auto simp: graphOf_def image_iff)

lemma finite_depRel: "finite (depRel ts)"
proof -
  have "depRel ts \<subseteq> (\<Union>t\<in>set ts. set (dependencies t) \<times> {tid t})"
    by (auto simp: depRel_def)
  moreover have "finite (\<Union>t\<in>set ts. set (dependencies t) \<times> {tid t})" by simp
  ultimately show ?thesis by (rule finite_subset)
qed

lemma taskMap_dom: "d \<in> tid ` set ts \<Longrightarrow> \<exists>u. taskMap ts d = Some u"
proof -
  assume "d \<in> tid ` set ts"
  then have "d \<in> fst ` set (rev (map (\<lambda>t. (tid t, t)) ts))" by (auto simp: image_iff)
  then have "map_of (rev (map (\<lambda>t. (tid t, t)) ts)) d \<noteq> None"
    by (simp only: map_of_eq_None_iff not_not)
  then show ?thesis by (auto simp: taskMap_def)
qed

lemma all_terminal_when_stuck:
  assumes inv: "Inv1 [] ts" and r: "readyIdx ts = []" and ac: "acyclic (depRel ts)"
    and pres: "\<forall>t\<in>set ts. set (dependencies t) \<subseteq> tid ` set ts"
  shows "\<forall>t\<in>set ts. status t = Completed \<or> status t = Failed"
proof -
  from inv have M: "InvM1 Map.empty ts" by (simp add: Inv1_def)
  have norun: "status (ts ! i) \<noteq> Running" if "i < length ts" for i
    using M that unfolding InvM1_def by auto
  have nopend: "status (ts ! i) \<noteq> Pending" if i: "i < length ts" for i
  proof
    assume p: "status (ts ! i) = Pending"
    define Q where "Q = {tid (ts ! j) | j. j < length ts \<and> status (ts ! j) = Pending}"
    have wf: "wf (depRel ts)" using finite_depRel ac by (rule finite_acyclic_wf)
    have "tid (ts ! i) \<in> Q" using i p unfolding Q_def by blast
    with wf obtain z where z: "z \<in> Q" and zmin: "\<And>y. (y, z) \<in> depRel ts \<Longrightarrow> y \<notin> Q"
      by (rule wfE_min) blast
    from z obtain p where pl: "p < length ts" and pp: "status (ts ! p) = Pending"
      and zp: "z = tid (ts ! p)" unfolding Q_def by blast
    have "p \<notin> set (readyIdx ts)" using r by simp
    with pl have "\<not> isReady ts (ts ! p)" by (simp add: readyIdx_mem)
    with pp obtain d where d: "d \<in> set (dependencies (ts ! p))" and nd: "\<not> depDone ts d"
      by (auto simp: isReady_depDone)
    have mem: "ts ! p \<in> set ts" using pl by simp
    with d have "(d, z) \<in> depRel ts" unfolding depRel_def zp by blast
    then have dQ: "d \<notin> Q" by (rule zmin)
    from mem d pres have "d \<in> tid ` set ts" by blast
    then obtain u where "taskMap ts d = Some u" using taskMap_dom by blast
    then obtain j where jl: "j < length ts" and ju: "ts ! j = u" and jd: "tid u = d"
      and last: "\<forall>k<length ts. j < k \<longrightarrow> tid (ts ! k) \<noteq> d"
      unfolding taskMap_Some_iff by blast
    have "status (ts ! j) \<noteq> Completed"
      using nd jl ju jd last unfolding depDone_def by blast
    moreover have "status (ts ! j) \<noteq> Running" using jl by (rule norun)
    moreover have "status (ts ! j) \<noteq> Pending" using dQ jl ju jd unfolding Q_def by blast
    ultimately have f: "status (ts ! j) = Failed" by (cases "status (ts ! j)") auto
    have "dependsOn ts p j" using pl jl d ju jd by (simp add: dependsOn_def)
    with M jl f have "status (ts ! p) \<noteq> Pending" unfolding InvM1_def by auto
    with pp show False by simp
  qed
  show ?thesis
  proof
    fix t assume "t \<in> set ts"
    then obtain i where i: "i < length ts" and t: "t = ts ! i" by (auto simp: in_set_conv_nth)
    from norun [OF i] nopend [OF i] t show "status t = Completed \<or> status t = Failed"
      by (cases "status t") auto
  qed
qed

lemma pendingCount_card:
  "pendingCount ts = card {i. i < length ts \<and> status (ts ! i) = Pending}"
  by (simp add: pendingCount_def length_filter_conv_card)

lemma pendingCount_less:
  assumes "length ts' = length ts"
    and "\<forall>j<length ts. status (ts' ! j) = Pending \<longrightarrow> status (ts ! j) = Pending"
    and "i < length ts" and "status (ts ! i) = Pending" and "status (ts' ! i) \<noteq> Pending"
  shows "pendingCount ts' < pendingCount ts"
proof -
  have "{i. i < length ts' \<and> status (ts' ! i) = Pending}
      \<subset> {i. i < length ts \<and> status (ts ! i) = Pending}"
    using assms by auto
  then show ?thesis unfolding pendingCount_card by (intro psubset_card_mono) simp_all
qed

lemma resume_length: "length (tasks (snd (resume env i c s))) = length (tasks s)"
  using resume_graphOf [of env i c s, THEN arg_cong, of length] by (simp add: graphOf_def)

lemma resume_no_new_Pending:
  assumes "j < length (tasks s)" and "status (tasks (snd (resume env k c s)) ! j) = Pending"
  shows "status (tasks s ! j) = Pending"
proof -
  obtain r s' where rs: "resume env k c s = (r, s')" by (cases "resume env k c s")
  with assms(2) have p: "status (tasks s' ! j) = Pending" by simp
  from rs show ?thesis
  proof (cases rule: resume_cases)
    case (exec out)
    with p show ?thesis by simp
  next
    case (catch m out)
    with p assms(1) show ?thesis by (cases "j = k") simp_all
  next
    case (complete v out)
    with p assms(1) show ?thesis by (cases "j = k") simp_all
  next
    case finished
    with p show ?thesis by simp
  next
    case propagate
    with p markDependentTasksAsFailed_nth [OF assms(1), of "tid (tasks s ! k)"]
    show ?thesis by auto
  next
    case (abort m)
    with p show ?thesis by simp
  qed
qed

lemma awaitAll_Inv1:
  assumes "Inv1 fl (tasks s)" and "awaitAll env fl s = Inr s'"
  shows "Inv1 [] (tasks s')"
  using _ _ assms
proof (rule awaitAll_invariant [where I = "\<lambda>fl s. Inv1 fl (tasks s)"])
  show "\<And>fl s x. Inv1 fl (tasks (s\<lparr>sched := x\<rparr>)) = Inv1 fl (tasks s)" by simp
  show "\<And>fl s k r s'. Inv1 fl (tasks s) \<Longrightarrow> k < length fl \<Longrightarrow>
       resume env (fst (fl ! k)) (snd (fl ! k)) s = (Inr r, s') \<Longrightarrow>
       Inv1 (case r of None \<Rightarrow> take k fl @ drop (Suc k) fl
              | Some c \<Rightarrow> fl[k := (fst (fl ! k), c)]) (tasks s')"
    by (rule Inv1_resume)
qed

lemma awaitAll_graphOf:
  assumes "awaitAll env fl s = Inr s'"
  shows "graphOf (tasks s') = graphOf (tasks s)"
proof -
  have "graphOf (tasks s') = graphOf (tasks s)"
    using _ _ refl assms
  proof (rule awaitAll_invariant [where I = "\<lambda>fl s0. graphOf (tasks s0) = graphOf (tasks s)"])
    show "\<And>fl s0 x. (graphOf (tasks (s0\<lparr>sched := x\<rparr>)) = graphOf (tasks s))
        = (graphOf (tasks s0) = graphOf (tasks s))" by simp
    show "\<And>fl s0 k r s'. graphOf (tasks s0) = graphOf (tasks s) \<Longrightarrow> k < length fl \<Longrightarrow>
       resume env (fst (fl ! k)) (snd (fl ! k)) s0 = (Inr r, s') \<Longrightarrow>
       graphOf (tasks s') = graphOf (tasks s)"
      using resume_graphOf by (metis snd_conv)
  qed
  then show ?thesis .
qed

lemma awaitAll_no_new_Pending:
  assumes "awaitAll env fl s = Inr s'"
  shows "length (tasks s') = length (tasks s) \<and>
         (\<forall>j<length (tasks s). status (tasks s' ! j) = Pending \<longrightarrow> status (tasks s ! j) = Pending)"
proof -
  let ?I = "\<lambda>(fl :: (nat \<times> 'a cont) list) s0. length (tasks s0) = length (tasks s) \<and>
     (\<forall>j<length (tasks s). status (tasks s0 ! j) = Pending \<longrightarrow> status (tasks s ! j) = Pending)"
  have "?I [] s'"
    using _ _ _ assms
  proof (rule awaitAll_invariant [where I = ?I])
    show "\<And>fl s0 x. ?I fl (s0\<lparr>sched := x\<rparr>) = ?I fl s0" by simp
    show "?I fl s" by simp
    fix fl s0 k r s1
    assume I: "?I fl s0" and res: "resume env (fst (fl ! k)) (snd (fl ! k)) s0 = (Inr r, s1)"
    have l: "length (tasks s1) = length (tasks s0)"
      using resume_length [of env "fst (fl ! k)" "snd (fl ! k)" s0] res by simp
    have "status (tasks s0 ! j) = Pending" if "j < length (tasks s)" "status (tasks s1 ! j) = Pending" for j
      using resume_no_new_Pending [of j s0 env "fst (fl ! k)" "snd (fl ! k)"] that I res by simp
    with I l show "?I (case r of None \<Rightarrow> take k fl @ drop (Suc k) fl
              | Some c \<Rightarrow> fl[k := (fst (fl ! k), c)]) s1" by simp
  qed
  then show ?thesis .
qed

lemma readyIdx_pending:
  "\<forall>i\<in>set (readyIdx ts). i < length ts \<and> status (ts ! i) = Pending"
  by (simp add: readyIdx_mem isReady_depDone)

lemma readyIdx_loop_condition:
  assumes "readyIdx ts \<noteq> []"
  shows "list_ex (\<lambda>t. status t = Pending \<or> status t = Running) ts"
proof -
  from assms obtain i where "i \<in> set (readyIdx ts)" by (cases "readyIdx ts") auto
  with readyIdx_pending [of ts] have "i < length ts" "status (ts ! i) = Pending" by blast+
  then have "ts ! i \<in> set ts" "status (ts ! i) = Pending" by simp_all
  then show ?thesis unfolding list_ex_iff by blast
qed

lemma wave_Inv1:
  assumes "Inv1 [] (tasks s)"
    and "awaitAll env (fst (dispatchAll env (readyIdx (tasks s)) [] s))
           (snd (dispatchAll env (readyIdx (tasks s)) [] s)) = Inr s2"
  shows "Inv1 [] (tasks s2)"
  using Inv1_dispatchAll [OF assms(1) distinct_readyIdx readyIdx_pending, of env] assms(2)
  by (rule awaitAll_Inv1)

lemma wave_graphOf:
  assumes "awaitAll env (fst (dispatchAll env is [] s)) (snd (dispatchAll env is [] s)) = Inr s2"
  shows "graphOf (tasks s2) = graphOf (tasks s)"
  using awaitAll_graphOf [OF assms] by (simp add: dispatchAll_graphOf)

lemma wave_pendingCount:
  assumes ne: "readyIdx (tasks s) \<noteq> []"
    and aw: "awaitAll env (fst (dispatchAll env (readyIdx (tasks s)) [] s))
           (snd (dispatchAll env (readyIdx (tasks s)) [] s)) = Inr s2"
  shows "pendingCount (tasks s2) < pendingCount (tasks s)"
proof -
  let ?ts = "tasks s" and ?ts1 = "tasks (snd (dispatchAll env (readyIdx (tasks s)) [] s))"
  note D = dispatchAll_tasks [OF distinct_readyIdx, where ts1 = ?ts and env = env and fl = "[]" and s = s]
  note A = awaitAll_no_new_Pending [OF aw]
  from ne obtain i where i: "i \<in> set (readyIdx ?ts)" by (cases "readyIdx ?ts") auto
  then have il: "i < length ?ts" and ip: "status (?ts ! i) = Pending"
    using readyIdx_pending by blast+
  have l: "length (tasks s2) = length ?ts" using A D by simp
  have np: "status (?ts ! j) = Pending \<and> j \<notin> set (readyIdx ?ts)"
    if "j < length ?ts" "status (tasks s2 ! j) = Pending" for j
  proof -
    from A D that have "status (?ts1 ! j) = Pending" by simp
    with D that(1) show ?thesis by (cases "j \<in> set (readyIdx ?ts)") simp_all
  qed
  show ?thesis
  proof (rule pendingCount_less [OF l _ il ip])
    show "\<forall>j<length ?ts. status (tasks s2 ! j) = Pending \<longrightarrow> status (?ts ! j) = Pending"
      using np by blast
    show "status (tasks s2 ! i) \<noteq> Pending" using np [OF il] i by blast
  qed
qed

lemma schedulingLoop_terminates:
  "Inv1 [] (tasks s) \<Longrightarrow> \<exists>out. schedulingLoop env s = Some out"
proof (induction "pendingCount (tasks s)" arbitrary: s rule: less_induct)
  case less
  let ?d = "dispatchAll env (readyIdx (tasks s)) [] s"
  show ?case
  proof (cases "readyIdx (tasks s) = []")
    case True
    have "\<not> list_ex (\<lambda>t. status t = Running) (tasks s)"
    proof
      assume "list_ex (\<lambda>t. status t = Running) (tasks s)"
      then obtain i where "i < length (tasks s)" "status (tasks s ! i) = Running"
        by (auto simp: list_ex_iff in_set_conv_nth)
      with less.prems show False by (auto simp: Inv1_def InvM1_def)
    qed
    with True show ?thesis by (subst schedulingLoop.simps) simp
  next
    case False
    then have cond: "list_ex (\<lambda>t. status t = Pending \<or> status t = Running) (tasks s)"
      by (rule readyIdx_loop_condition)
    show ?thesis
    proof (cases "awaitAll env (fst ?d) (snd ?d)")
      case (Inl e)
      with False cond show ?thesis
        by (subst schedulingLoop.simps) (simp add: split_beta)
    next
      case (Inr s2)
      have "\<exists>out. schedulingLoop env s2 = Some out"
        using wave_pendingCount [OF False Inr] wave_Inv1 [OF less.prems Inr] by (rule less.hyps)
      with Inr False cond show ?thesis
        by (subst schedulingLoop.simps) (simp add: split_beta)
    qed
  qed
qed

lemma schedulingLoop_invariant:
  fixes env :: "'a env"
  assumes wave: "\<And>s s2. I s \<Longrightarrow> readyIdx (tasks s) \<noteq> [] \<Longrightarrow>
      awaitAll env (fst (dispatchAll env (readyIdx (tasks s)) [] s))
        (snd (dispatchAll env (readyIdx (tasks s)) [] s)) = Inr s2 \<Longrightarrow> I s2"
    and res: "schedulingLoop env s = Some (Inr s')" and init: "I s"
  shows "I s' \<and> readyIdx (tasks s') = [] \<and> \<not> list_ex (\<lambda>t. status t = Running) (tasks s')"
proof -
  let ?Q = "\<lambda>s'. I s' \<and> readyIdx (tasks s') = [] \<and> \<not> list_ex (\<lambda>t. status t = Running) (tasks s')"
  let ?P = "\<lambda>e s0 (y :: (string \<times> 'a run) + 'a run). e = env \<longrightarrow> (\<forall>s'. y = Inr s' \<longrightarrow> I s0 \<longrightarrow> ?Q s')"
  have "?P env s (Inr s')"
  proof (rule schedulingLoop.raw_induct [where P = ?P and env = env and s = s and y = "Inr s'"], goal_cases)
    case 2 show ?case by (rule res)
  next
    case prems: (1 loop e s0 y)
    note IH = prems(1) and body = prems(2)
    show ?case
    proof (intro impI allI)
      fix s' assume e: "e = env" and y: "y = Inr s'" and I0: "I s0"
      let ?d = "dispatchAll env (readyIdx (tasks s0)) [] s0"
      show "?Q s'"
      proof (cases "list_ex (\<lambda>t. status t = Pending \<or> status t = Running) (tasks s0)")
        case False
        with body y have s: "s' = s0" by simp
        have "readyIdx (tasks s0) = []"
          using False readyIdx_loop_condition [of "tasks s0"] by blast
        moreover have "\<not> list_ex (\<lambda>t. status t = Running) (tasks s0)"
          using False unfolding list_ex_iff by blast
        ultimately show ?thesis using s I0 by simp
      next
        case True
        show ?thesis
        proof (cases "readyIdx (tasks s0) = []")
          case r: True
          show ?thesis
          proof (cases "list_ex (\<lambda>t. status t = Running) (tasks s0)")
            case run: True
            with True r body have "loop e s0 = Some y" by simp
            from IH [OF this] e y I0 show ?thesis by blast
          next
            case False
            with True r body y have "s' = s0" by simp
            with r False I0 show ?thesis by simp
          qed
        next
          case r: False
          show ?thesis
          proof (cases "awaitAll env (fst ?d) (snd ?d)")
            case (Inl x)
            with True r body y e show ?thesis by (simp add: split_beta)
          next
            case (Inr s2)
            with True r body e have "loop e s2 = Some y" by (simp add: split_beta)
            moreover have "I s2" using I0 r Inr by (rule wave)
            ultimately show ?thesis using IH e y by blast
          qed
        qed
      qed
    qed
  qed
  with init show ?thesis by blast
qed

lemma depRel_Nil: "depRel [] = {}"
  by (simp add: depRel_def)

lemma depRel_Cons: "depRel (t # ts) = (set (dependencies t) \<times> {tid t}) \<union> depRel ts"
  by (auto simp: depRel_def)

lemma Inv1_initial: "\<forall>t\<in>set ts. status t = Pending \<Longrightarrow> Inv1 [] ts"
  by (auto simp: Inv1_def InvM1_def)

lemma present_graphOf:
  "(\<forall>t\<in>set ts. set (dependencies t) \<subseteq> tid ` set ts) \<longleftrightarrow>
   (\<forall>p\<in>set (graphOf ts). set (snd p) \<subseteq> fst ` set (graphOf ts))"
  by (simp add: ids_graphOf [symmetric]) (simp add: graphOf_def)

lemma running_never_returns:
  fixes env :: "'a env"
  assumes r: "readyIdx (tasks s) = []" and run: "list_ex (\<lambda>t. status t = Running) (tasks s)"
  shows "schedulingLoop env s = None"
proof (rule ccontr)
  let ?stuck = "\<lambda>s0 :: 'a run. readyIdx (tasks s0) = [] \<and> list_ex (\<lambda>t. status t = Running) (tasks s0)"
  let ?P = "\<lambda>(e :: 'a env) s0 (y :: (string \<times> 'a run) + 'a run). \<not> ?stuck s0"
  assume "schedulingLoop env s \<noteq> None"
  then obtain y where y: "schedulingLoop env s = Some y" by blast
  have "?P env s y"
  proof (rule schedulingLoop.raw_induct [where P = ?P and env = env and s = s and y = y], goal_cases)
    case 2 show ?case by (rule y)
  next
    case prems: (1 loop e s0 y0)
    show ?case
    proof
      assume st: "?stuck s0"
      then have "list_ex (\<lambda>t. status t = Pending \<or> status t = Running) (tasks s0)"
        unfolding list_ex_iff by blast
      with st prems(2) have "loop e s0 = Some y0" by simp
      from prems(1) [OF this] st show False by simp
    qed
  qed
  with r run show False by simp
qed

lemma catchBlock_ok: "failedNotifyOk env \<Longrightarrow> fst (catchBlock env i m s) = AwaitFailed None"
  by (simp add: catchBlock_def failedNotifyOk_def Let_def split_beta)

lemma resume_ok:
  assumes ok: "failedNotifyOk env" and c: "\<forall>m. c \<noteq> AwaitFailed (Some m)"
  shows "\<exists>r. fst (resume env i c s) = Inr r \<and> (\<forall>c' m. r = Some c' \<longrightarrow> c' \<noteq> AwaitFailed (Some m))"
  using c catchBlock_ok [OF ok]
  by (cases "(env, i, c, s)" rule: resume.cases) (auto simp: split_beta Let_def)

lemma awaitAll_ok:
  assumes ok: "failedNotifyOk env0"
  shows "env = env0 \<Longrightarrow> \<forall>p\<in>set fl. \<forall>m. snd p \<noteq> AwaitFailed (Some m) \<Longrightarrow>
         \<exists>s'. awaitAll env fl s = Inr s'"
proof (induction env fl s rule: awaitAll.induct)
  case (1 env fl s)
  show ?case
  proof (cases "fl = []")
    case True
    then show ?thesis by (simp add: awaitAll.simps)
  next
    case False
    define k where "k = nextUp (sched s) (length fl)"
    define r where "r = resume env (fst (fl ! k)) (snd (fl ! k)) (s\<lparr>sched := tl (sched s)\<rparr>)"
    have kl: "k < length fl" using False by (simp add: k_def nextUp_less)
    have eq: "awaitAll env fl s =
        (case fst r of Inl m \<Rightarrow> Inl (m, snd r)
         | Inr None \<Rightarrow> awaitAll env (take k fl @ drop (Suc k) fl) (snd r)
         | Inr (Some c) \<Rightarrow> awaitAll env (fl[k := (fst (fl ! k), c)]) (snd r))"
      unfolding k_def r_def using False by (subst awaitAll.simps) (simp add: Let_def)
    have "fl ! k \<in> set fl" using kl by simp
    with "1.prems"(2) have nk: "\<forall>m. snd (fl ! k) \<noteq> AwaitFailed (Some m)" by blast
    from resume_ok [OF ok nk, of "fst (fl ! k)" "s\<lparr>sched := tl (sched s)\<rparr>"] "1.prems"(1)
    obtain ro where ro: "fst r = Inr ro" and nc: "\<forall>c' m. ro = Some c' \<longrightarrow> c' \<noteq> AwaitFailed (Some m)"
      unfolding r_def by blast
    show ?thesis
    proof (cases ro)
      case None
      have "\<forall>p\<in>set (take k fl @ drop (Suc k) fl). \<forall>m. snd p \<noteq> AwaitFailed (Some m)"
        using "1.prems"(2) by (auto dest: in_set_takeD in_set_dropD)
      from "1.IH"(1) [OF False k_def r_def ro None "1.prems"(1) this] eq ro None
      show ?thesis by simp
    next
      case (Some c)
      have "\<forall>p\<in>set (fl[k := (fst (fl ! k), c)]). \<forall>m. snd p \<noteq> AwaitFailed (Some m)"
      proof
        fix p assume "p \<in> set (fl[k := (fst (fl ! k), c)])"
        then have "p = (fst (fl ! k), c) \<or> p \<in> set fl" by (auto dest: set_update_subset_insert [THEN subsetD])
        with nc Some "1.prems"(2) show "\<forall>m. snd p \<noteq> AwaitFailed (Some m)" by auto
      qed
      from "1.IH"(2) [OF False k_def r_def ro Some "1.prems"(1) this] eq ro Some
      show ?thesis by simp
    qed
  qed
qed

lemma dispatchAll_conts:
  "\<forall>p\<in>set fl. \<forall>m. snd p \<noteq> AwaitFailed (Some m) \<Longrightarrow>
   \<forall>p\<in>set (fst (dispatchAll env is fl s)). \<forall>m. snd p \<noteq> AwaitFailed (Some m)"
proof (induction "is" arbitrary: fl s)
  case Nil
  then show ?case by simp
next
  case (Cons i "is")
  obtain out where out: "fst (startTask env i s) = AwaitStart out"
    using startTask_fields(5) by blast
  have "\<forall>p\<in>set (fl @ [(i, fst (startTask env i s))]). \<forall>m. snd p \<noteq> AwaitFailed (Some m)"
    using Cons.prems out by auto
  from Cons.IH [OF this, of "snd (startTask env i s)"] show ?case by (simp add: split_beta)
qed

lemma schedulingLoop_no_abort:
  fixes env :: "'a env"
  assumes ok: "failedNotifyOk env" and res: "schedulingLoop env s = Some out"
  shows "\<exists>s'. out = Inr s'"
proof -
  let ?P = "\<lambda>e (s0 :: 'a run) (y :: (string \<times> 'a run) + 'a run). e = env \<longrightarrow> (\<exists>s'. y = Inr s')"
  have "?P env s out"
  proof (rule schedulingLoop.raw_induct [where P = ?P and env = env and s = s and y = out], goal_cases)
    case 2 show ?case by (rule res)
  next
    case prems: (1 loop e s0 y)
    note IH = prems(1) and body = prems(2)
    show ?case
    proof
      assume e: "e = env"
      let ?d = "dispatchAll env (readyIdx (tasks s0)) [] s0"
      have "\<forall>p\<in>set (fst ?d). \<forall>m. snd p \<noteq> AwaitFailed (Some m)"
        by (rule dispatchAll_conts) simp
      with awaitAll_ok [OF ok refl] obtain s2 where s2: "awaitAll env (fst ?d) (snd ?d) = Inr s2"
        by blast
      show "\<exists>s'. y = Inr s'"
      proof (cases "list_ex (\<lambda>t. status t = Pending \<or> status t = Running) (tasks s0)")
        case False
        with body show ?thesis by auto
      next
        case True
        show ?thesis
        proof (cases "readyIdx (tasks s0) = []")
          case r: True
          show ?thesis
          proof (cases "list_ex (\<lambda>t. status t = Running) (tasks s0)")
            case run: True
            with True r body have "loop e s0 = Some y" by simp
            from IH [OF this] e show ?thesis by blast
          next
            case False
            with True r body show ?thesis by auto
          qed
        next
          case r: False
          with True body e s2 have "loop e s2 = Some y" by (simp add: split_beta)
          from IH [OF this] e show ?thesis by blast
        qed
      qed
    qed
  qed
  then show ?thesis by simp
qed


text \<open>
  Claim C9 says that on every acyclic collection whose dependency ids are all present the
  loop ends, with no task left pending or running. A collection that holds a running task
  is such a collection (here a single task without dependencies), and on it the loop does
  not end: nothing is ready, and no callback exists that would ever change the running
  task, so lines 43-45 repeat. And on a chain of three pending tasks with a notifier that
  fails on every message, the run ends with the notifier's error while \<open>b\<close> and \<open>c\<close>
  are still pending.
\<close>

theorem acyclic_run_counterexample:
  "depRel [mkTask ''a'' [] Running] = {} \<and>
   executeTaskDAG quietEnv [] [mkTask ''a'' [] Running] = None \<and>
   executeTaskDAG (larkEnv False) [] chain3 =
     Some (Inl (''lark down'',
       \<lparr>tasks = [(mkTask ''a'' [] Pending)\<lparr>status := Failed, error := Some ''lark down''\<rparr>,
                 mkTask ''b'' [''a''] Pending, mkTask ''c'' [''b''] Pending],
        results = Map.empty,
        log = [Sent ''chat'' (MsgStart ''a'' []), Sent ''chat'' (MsgFailed ''a'' ''lark down'')],
        sched = []\<rparr>))"
proof (intro conjI)
  show "depRel [mkTask ''a'' [] Running] = {}"
    by (simp add: depRel_Cons depRel_Nil mkTask_def)
  have "schedulingLoop quietEnv (initRun [] [mkTask ''a'' [] Running]) = None"
    by (rule running_never_returns)
       (simp_all add: initRun_def readyIdx_def isReady_def mkTask_def)
  then show "executeTaskDAG quietEnv [] [mkTask ''a'' [] Running] = None"
    by (simp add: executeTaskDAG_def)
  show "executeTaskDAG (larkEnv False) [] chain3 =
     Some (Inl (''lark down'',
       \<lparr>tasks = [(mkTask ''a'' [] Pending)\<lparr>status := Failed, error := Some ''lark down''\<rparr>,
                 mkTask ''b'' [''a''] Pending, mkTask ''c'' [''b''] Pending],
        results = Map.empty,
        log = [Sent ''chat'' (MsgStart ''a'' []), Sent ''chat'' (MsgFailed ''a'' ''lark down'')],
        sched = []\<rparr>))"
    by (simp add: run_simps larkEnv_def chain3_def mkTask_def upt_rec [of 0] upt_rec [of 1]
        upt_rec [of 2] upt_rec [of 3])
qed

text \<open>
  Claim C9, for collections of pending tasks. Let every task of the collection be pending,
  let the dependency relation be acyclic, and let every dependency id be the id of a task
  of the collection. Then, whatever the agents and the notifier return or throw and in
  whatever order the callbacks of a wave are resumed, \<open>executeTaskDAG\<close> ends (its value is
  not \<open>None\<close>). When it returns normally every task is completed or failed: none is
  pending or running. It returns normally whenever no task-failed notification fails.
  For the loop in any state: a wave that is dispatched and returns leaves strictly fewer
  pending tasks than it found.
\<close>

theorem acyclic_run_terminates:
  assumes "\<forall>t\<in>set ts. status t = Pending"
    and "acyclic (depRel ts)"
    and "\<forall>t\<in>set ts. set (dependencies t) \<subseteq> tid ` set ts"
  shows "(\<exists>out. executeTaskDAG env schedule ts = Some out \<and>
           (\<forall>s'. out = Inr s' \<longrightarrow>
              (\<forall>t\<in>set (tasks s'). status t = Completed \<or> status t = Failed)) \<and>
           (failedNotifyOk env \<longrightarrow> (\<exists>s'. out = Inr s'))) \<and>
         (\<forall>s s2. readyIdx (tasks s) \<noteq> [] \<and>
            awaitAll env (fst (dispatchAll env (readyIdx (tasks s)) [] s))
              (snd (dispatchAll env (readyIdx (tasks s)) [] s)) = Inr s2 \<longrightarrow>
            pendingCount (tasks s2) < pendingCount (tasks s))"
proof (intro conjI allI impI)
  let ?s0 = "initRun schedule ts"
  have i0: "Inv1 [] (tasks ?s0)" using assms(1) by (simp add: initRun_def Inv1_initial)
  then obtain out where out: "schedulingLoop env ?s0 = Some out"
    using schedulingLoop_terminates by blast
  have fin: "\<forall>t\<in>set (tasks s'). status t = Completed \<or> status t = Failed" if "out = Inr s'" for s'
  proof -
    let ?I = "\<lambda>s. Inv1 [] (tasks s) \<and> graphOf (tasks s) = graphOf ts"
    have "?I s' \<and> readyIdx (tasks s') = [] \<and> \<not> list_ex (\<lambda>t. status t = Running) (tasks s')"
    proof (rule schedulingLoop_invariant [where I = ?I and env = env and s = ?s0])
      show "schedulingLoop env ?s0 = Some (Inr s')" using out that by simp
      show "?I ?s0" using i0 by (simp add: initRun_def)
      fix s s2
      assume "?I s" and "readyIdx (tasks s) \<noteq> []"
        and "awaitAll env (fst (dispatchAll env (readyIdx (tasks s)) [] s))
              (snd (dispatchAll env (readyIdx (tasks s)) [] s)) = Inr s2"
      then show "?I s2" using wave_Inv1 wave_graphOf by metis
    qed
    then have inv: "Inv1 [] (tasks s')" and g: "graphOf (tasks s') = graphOf ts"
      and r: "readyIdx (tasks s') = []" by simp_all
    have ac: "acyclic (depRel (tasks s'))" using assms(2) by (simp add: depRel_graphOf g)
    have pr: "\<forall>t\<in>set (tasks s'). set (dependencies t) \<subseteq> tid ` set (tasks s')"
      using assms(3) unfolding present_graphOf g .
    show ?thesis using inv r ac pr by (rule all_terminal_when_stuck)
  qed
  have na: "\<exists>s'. out = Inr s'" if "failedNotifyOk env"
    using that out by (rule schedulingLoop_no_abort)
  show "\<exists>out. executeTaskDAG env schedule ts = Some out \<and>
           (\<forall>s'. out = Inr s' \<longrightarrow>
              (\<forall>t\<in>set (tasks s'). status t = Completed \<or> status t = Failed)) \<and>
           (failedNotifyOk env \<longrightarrow> (\<exists>s'. out = Inr s'))"
    using out fin na unfolding executeTaskDAG_def by blast
next
  fix s s2
  assume "readyIdx (tasks s) \<noteq> [] \<and>
            awaitAll env (fst (dispatchAll env (readyIdx (tasks s)) [] s))
              (snd (dispatchAll env (readyIdx (tasks s)) [] s)) = Inr s2"
  then show "pendingCount (tasks s2) < pendingCount (tasks s)"
    using wave_pendingCount by blast
qed

theorem acyclic_run_terminates_witness:
  "failedNotifyOk quietEnv \<and>
   (\<exists>s'. executeTaskDAG quietEnv [] twoTasks = Some (Inr s') \<and>
      (\<forall>t\<in>set (tasks s'). status t = Completed \<or> status t = Failed))"
proof -
  have p: "\<forall>t\<in>set twoTasks. status t = Pending" by (simp add: twoTasks_def mkTask_def)
  have "depRel twoTasks = {(''a'', ''b'')}"
    by (simp add: depRel_Nil depRel_Cons twoTasks_def mkTask_def)
  moreover have "acyclic ({} :: (string \<times> string) set)" by (simp add: acyclic_def)
  ultimately have a: "acyclic (depRel twoTasks)" by (simp add: acyclic_insert)
  have d: "\<forall>t\<in>set twoTasks. set (dependencies t) \<subseteq> tid ` set twoTasks"
    by (simp add: twoTasks_def mkTask_def)
  have ok: "failedNotifyOk quietEnv"
    by (simp add: failedNotifyOk_def notifyTaskFailed_def notify_def quietEnv_def)
  from acyclic_run_terminates [OF p a d, of quietEnv "[]"] ok show ?thesis by blast
qed

section \<open>Failed tasks and their dependents\<close>

lemma resume_map_cases [consumes 3, case_names exec catch complete finished propagate]:
  assumes d: "distinct (map fst fl)" and k: "k < length fl"
    and res: "resume env (fst (fl ! k)) (snd (fl ! k)) s = (Inr r, s')"
  obtains
    out where "map_of fl (fst (fl ! k)) = Some (AwaitStart None)"
      "map_of (case r of None \<Rightarrow> take k fl @ drop (Suc k) fl | Some c \<Rightarrow> fl[k := (fst (fl ! k), c)])
         = (map_of fl)(fst (fl ! k) \<mapsto> AwaitExec out)"
      "tasks s' = tasks s" "results s' = results s"
      "runAgents (log s') = insert (tid (tasks s ! fst (fl ! k))) (runAgents (log s))"
      "out = agent env (log s) (tasks s ! fst (fl ! k))
               (map (\<lambda>d. (d, results s d)) (dependencies (tasks s ! fst (fl ! k))))"
  | m out c where "map_of fl (fst (fl ! k)) = Some c"
      "c = AwaitStart (Some m) \<or> c = AwaitExec (Inl m) \<or> c = AwaitComplete (Some m)"
      "map_of (case r of None \<Rightarrow> take k fl @ drop (Suc k) fl | Some c \<Rightarrow> fl[k := (fst (fl ! k), c)])
         = (map_of fl)(fst (fl ! k) \<mapsto> AwaitFailed out)"
      "tasks s' = (tasks s)[fst (fl ! k) :=
          (tasks s ! fst (fl ! k))\<lparr>status := Failed, error := Some m\<rparr>]"
      "results s' = results s" "runAgents (log s') = runAgents (log s)"
  | v out where "map_of fl (fst (fl ! k)) = Some (AwaitExec (Inr v))"
      "map_of (case r of None \<Rightarrow> take k fl @ drop (Suc k) fl | Some c \<Rightarrow> fl[k := (fst (fl ! k), c)])
         = (map_of fl)(fst (fl ! k) \<mapsto> AwaitComplete out)"
      "tasks s' = (tasks s)[fst (fl ! k) :=
          (tasks s ! fst (fl ! k))\<lparr>status := Completed, result := Some v\<rparr>]"
      "results s' = (results s)(tid (tasks s ! fst (fl ! k)) \<mapsto> v)"
      "runAgents (log s') = runAgents (log s)"
      "\<exists>t s0. out = fst (notifyTaskComplete env t s0)"
  | "map_of fl (fst (fl ! k)) = Some (AwaitComplete None)"
      "map_of (case r of None \<Rightarrow> take k fl @ drop (Suc k) fl | Some c \<Rightarrow> fl[k := (fst (fl ! k), c)])
         = (map_of fl)(fst (fl ! k) := None)"
      "s' = s"
  | "map_of fl (fst (fl ! k)) = Some (AwaitFailed None)"
      "map_of (case r of None \<Rightarrow> take k fl @ drop (Suc k) fl | Some c \<Rightarrow> fl[k := (fst (fl ! k), c)])
         = (map_of fl)(fst (fl ! k) := None)"
      "tasks s' = markDependentTasksAsFailed (tid (tasks s ! fst (fl ! k))) (tasks s)"
      "results s' = results s" "log s' = log s"
proof -
  let ?i = "fst (fl ! k)"
  have mi: "map_of fl ?i = Some (snd (fl ! k))" using d k by (rule map_of_nth)
  have upd: "map_of (fl[k := (?i, c)]) = (map_of fl)(?i \<mapsto> c)" for c
    using d k by (rule map_of_update)
  have rem: "map_of (take k fl @ drop (Suc k) fl) = (map_of fl)(?i := None)"
    using d k by (rule map_of_remove)
  from res show ?thesis
  proof (cases rule: resume_cases)
    case (exec out)
    show ?thesis
      by (rule that(1) [of out]) (use exec mi upd in simp_all)
  next
    case (catch m out)
    show ?thesis
      by (rule that(2) [of "snd (fl ! k)" m out]) (use catch mi upd in simp_all)
  next
    case (complete v out)
    show ?thesis
      by (rule that(3) [of v out]) (use complete mi upd in simp_all)
  next
    case finished
    show ?thesis
      by (rule that(4)) (use finished mi rem in simp_all)
  next
    case propagate
    show ?thesis
      by (rule that(5)) (use propagate mi rem in simp_all)
  next
    case (abort m)
    then show ?thesis by simp
  qed
qed

lemma depsSettled_update:
  assumes s: "depsSettled m ts k" and i: "i < length ts"
    and t: "tid t = tid (ts ! i)" "dependencies t = dependencies (ts ! i)"
    and ni: "m i \<noteq> None \<or> status (ts ! i) \<noteq> Completed"
  shows "depsSettled (m(i \<mapsto> c)) (ts[i := t]) k"
  unfolding depsSettled_def
proof
  fix d assume "d \<in> set (dependencies (ts[i := t] ! k))"
  then have "d \<in> set (dependencies (ts ! k))"
    using t i by (cases "k = i") (simp_all add: list_update_beyond)
  with s obtain j where j: "j < length ts" "tid (ts ! j) = d" "status (ts ! j) = Completed" "m j = None"
    unfolding depsSettled_def by blast
  with ni have "j \<noteq> i" by auto
  with j show "\<exists>j<length (ts[i := t]). tid (ts[i := t] ! j) = d \<and>
      status (ts[i := t] ! j) = Completed \<and> (m(i \<mapsto> c)) j = None"
    by (intro exI [of _ j]) simp
qed

lemma InvM2_update:
  assumes inv: "InvM2 m ts A" and i: "i < length ts"
    and t: "tid t = tid (ts ! i)" "dependencies t = dependencies (ts ! i)"
    and si: "depsSettled m ts i"
    and ni: "m i \<noteq> None \<or> status (ts ! i) \<noteq> Completed"
  shows "InvM2 (m(i \<mapsto> c)) (ts[i := t]) A"
  unfolding InvM2_def
proof (intro allI impI)
  fix k assume k: "k < length (ts[i := t])"
    and p: "status (ts[i := t] ! k) = Running \<or> status (ts[i := t] ! k) = Completed \<or>
            (m(i \<mapsto> c)) k \<noteq> None \<or> tid (ts[i := t] ! k) \<in> A"
  have "depsSettled m ts k"
  proof (cases "k = i")
    case True
    with si show ?thesis by simp
  next
    case False
    with p k have "status (ts ! k) = Running \<or> status (ts ! k) = Completed \<or>
            m k \<noteq> None \<or> tid (ts ! k) \<in> A" by simp
    moreover have "k < length ts" using k by simp
    ultimately show ?thesis using inv unfolding InvM2_def by blast
  qed
  then show "depsSettled (m(i \<mapsto> c)) (ts[i := t]) k"
    using i t ni by (rule depsSettled_update)
qed

lemma InvM2_retag:
  assumes inv: "InvM2 m ts A" and i: "i < length ts" and mi: "m i \<noteq> None"
  shows "InvM2 (m(i \<mapsto> c)) ts A"
proof -
  have "depsSettled m ts i" using inv i mi unfolding InvM2_def by blast
  then have "InvM2 (m(i \<mapsto> c)) (ts[i := ts ! i]) A"
    by (intro InvM2_update [OF inv i]) (use mi in simp_all)
  then show ?thesis by simp
qed

lemma InvM2_log:
  assumes inv: "InvM2 m ts A" and i: "i < length ts" and mi: "m i \<noteq> None"
    and dist: "distinct (map tid ts)"
  shows "InvM2 m ts (insert (tid (ts ! i)) A)"
  unfolding InvM2_def
proof (intro allI impI)
  fix k assume k: "k < length ts"
    and p: "status (ts ! k) = Running \<or> status (ts ! k) = Completed \<or> m k \<noteq> None \<or>
            tid (ts ! k) \<in> insert (tid (ts ! i)) A"
  show "depsSettled m ts k"
  proof (cases "tid (ts ! k) = tid (ts ! i)")
    case True
    with dist k i have "k = i" by (simp add: distinct_conv_nth) (metis length_map nth_map)
    with inv i mi show ?thesis unfolding InvM2_def by blast
  next
    case False
    with p inv k show ?thesis unfolding InvM2_def by auto
  qed
qed

lemma depsSettled_remove: "depsSettled m ts k \<Longrightarrow> depsSettled (m(i := None)) ts k"
  unfolding depsSettled_def by (metis fun_upd_apply)

lemma InvM2_finished: "InvM2 m ts A \<Longrightarrow> InvM2 (m(i := None)) ts A"
  unfolding InvM2_def by (auto intro: depsSettled_remove split: if_splits)

lemma depsSettled_propagate:
  assumes "depsSettled m ts k" and "k < length ts"
  shows "depsSettled m (markDependentTasksAsFailed f ts) k"
  unfolding depsSettled_def
proof
  let ?ts' = "markDependentTasksAsFailed f ts"
  fix d assume "d \<in> set (dependencies (?ts' ! k))"
  moreover have "dependencies (?ts' ! k) = dependencies (ts ! k)"
    using markDependentTasksAsFailed_nth [OF assms(2), of f] by auto
  ultimately obtain j where j: "j < length ts" "tid (ts ! j) = d" "status (ts ! j) = Completed"
      "m j = None"
    using assms(1) unfolding depsSettled_def by auto
  have "?ts' ! j = ts ! j" using markDependentTasksAsFailed_nth [OF j(1), of f] j(3) by auto
  with j show "\<exists>j<length ?ts'. tid (?ts' ! j) = d \<and> status (?ts' ! j) = Completed \<and> m j = None"
    by (intro exI [of _ j]) simp
qed

lemma InvM2_propagate:
  assumes inv: "InvM2 m ts A"
  shows "InvM2 (m(i := None)) (markDependentTasksAsFailed f ts) A"
  unfolding InvM2_def
proof (intro allI impI)
  let ?ts' = "markDependentTasksAsFailed f ts"
  fix k assume k: "k < length ?ts'"
    and p: "status (?ts' ! k) = Running \<or> status (?ts' ! k) = Completed \<or>
            (m(i := None)) k \<noteq> None \<or> tid (?ts' ! k) \<in> A"
  from k have kl: "k < length ts" by simp
  note n = markDependentTasksAsFailed_nth [OF kl, of f]
  from p n have "status (ts ! k) = Running \<or> status (ts ! k) = Completed \<or>
            m k \<noteq> None \<or> tid (ts ! k) \<in> A"
    by (cases "k = i") auto
  with inv kl have "depsSettled m ts k" unfolding InvM2_def by blast
  then have "depsSettled m ?ts' k" using kl by (rule depsSettled_propagate)
  then show "depsSettled (m(i := None)) ?ts' k" by (rule depsSettled_remove)
qed

lemma Inv1_index: "Inv1 fl ts \<Longrightarrow> map_of fl i = Some c \<Longrightarrow> i < length ts"
  unfolding Inv1_def InvM1_def by blast

lemma distinct_tid_graphOf: "distinct (map tid ts) \<longleftrightarrow> distinct (map fst (graphOf ts))"
  by (simp add: graphOf_def comp_def)

lemma Inv2_resume:
  assumes i1: "Inv1 fl (tasks s)" and i2: "InvM2 (map_of fl) (tasks s) (runAgents (log s))"
    and dist: "distinct (map tid (tasks s))" and k: "k < length fl"
    and res: "resume env (fst (fl ! k)) (snd (fl ! k)) s = (Inr r, s')"
  shows "InvM2 (map_of (case r of None \<Rightarrow> take k fl @ drop (Suc k) fl
                          | Some c \<Rightarrow> fl[k := (fst (fl ! k), c)]))
           (tasks s') (runAgents (log s'))"
proof -
  let ?i = "fst (fl ! k)" and ?m = "map_of fl" and ?ts = "tasks s"
  from i1 have d: "distinct (map fst fl)" by (simp add: Inv1_def)
  have mi: "?m ?i = Some (snd (fl ! k))" using d k by (rule map_of_nth)
  then have mn: "?m ?i \<noteq> None" by simp
  have il: "?i < length ?ts" using i1 mi by (rule Inv1_index)
  have si: "depsSettled ?m ?ts ?i" using i2 il mn unfolding InvM2_def by blast
  from d k res show ?thesis
  proof (cases rule: resume_map_cases)
    case (exec out)
    have "InvM2 (?m(?i \<mapsto> AwaitExec out)) ?ts (runAgents (log s))"
      using i2 il mn by (rule InvM2_retag)
    then have "InvM2 (?m(?i \<mapsto> AwaitExec out)) ?ts (insert (tid (?ts ! ?i)) (runAgents (log s)))"
      using il _ dist by (rule InvM2_log) simp
    with exec show ?thesis by simp
  next
    case (catch m out c)
    have "InvM2 (?m(?i \<mapsto> AwaitFailed out))
            (?ts[?i := (?ts ! ?i)\<lparr>status := Failed, error := Some m\<rparr>]) (runAgents (log s))"
      by (rule InvM2_update [OF i2 il _ _ si]) (use mn in simp_all)
    with catch show ?thesis by simp
  next
    case (complete v out)
    have "InvM2 (?m(?i \<mapsto> AwaitComplete out))
            (?ts[?i := (?ts ! ?i)\<lparr>status := Completed, result := Some v\<rparr>]) (runAgents (log s))"
      by (rule InvM2_update [OF i2 il _ _ si]) (use mn in simp_all)
    with complete show ?thesis by simp
  next
    case finished
    with InvM2_finished [OF i2, of ?i] show ?thesis by simp
  next
    case propagate
    with InvM2_propagate [OF i2, of ?i "tid (?ts ! ?i)"] show ?thesis by simp
  qed
qed

lemma startTask_step:
  assumes i1: "Inv1 fl (tasks s)" and il: "i < length (tasks s)"
    and ip: "status (tasks s ! i) = Pending"
  shows "Inv1 (fl @ [(i, fst (startTask env i s))]) (tasks (snd (startTask env i s)))"
    and "\<exists>out. map_of (fl @ [(i, fst (startTask env i s))]) = (map_of fl)(i \<mapsto> AwaitStart out)"
    and "map_of fl i = None"
proof -
  obtain out where out: "fst (startTask env i s) = AwaitStart out"
    using startTask_fields(5) by blast
  from i1 have d: "distinct (map fst fl)" and M: "InvM1 (map_of fl) (tasks s)"
    by (simp_all add: Inv1_def)
  have nf: "i \<notin> fst ` set fl" using Inv1_not_Pending [OF i1] ip by blast
  then show "map_of fl i = None" by (simp add: map_of_eq_None_iff)
  have mo: "map_of (fl @ [(i, AwaitStart out)]) = (map_of fl)(i \<mapsto> AwaitStart out)"
    using nf by (rule map_of_snoc)
  then show "\<exists>out. map_of (fl @ [(i, fst (startTask env i s))]) = (map_of fl)(i \<mapsto> AwaitStart out)"
    unfolding out by blast
  have "InvM1 ((map_of fl)(i \<mapsto> AwaitStart out))
          ((tasks s)[i := (tasks s ! i)\<lparr>status := Running\<rparr>])"
    using M il by (rule InvM1_update) (use ip in simp_all)
  moreover have "distinct (map fst (fl @ [(i, AwaitStart out)]))" using d nf by simp
  ultimately show "Inv1 (fl @ [(i, fst (startTask env i s))]) (tasks (snd (startTask env i s)))"
    unfolding out startTask_fields using mo by (simp only: Inv1_def simp_thms)
qed

lemma Inv2_dispatchAll:
  "Inv1 fl (tasks s) \<Longrightarrow> InvM2 (map_of fl) (tasks s) (runAgents (log s)) \<Longrightarrow> distinct is \<Longrightarrow>
   (\<forall>i\<in>set is. i < length (tasks s) \<and> status (tasks s ! i) = Pending \<and>
        depsSettled (map_of fl) (tasks s) i) \<Longrightarrow>
   InvM2 (map_of (fst (dispatchAll env is fl s))) (tasks (snd (dispatchAll env is fl s)))
     (runAgents (log (snd (dispatchAll env is fl s))))"
proof (induction "is" arbitrary: fl s)
  case Nil
  then show ?case by simp
next
  case (Cons i "is")
  define s1 where "s1 = snd (startTask env i s)"
  define fl1 where "fl1 = fl @ [(i, fst (startTask env i s))]"
  have eq: "dispatchAll env (i # is) fl s = dispatchAll env is fl1 s1"
    by (simp add: split_beta s1_def fl1_def)
  from Cons.prems have il: "i < length (tasks s)" and ip: "status (tasks s ! i) = Pending"
    and si: "depsSettled (map_of fl) (tasks s) i"
    and ni: "i \<notin> set is" and dis: "distinct is" by simp_all
  note st1 = startTask_step(1) [OF Cons.prems(1) il ip, of env, folded fl1_def s1_def]
  note st2 = startTask_step(2) [OF Cons.prems(1) il ip, of env, folded fl1_def]
  from st2 obtain out where mo: "map_of fl1 = (map_of fl)(i \<mapsto> AwaitStart out)" by blast
  have t1: "tasks s1 = (tasks s)[i := (tasks s ! i)\<lparr>status := Running\<rparr>]"
    by (simp add: s1_def startTask_fields)
  have l1: "runAgents (log s1) = runAgents (log s)" by (simp add: s1_def startTask_fields)
  have np: "map_of fl i \<noteq> None \<or> status (tasks s ! i) \<noteq> Completed" using ip by simp
  have inv2: "InvM2 (map_of fl1) (tasks s1) (runAgents (log s1))"
    unfolding mo t1 l1 by (rule InvM2_update [OF Cons.prems(2) il _ _ si np]) simp_all
  have rest: "\<forall>j\<in>set is. j < length (tasks s1) \<and> status (tasks s1 ! j) = Pending \<and>
        depsSettled (map_of fl1) (tasks s1) j"
  proof
    fix j assume j: "j \<in> set is"
    with ni have ji: "j \<noteq> i" by blast
    from j Cons.prems(4) have a: "j < length (tasks s)" "status (tasks s ! j) = Pending"
      "depsSettled (map_of fl) (tasks s) j" by simp_all
    have "depsSettled (map_of fl1) (tasks s1) j"
      unfolding mo t1 using a(3) il _ _ np by (rule depsSettled_update) simp_all
    with a ji show "j < length (tasks s1) \<and> status (tasks s1 ! j) = Pending \<and>
        depsSettled (map_of fl1) (tasks s1) j" by (simp add: t1)
  qed
  show ?case unfolding eq using st1 inv2 dis rest by (rule Cons.IH)
qed

lemma ready_depsSettled:
  assumes "i \<in> set (readyIdx ts)"
  shows "depsSettled Map.empty ts i"
  unfolding depsSettled_def
proof
  fix d assume "d \<in> set (dependencies (ts ! i))"
  with assms have "depDone ts d" by (simp add: readyIdx_mem isReady_depDone)
  then show "\<exists>j<length ts. tid (ts ! j) = d \<and> status (ts ! j) = Completed \<and> Map.empty j = None"
    unfolding depDone_def by auto
qed

lemma wave_Inv2:
  assumes inv: "Inv2 [] s"
    and aw: "awaitAll env (fst (dispatchAll env (readyIdx (tasks s)) [] s))
           (snd (dispatchAll env (readyIdx (tasks s)) [] s)) = Inr s2"
  shows "Inv2 [] s2"
proof -
  let ?d = "dispatchAll env (readyIdx (tasks s)) [] s"
  from inv have i1: "Inv1 [] (tasks s)" and i2: "InvM2 (map_of []) (tasks s) (runAgents (log s))"
    and dist: "distinct (map tid (tasks s))" by (simp_all add: Inv2_def)
  have r: "\<forall>i\<in>set (readyIdx (tasks s)). i < length (tasks s) \<and> status (tasks s ! i) = Pending \<and>
        depsSettled (map_of []) (tasks s) i"
    using readyIdx_pending [of "tasks s"] ready_depsSettled [of _ "tasks s"] by simp
  have a: "Inv1 (fst ?d) (tasks (snd ?d))"
    using i1 distinct_readyIdx readyIdx_pending by (rule Inv1_dispatchAll)
  have b: "InvM2 (map_of (fst ?d)) (tasks (snd ?d)) (runAgents (log (snd ?d)))"
    using i1 i2 distinct_readyIdx r by (rule Inv2_dispatchAll)
  have c: "distinct (map tid (tasks (snd ?d)))"
    using dist by (simp add: distinct_tid_graphOf dispatchAll_graphOf)
  have start: "Inv2 (fst ?d) (snd ?d)" using a b c by (simp add: Inv2_def)
  show ?thesis
  proof (rule awaitAll_invariant [where I = Inv2 and env = env, OF _ _ start aw])
    show "\<And>fl s x. Inv2 fl (s\<lparr>sched := x\<rparr>) = Inv2 fl s" by (simp add: Inv2_def)
    fix fl s0 k r s'
    assume I: "Inv2 fl s0" and k: "k < length fl"
      and res: "resume env (fst (fl ! k)) (snd (fl ! k)) s0 = (Inr r, s')"
    let ?fl' = "case r of None \<Rightarrow> take k fl @ drop (Suc k) fl
                | Some c \<Rightarrow> fl[k := (fst (fl ! k), c)]"
    from I have j1: "Inv1 fl (tasks s0)"
      and j2: "InvM2 (map_of fl) (tasks s0) (runAgents (log s0))"
      and jd: "distinct (map tid (tasks s0))" by (simp_all add: Inv2_def)
    have "Inv1 ?fl' (tasks s')" using j1 k res by (rule Inv1_resume)
    moreover have "InvM2 (map_of ?fl') (tasks s') (runAgents (log s'))"
      using j1 j2 jd k res by (rule Inv2_resume)
    moreover have "graphOf (tasks s') = graphOf (tasks s0)"
      using resume_graphOf [of env "fst (fl ! k)" "snd (fl ! k)" s0] res by simp
    then have "distinct (map tid (tasks s'))" using jd by (simp add: distinct_tid_graphOf)
    ultimately show "Inv2 ?fl' s'" by (simp add: Inv2_def)
  qed
qed

lemma distinct_tid_eq:
  "distinct (map tid ts) \<Longrightarrow> i < length ts \<Longrightarrow> j < length ts \<Longrightarrow>
   tid (ts ! i) = tid (ts ! j) \<Longrightarrow> i = j"
  by (metis distinct_conv_nth length_map nth_map)

lemma failed_dependents_final:
  assumes inv: "Inv2 [] s'" and norun: "\<not> list_ex (\<lambda>t. status t = Running) (tasks s')"
    and a: "a < length (tasks s')" "status (tasks s' ! a) = Failed"
    and tr: "(tid (tasks s' ! a), x) \<in> (depRel (tasks s'))\<^sup>+"
  shows "\<forall>k<length (tasks s'). tid (tasks s' ! k) = x \<longrightarrow>
           status (tasks s' ! k) = Failed \<and> x \<notin> runAgents (log s')"
proof -
  let ?ts = "tasks s'"
  from inv have M1: "InvM1 Map.empty ?ts" and M2: "InvM2 Map.empty ?ts (runAgents (log s'))"
    and dist: "distinct (map tid ?ts)" by (simp_all add: Inv2_def Inv1_def)
  have edge: "status (?ts ! k) = Failed \<and> y \<notin> runAgents (log s')"
    if j: "j < length ?ts" "status (?ts ! j) = Failed"
      and e: "(tid (?ts ! j), y) \<in> depRel ?ts" and k: "k < length ?ts" "tid (?ts ! k) = y"
    for j y k
  proof -
    from e obtain t where t: "t \<in> set ?ts" "tid t = y" "tid (?ts ! j) \<in> set (dependencies t)"
      unfolding depRel_def by blast
    then obtain k' where k': "k' < length ?ts" "?ts ! k' = t" by (auto simp: in_set_conv_nth)
    with t k dist have "k' = k" by (intro distinct_tid_eq [of ?ts]) simp_all
    with k' t have dep: "tid (?ts ! j) \<in> set (dependencies (?ts ! k))" by simp
    then have "dependsOn ?ts k j" using j k by (simp add: dependsOn_def)
    with M1 j have np: "status (?ts ! k) \<noteq> Pending" unfolding InvM1_def by auto
    have nr: "status (?ts ! k) \<noteq> Running"
      using norun k(1) unfolding list_ex_iff by (metis nth_mem)
    have ns: "\<not> depsSettled Map.empty ?ts k"
    proof
      assume "depsSettled Map.empty ?ts k"
      with dep obtain j' where j': "j' < length ?ts" "tid (?ts ! j') = tid (?ts ! j)"
          "status (?ts ! j') = Completed"
        unfolding depsSettled_def by blast
      with dist j have "j' = j" by (intro distinct_tid_eq [of ?ts]) simp_all
      with j' j show False by simp
    qed
    with M2 k have "status (?ts ! k) \<noteq> Completed" "y \<notin> runAgents (log s')"
      unfolding InvM2_def by blast+
    with np nr show ?thesis by (cases "status (?ts ! k)") auto
  qed
  from tr show ?thesis
  proof (induction rule: trancl_induct)
    case (base y)
    then show ?case using edge [OF a] by blast
  next
    case (step y z)
    show ?case
    proof (intro allI impI)
      fix k assume k: "k < length ?ts" "tid (?ts ! k) = z"
      from step.hyps(1) have "y \<in> snd ` (depRel ?ts)"
        by (metis trancl.cases image_eqI snd_conv)
      then obtain t' where "t' \<in> set ?ts" "tid t' = y" unfolding depRel_def by auto
      then obtain j where j: "j < length ?ts" "tid (?ts ! j) = y" by (auto simp: in_set_conv_nth)
      with step.IH have "status (?ts ! j) = Failed" by blast
      with j step.hyps(2) k show "status (?ts ! k) = Failed \<and> z \<notin> runAgents (log s')"
        using edge by blast
    qed
  qed
qed

lemma Inv2_initial:
  "\<forall>t\<in>set ts. status t = Pending \<Longrightarrow> distinct (map tid ts) \<Longrightarrow> Inv2 [] (initRun schedule ts)"
  by (auto simp: Inv2_def initRun_def Inv1_initial InvM2_def runAgents_def)

text \<open>
  Claim C4 says that in every run in which a task ends failed, the tasks that depend on
  it end failed. Here the agent of \<open>a\<close> throws, \<open>a\<close> is marked failed, and the task-failed
  notification of line 75 throws in turn: line 80 is not reached, nothing is propagated,
  and the run ends with the notifier's error while \<open>b\<close>, which depends on \<open>a\<close>, is still
  pending.
\<close>

theorem failed_notification_counterexample:
  "executeTaskDAG (boomEnv True) [] twoTasks =
     Some (Inl (''lark down'',
       \<lparr>tasks = [(mkTask ''a'' [] Pending)\<lparr>status := Failed, error := Some ''boom''\<rparr>,
                 mkTask ''b'' [''a''] Pending],
        results = Map.empty,
        log = [Sent ''chat'' (MsgStart ''a'' []), RunAgent ''a'',
               Sent ''chat'' (MsgFailed ''a'' ''boom'')],
        sched = []\<rparr>))"
  by (simp add: run_simps boomEnv_def twoTasks_def mkTask_def upt_0_2)

text \<open>
  Claim C4, for the runs that return. Let the collection be all pending with distinct ids,
  and let \<open>executeTaskDAG\<close> return normally. If the task at \<open>a\<close> ends failed and the task
  at \<open>b\<close> depends on it, directly or through a chain of dependencies, then the task at
  \<open>b\<close> ends failed and \<^verbatim>\<open>executeTask\<close> was never called on it during the run.
\<close>

theorem failure_reaches_dependents:
  assumes "\<forall>t\<in>set ts. status t = Pending" and "distinct (map tid ts)"
    and "executeTaskDAG env schedule ts = Some (Inr s')"
    and "a < length ts" and "b < length ts"
    and "status (tasks s' ! a) = Failed"
    and "(tid (ts ! a), tid (ts ! b)) \<in> (depRel ts)\<^sup>+"
  shows "status (tasks s' ! b) = Failed \<and> RunAgent (tid (ts ! b)) \<notin> set (log s')"
proof -
  let ?I = "\<lambda>s. Inv2 [] s \<and> graphOf (tasks s) = graphOf ts"
  have "?I s' \<and> readyIdx (tasks s') = [] \<and> \<not> list_ex (\<lambda>t. status t = Running) (tasks s')"
  proof (rule schedulingLoop_invariant [where I = ?I and env = env and s = "initRun schedule ts"])
    show "schedulingLoop env (initRun schedule ts) = Some (Inr s')"
      using assms(3) by (simp add: executeTaskDAG_def)
    show "?I (initRun schedule ts)"
      using Inv2_initial [OF assms(1,2)] by (simp add: initRun_def)
    fix s s2
    assume "?I s" and "readyIdx (tasks s) \<noteq> []"
      and "awaitAll env (fst (dispatchAll env (readyIdx (tasks s)) [] s))
              (snd (dispatchAll env (readyIdx (tasks s)) [] s)) = Inr s2"
    then show "?I s2" using wave_Inv2 wave_graphOf by metis
  qed
  then have inv: "Inv2 [] s'" and g: "graphOf (tasks s') = graphOf ts"
    and nr: "\<not> list_ex (\<lambda>t. status t = Running) (tasks s')" by simp_all
  from g have len: "length (tasks s') = length ts"
    by (metis graphOf_def length_map)
  have tid: "tid (tasks s' ! k) = tid (ts ! k)" if "k < length ts" for k
  proof -
    have "fst (graphOf (tasks s') ! k) = fst (graphOf ts ! k)" by (simp add: g)
    with that len show ?thesis by (simp add: graphOf_def)
  qed
  have rel: "depRel (tasks s') = depRel ts" by (simp add: depRel_graphOf g)
  have "\<forall>k<length (tasks s'). tid (tasks s' ! k) = tid (ts ! b) \<longrightarrow>
           status (tasks s' ! k) = Failed \<and> tid (ts ! b) \<notin> runAgents (log s')"
    using inv nr _ assms(6)
  proof (rule failed_dependents_final)
    show "a < length (tasks s')" using assms(4) len by simp
    show "(tid (tasks s' ! a), tid (ts ! b)) \<in> (depRel (tasks s'))\<^sup>+"
      using assms(7) assms(4) by (simp add: rel tid)
  qed
  with assms(5) len tid [OF assms(5)] show ?thesis by (simp add: runAgents_def)
qed

theorem failure_reaches_dependents_witness:
  "executeTaskDAG (boomEnv False) [] chain3 =
     Some (Inr
       \<lparr>tasks = [(mkTask ''a'' [] Pending)\<lparr>status := Failed, error := Some ''boom''\<rparr>,
                 (mkTask ''b'' [''a''] Pending)\<lparr>status := Failed, error := Some ''Dependency a failed''\<rparr>,
                 (mkTask ''c'' [''b''] Pending)\<lparr>status := Failed, error := Some ''Dependency b failed''\<rparr>],
        results = Map.empty, log = [RunAgent ''a''], sched = []\<rparr>) \<and>
   status (tasks \<lparr>tasks = [(mkTask ''a'' [] Pending)\<lparr>status := Failed, error := Some ''boom''\<rparr>,
                 (mkTask ''b'' [''a''] Pending)\<lparr>status := Failed, error := Some ''Dependency a failed''\<rparr>,
                 (mkTask ''c'' [''b''] Pending)\<lparr>status := Failed, error := Some ''Dependency b failed''\<rparr>],
        results = Map.empty :: string \<rightharpoonup> nat, log = [RunAgent ''a''], sched = []\<rparr> ! 2) = Failed \<and>
   RunAgent ''c'' \<notin> set [RunAgent ''a'']"
proof -
  let ?s' = "\<lparr>tasks = [(mkTask ''a'' [] Pending)\<lparr>status := Failed, error := Some ''boom''\<rparr>,
                 (mkTask ''b'' [''a''] Pending)\<lparr>status := Failed, error := Some ''Dependency a failed''\<rparr>,
                 (mkTask ''c'' [''b''] Pending)\<lparr>status := Failed, error := Some ''Dependency b failed''\<rparr>],
        results = Map.empty :: string \<rightharpoonup> nat, log = [RunAgent ''a''], sched = []\<rparr>"
  have run: "executeTaskDAG (boomEnv False) [] chain3 = Some (Inr ?s')"
    by (simp add: run_simps boomEnv_def chain3_def mkTask_def upt_rec [of 0] upt_rec [of 1]
        upt_rec [of 2] upt_rec [of 3] markLoop.simps)
  have p: "\<forall>t\<in>set chain3. status t = Pending" by (simp add: chain3_def mkTask_def)
  have d: "distinct (map tid chain3)" by (simp add: chain3_def mkTask_def)
  have "(''a'', ''b'') \<in> depRel chain3" "(''b'', ''c'') \<in> depRel chain3"
    by (simp_all add: chain3_def mkTask_def depRel_Cons depRel_Nil)
  then have "(''a'', ''c'') \<in> (depRel chain3)\<^sup>+" by (rule trancl_into_trancl [OF r_into_trancl])
  then have t: "(tid (chain3 ! 0), tid (chain3 ! 2)) \<in> (depRel chain3)\<^sup>+"
    by (simp add: chain3_def mkTask_def)
  have f: "status (tasks ?s' ! 0) = Failed" by (simp add: mkTask_def)
  have l: "0 < length chain3" "2 < length chain3" by (simp_all add: chain3_def)
  from failure_reaches_dependents [OF p d run l f t] run show ?thesis
    by (simp add: chain3_def mkTask_def)
qed

section \<open>Result and error of terminal tasks\<close>

lemma InvM3_update:
  assumes "InvM3 m ts" and "fieldsOK t" and "\<forall>x. c = AwaitComplete x \<longrightarrow> x = None"
  shows "InvM3 (m(i \<mapsto> c)) (ts[i := t])"
proof -
  have "fieldsOK (ts[i := t] ! j)" if "j < length ts" for j
    using assms(1,2) that unfolding InvM3_def by (cases "j = i") simp_all
  then show ?thesis using assms(1,3) unfolding InvM3_def by auto
qed

lemma InvM3_retag:
  assumes "InvM3 m ts" and "\<forall>x. c = AwaitComplete x \<longrightarrow> x = None"
  shows "InvM3 (m(i \<mapsto> c)) ts"
  using assms unfolding InvM3_def by auto

lemma InvM3_remove: "InvM3 m ts \<Longrightarrow> InvM3 (m(i := None)) ts"
  unfolding InvM3_def by (auto split: if_splits)

lemma InvM3_propagate:
  assumes "InvM3 m ts"
  shows "InvM3 m (markDependentTasksAsFailed f ts)"
  unfolding InvM3_def
proof (intro conjI allI impI)
  fix i assume "i < length (markDependentTasksAsFailed f ts)"
  then have i: "i < length ts" by simp
  with assms have ok: "fieldsOK (ts ! i)" unfolding InvM3_def by blast
  from markDependentTasksAsFailed_nth [OF i, of f]
  show "fieldsOK (markDependentTasksAsFailed f ts ! i)"
  proof
    assume "markDependentTasksAsFailed f ts ! i = ts ! i"
    with ok show ?thesis by simp
  next
    assume "status (ts ! i) = Pending \<and>
      (\<exists>d. markDependentTasksAsFailed f ts ! i = markFailed (depFailedMsg d) (ts ! i))"
    with ok show ?thesis by (auto simp: fieldsOK_def)
  qed
next
  fix i x assume "m i = Some (AwaitComplete x)"
  with assms show "x = None" unfolding InvM3_def by blast
qed

lemma Inv1_phase: "Inv1 fl ts \<Longrightarrow> map_of fl i = Some c \<Longrightarrow> status (ts ! i) = phaseStatus c"
  unfolding Inv1_def InvM1_def by blast

lemma Inv3_resume:
  assumes ok: "completeNotifyOk env" and inv: "Inv3 fl s" and k: "k < length fl"
    and res: "resume env (fst (fl ! k)) (snd (fl ! k)) s = (Inr r, s')"
  shows "Inv3 (case r of None \<Rightarrow> take k fl @ drop (Suc k) fl
                 | Some c \<Rightarrow> fl[k := (fst (fl ! k), c)]) s'"
proof -
  let ?i = "fst (fl ! k)" and ?m = "map_of fl" and ?ts = "tasks s"
  let ?fl' = "case r of None \<Rightarrow> take k fl @ drop (Suc k) fl | Some c \<Rightarrow> fl[k := (fst (fl ! k), c)]"
  from inv have i1: "Inv1 fl ?ts" and i3: "InvM3 ?m ?ts" by (simp_all add: Inv3_def)
  from i1 have d: "distinct (map fst fl)" by (simp add: Inv1_def)
  have a: "Inv1 ?fl' (tasks s')" using i1 k res by (rule Inv1_resume)
  have "InvM3 (map_of ?fl') (tasks s')"
    using d k res
  proof (cases rule: resume_map_cases)
    case (exec out)
    have "InvM3 (?m(?i \<mapsto> AwaitExec out)) ?ts" using i3 by (rule InvM3_retag) simp
    with exec show ?thesis by simp
  next
    case (catch m out c)
    have il: "?i < length ?ts" using i1 catch(1) by (rule Inv1_index)
    have ph: "status (?ts ! ?i) = phaseStatus c" using i1 catch(1) by (rule Inv1_phase)
    have "c \<noteq> AwaitComplete (Some m)" using i3 catch(1) unfolding InvM3_def by auto
    with catch(2) ph have "status (?ts ! ?i) = Running" by auto
    moreover have "fieldsOK (?ts ! ?i)" using i3 il unfolding InvM3_def by blast
    ultimately have "fieldsOK ((?ts ! ?i)\<lparr>status := Failed, error := Some m\<rparr>)"
      by (simp add: fieldsOK_def)
    with i3 have "InvM3 (?m(?i \<mapsto> AwaitFailed out))
        (?ts[?i := (?ts ! ?i)\<lparr>status := Failed, error := Some m\<rparr>])"
      by (rule InvM3_update) simp
    with catch show ?thesis by simp
  next
    case (complete v out)
    have il: "?i < length ?ts" using i1 complete(1) by (rule Inv1_index)
    have "status (?ts ! ?i) = Running" using Inv1_phase [OF i1 complete(1)] by simp
    moreover have "fieldsOK (?ts ! ?i)" using i3 il unfolding InvM3_def by blast
    ultimately have "fieldsOK ((?ts ! ?i)\<lparr>status := Completed, result := Some v\<rparr>)"
      by (simp add: fieldsOK_def)
    moreover have "out = None" using complete(6) ok unfolding completeNotifyOk_def by auto
    ultimately have "InvM3 (?m(?i \<mapsto> AwaitComplete out))
        (?ts[?i := (?ts ! ?i)\<lparr>status := Completed, result := Some v\<rparr>])"
      using i3 by (intro InvM3_update) simp_all
    with complete show ?thesis by simp
  next
    case finished
    with InvM3_remove [OF i3, of ?i] show ?thesis by simp
  next
    case propagate
    with InvM3_remove [OF InvM3_propagate [OF i3], of ?i "tid (?ts ! ?i)"] show ?thesis by simp
  qed
  with a show ?thesis by (simp add: Inv3_def)
qed

lemma Inv3_dispatchAll:
  "Inv3 fl s \<Longrightarrow> distinct is \<Longrightarrow>
   (\<forall>i\<in>set is. i < length (tasks s) \<and> status (tasks s ! i) = Pending) \<Longrightarrow>
   Inv3 (fst (dispatchAll env is fl s)) (snd (dispatchAll env is fl s))"
proof (induction "is" arbitrary: fl s)
  case Nil
  then show ?case by simp
next
  case (Cons i "is")
  define s1 where "s1 = snd (startTask env i s)"
  define fl1 where "fl1 = fl @ [(i, fst (startTask env i s))]"
  have eq: "dispatchAll env (i # is) fl s = dispatchAll env is fl1 s1"
    by (simp add: split_beta s1_def fl1_def)
  from Cons.prems have i1: "Inv1 fl (tasks s)" and i3: "InvM3 (map_of fl) (tasks s)"
    and il: "i < length (tasks s)" and ip: "status (tasks s ! i) = Pending"
    and ni: "i \<notin> set is" and dis: "distinct is" by (simp_all add: Inv3_def)
  note st1 = startTask_step(1) [OF i1 il ip, of env, folded fl1_def s1_def]
  note st2 = startTask_step(2) [OF i1 il ip, of env, folded fl1_def]
  from st2 obtain out where mo: "map_of fl1 = (map_of fl)(i \<mapsto> AwaitStart out)" by blast
  have t1: "tasks s1 = (tasks s)[i := (tasks s ! i)\<lparr>status := Running\<rparr>]"
    by (simp add: s1_def startTask_fields)
  have "fieldsOK (tasks s ! i)" using i3 il unfolding InvM3_def by blast
  with ip have "fieldsOK ((tasks s ! i)\<lparr>status := Running\<rparr>)" by (simp add: fieldsOK_def)
  with i3 have "InvM3 (map_of fl1) (tasks s1)" unfolding mo t1 by (rule InvM3_update) simp
  with st1 have inv: "Inv3 fl1 s1" by (simp add: Inv3_def)
  have rest: "\<forall>j\<in>set is. j < length (tasks s1) \<and> status (tasks s1 ! j) = Pending"
  proof
    fix j assume j: "j \<in> set is"
    with ni have "j \<noteq> i" by blast
    moreover from j Cons.prems(3) have "j < length (tasks s) \<and> status (tasks s ! j) = Pending"
      by simp
    ultimately show "j < length (tasks s1) \<and> status (tasks s1 ! j) = Pending"
      by (simp add: t1)
  qed
  show ?case unfolding eq using inv dis rest by (rule Cons.IH)
qed

lemma wave_Inv3:
  assumes ok: "completeNotifyOk env" and inv: "Inv3 [] s"
    and aw: "awaitAll env (fst (dispatchAll env (readyIdx (tasks s)) [] s))
           (snd (dispatchAll env (readyIdx (tasks s)) [] s)) = Inr s2"
  shows "Inv3 [] s2"
proof -
  let ?d = "dispatchAll env (readyIdx (tasks s)) [] s"
  have start: "Inv3 (fst ?d) (snd ?d)"
    using inv distinct_readyIdx readyIdx_pending by (rule Inv3_dispatchAll)
  show ?thesis
  proof (rule awaitAll_invariant [where I = Inv3 and env = env, OF _ _ start aw])
    show "\<And>fl s x. Inv3 fl (s\<lparr>sched := x\<rparr>) = Inv3 fl s" by (simp add: Inv3_def)
    show "\<And>fl s k r s'. Inv3 fl s \<Longrightarrow> k < length fl \<Longrightarrow>
       resume env (fst (fl ! k)) (snd (fl ! k)) s = (Inr r, s') \<Longrightarrow>
       Inv3 (case r of None \<Rightarrow> take k fl @ drop (Suc k) fl
              | Some c \<Rightarrow> fl[k := (fst (fl ! k), c)]) s'"
      using ok by (rule Inv3_resume)
  qed
qed

lemma resume_keeps_terminal:
  assumes ph: "status (tasks s ! i) = phaseStatus c" and nc: "\<forall>m. c \<noteq> AwaitComplete (Some m)"
    and j: "j < length (tasks s)"
    and t: "status (tasks s ! j) = Completed \<or> status (tasks s ! j) = Failed"
  shows "tasks (snd (resume env i c s)) ! j = tasks s ! j"
proof -
  obtain r s' where rs: "resume env i c s = (r, s')" by (cases "resume env i c s")
  from rs have "tasks s' ! j = tasks s ! j"
  proof (cases rule: resume_cases)
    case (exec out)
    then show ?thesis by simp
  next
    case (catch m out)
    with nc ph have "status (tasks s ! i) = Running" by auto
    with t have "j \<noteq> i" by auto
    with catch show ?thesis by simp
  next
    case (complete v out)
    with ph have "status (tasks s ! i) = Running" by auto
    with t have "j \<noteq> i" by auto
    with complete show ?thesis by simp
  next
    case finished
    then show ?thesis by simp
  next
    case propagate
    with markDependentTasksAsFailed_nth [OF j, of "tid (tasks s ! i)"] t show ?thesis by auto
  next
    case (abort m)
    then show ?thesis by simp
  qed
  with rs show ?thesis by simp
qed

lemma startTask_keeps_terminal:
  assumes "status (tasks s ! i) = Pending" and "j < length (tasks s)"
    and "status (tasks s ! j) = Completed \<or> status (tasks s ! j) = Failed"
  shows "tasks (snd (startTask env i s)) ! j = tasks s ! j"
proof -
  from assms(1,3) have "j \<noteq> i" by auto
  then show ?thesis by (simp add: startTask_fields)
qed

lemma Inv3_initial:
  assumes "\<forall>t\<in>set ts. status t = Pending \<and> result t = None \<and> error t = None"
  shows "Inv3 [] (initRun schedule ts)"
proof -
  have "Inv1 [] ts" using assms by (intro Inv1_initial) blast
  moreover have "InvM3 Map.empty ts" using assms by (simp add: InvM3_def fieldsOK_def)
  ultimately show ?thesis by (simp add: Inv3_def initRun_def)
qed

text \<open>
  Claim C2 says that a terminal status is never overwritten and that exactly one of
  result and error is set on a terminal task. Here the agent of \<open>a\<close> returns 7 and lines
  64-66 make the task completed with that result; then the task-completed notification
  of line 68 throws, and the \<^verbatim>\<open>catch\<close> block overwrites the status with failed and sets
  the error: the run returns with \<open>a\<close> failed, holding both a result and an error.
\<close>

theorem completed_overwritten_counterexample:
  "executeTaskDAG completeDownEnv [] [mkTask ''a'' [] Pending] =
     Some (Inr
       \<lparr>tasks = [(mkTask ''a'' [] Pending)
                   \<lparr>status := Failed, result := Some 7, error := Some ''lark down''\<rparr>],
        results = [''a'' \<mapsto> 7],
        log = [Sent ''chat'' (MsgStart ''a'' []), RunAgent ''a'', Sent ''chat'' (MsgComplete ''a''),
               Sent ''chat'' (MsgFailed ''a'' ''lark down'')],
        sched = []\<rparr>)"
  by (simp add: run_simps completeDownEnv_def mkTask_def markLoop.simps)

text \<open>
  Claim C2, for the runs in which no task-completed notification fails. When such a run,
  started from pending tasks that hold neither result nor error, returns normally, no task
  is running, every completed task holds a result and no error, every failed task an
  error and no result, and every pending task neither. And no step overwrites a terminal
  task: starting a pending task, and resuming the callback of a task \<open>i\<close> suspended at
  \<open>c\<close> (the task then has the status of that point; \<open>c\<close> is not a failed task-completed
  notification), leave every completed or failed task of the collection exactly as it is,
  status, result and error.
\<close>

theorem terminal_fields_exclusive:
  assumes "completeNotifyOk env"
  shows "((\<forall>t\<in>set ts. status t = Pending \<and> result t = None \<and> error t = None) \<and>
          executeTaskDAG env schedule ts = Some (Inr s') \<longrightarrow>
            (\<forall>t\<in>set (tasks s'). status t \<noteq> Running \<and> fieldsOK t)) \<and>
         (status (tasks s ! i) = phaseStatus c \<and> (\<forall>m. c \<noteq> AwaitComplete (Some m)) \<and>
          j < length (tasks s) \<and> (status (tasks s ! j) = Completed \<or> status (tasks s ! j) = Failed)
            \<longrightarrow> tasks (snd (resume env i c s)) ! j = tasks s ! j) \<and>
         (status (tasks s ! i) = Pending \<and>
          j < length (tasks s) \<and> (status (tasks s ! j) = Completed \<or> status (tasks s ! j) = Failed)
            \<longrightarrow> tasks (snd (startTask env i s)) ! j = tasks s ! j)"
proof (intro conjI impI)
  assume a: "(\<forall>t\<in>set ts. status t = Pending \<and> result t = None \<and> error t = None) \<and>
          executeTaskDAG env schedule ts = Some (Inr s')"
  have "Inv3 [] s' \<and> readyIdx (tasks s') = [] \<and> \<not> list_ex (\<lambda>t. status t = Running) (tasks s')"
  proof (rule schedulingLoop_invariant [where I = "Inv3 []" and env = env and s = "initRun schedule ts"])
    show "schedulingLoop env (initRun schedule ts) = Some (Inr s')"
      using a by (simp add: executeTaskDAG_def)
    show "Inv3 [] (initRun schedule ts)" using a by (intro Inv3_initial) blast
    show "\<And>s s2. Inv3 [] s \<Longrightarrow> readyIdx (tasks s) \<noteq> [] \<Longrightarrow>
        awaitAll env (fst (dispatchAll env (readyIdx (tasks s)) [] s))
          (snd (dispatchAll env (readyIdx (tasks s)) [] s)) = Inr s2 \<Longrightarrow> Inv3 [] s2"
      using wave_Inv3 [OF assms] by blast
  qed
  then have inv: "InvM3 Map.empty (tasks s')"
    and nr: "\<not> list_ex (\<lambda>t. status t = Running) (tasks s')" by (simp_all add: Inv3_def)
  show "\<forall>t\<in>set (tasks s'). status t \<noteq> Running \<and> fieldsOK t"
  proof
    fix t assume t: "t \<in> set (tasks s')"
    then obtain k where "k < length (tasks s')" "tasks s' ! k = t" by (auto simp: in_set_conv_nth)
    with inv have "fieldsOK t" unfolding InvM3_def by blast
    moreover have "status t \<noteq> Running" using nr t unfolding list_ex_iff by blast
    ultimately show "status t \<noteq> Running \<and> fieldsOK t" by simp
  qed
next
  assume "status (tasks s ! i) = phaseStatus c \<and> (\<forall>m. c \<noteq> AwaitComplete (Some m)) \<and>
          j < length (tasks s) \<and> (status (tasks s ! j) = Completed \<or> status (tasks s ! j) = Failed)"
  then show "tasks (snd (resume env i c s)) ! j = tasks s ! j"
    using resume_keeps_terminal by blast
next
  assume "status (tasks s ! i) = Pending \<and>
          j < length (tasks s) \<and> (status (tasks s ! j) = Completed \<or> status (tasks s ! j) = Failed)"
  then show "tasks (snd (startTask env i s)) ! j = tasks s ! j"
    using startTask_keeps_terminal by blast
qed

theorem terminal_fields_exclusive_witness:
  "completeNotifyOk (boomEnv False) \<and>
   executeTaskDAG (boomEnv False) [] chain3 =
     Some (Inr
       \<lparr>tasks = [(mkTask ''a'' [] Pending)\<lparr>status := Failed, error := Some ''boom''\<rparr>,
                 (mkTask ''b'' [''a''] Pending)\<lparr>status := Failed, error := Some ''Dependency a failed''\<rparr>,
                 (mkTask ''c'' [''b''] Pending)\<lparr>status := Failed, error := Some ''Dependency b failed''\<rparr>],
        results = Map.empty, log = [RunAgent ''a''], sched = []\<rparr>) \<and>
   fieldsOK ((mkTask ''c'' [''b''] Pending)\<lparr>status := Failed, error := Some ''Dependency b failed''\<rparr>) \<and>
   tasks (snd (resume (boomEnv False) 1 (AwaitExec (Inr 5))
      \<lparr>tasks = [(mkTask ''a'' [] Pending)\<lparr>status := Completed, result := Some 7\<rparr>,
                (mkTask ''b'' [''a''] Pending)\<lparr>status := Running\<rparr>],
       results = [''a'' \<mapsto> 7], log = [], sched = []\<rparr>)) ! 0 =
     (mkTask ''a'' [] Pending)\<lparr>status := Completed, result := Some 7\<rparr> \<and>
   tasks (snd (startTask (boomEnv False) 1
      \<lparr>tasks = [(mkTask ''a'' [] Pending)\<lparr>status := Completed, result := Some 7\<rparr>,
                mkTask ''b'' [''a''] Pending],
       results = [''a'' \<mapsto> 7], log = [], sched = []\<rparr>)) ! 0 =
     (mkTask ''a'' [] Pending)\<lparr>status := Completed, result := Some 7\<rparr>"
proof -
  let ?s' = "\<lparr>tasks = [(mkTask ''a'' [] Pending)\<lparr>status := Failed, error := Some ''boom''\<rparr>,
                 (mkTask ''b'' [''a''] Pending)\<lparr>status := Failed, error := Some ''Dependency a failed''\<rparr>,
                 (mkTask ''c'' [''b''] Pending)\<lparr>status := Failed, error := Some ''Dependency b failed''\<rparr>],
        results = Map.empty :: string \<rightharpoonup> nat, log = [RunAgent ''a''], sched = []\<rparr>"
  let ?r = "\<lparr>tasks = [(mkTask ''a'' [] Pending)\<lparr>status := Completed, result := Some 7\<rparr>,
                (mkTask ''b'' [''a''] Pending)\<lparr>status := Running\<rparr>],
       results = [''a'' \<mapsto> 7], log = [], sched = []\<rparr>"
  let ?p = "\<lparr>tasks = [(mkTask ''a'' [] Pending)\<lparr>status := Completed, result := Some 7\<rparr>,
                mkTask ''b'' [''a''] Pending],
       results = [''a'' \<mapsto> 7], log = [], sched = []\<rparr>"
  have ok: "completeNotifyOk (boomEnv False)"
    by (simp add: completeNotifyOk_def notifyTaskComplete_def notify_def boomEnv_def)
  have run: "executeTaskDAG (boomEnv False) [] chain3 = Some (Inr ?s')"
    by (simp add: run_simps boomEnv_def chain3_def mkTask_def upt_rec [of 0] upt_rec [of 1]
        upt_rec [of 2] upt_rec [of 3] markLoop.simps)
  have fresh: "\<forall>t\<in>set chain3. status t = Pending \<and> result t = None \<and> error t = None"
    by (simp add: chain3_def mkTask_def)
  have "\<forall>t\<in>set (tasks ?s'). status t \<noteq> Running \<and> fieldsOK t"
    using terminal_fields_exclusive [OF ok, of chain3 "[]" ?s'] fresh run by blast
  then have f: "fieldsOK ((mkTask ''c'' [''b''] Pending)
      \<lparr>status := Failed, error := Some ''Dependency b failed''\<rparr>)" by simp
  have "tasks (snd (resume (boomEnv False) 1 (AwaitExec (Inr 5)) ?r)) ! 0 = tasks ?r ! 0"
    using terminal_fields_exclusive [OF ok, where s = ?r and i = 1 and c = "AwaitExec (Inr 5)" and j = 0]
    by (simp add: mkTask_def)
  then have r: "tasks (snd (resume (boomEnv False) 1 (AwaitExec (Inr 5)) ?r)) ! 0 =
     (mkTask ''a'' [] Pending)\<lparr>status := Completed, result := Some 7\<rparr>" by simp
  have "tasks (snd (startTask (boomEnv False) 1 ?p)) ! 0 = tasks ?p ! 0"
    using terminal_fields_exclusive [OF ok, where s = ?p and i = 1 and j = 0]
    by (simp add: mkTask_def)
  then have p: "tasks (snd (startTask (boomEnv False) 1 ?p)) ! 0 =
     (mkTask ''a'' [] Pending)\<lparr>status := Completed, result := Some 7\<rparr>" by simp
  from ok run f r p show ?thesis by simp
qed

section \<open>The returned result map\<close>

lemma ids_update: "tid t = tid (ts ! i) \<Longrightarrow> tid ` set (ts[i := t]) = tid ` set ts"
proof -
  assume "tid t = tid (ts ! i)"
  then have "map tid (ts[i := t]) = map tid ts"
    by (cases "i < length ts") (simp_all add: map_update list_update_same_conv list_update_beyond)
  then have "set (map tid (ts[i := t])) = set (map tid ts)" by simp
  then show ?thesis by simp
qed

lemma InvM4_update:
  assumes inv: "InvM4 ts res" and i: "i < length ts"
    and t: "tid t = tid (ts ! i)" "result t = result (ts ! i)"
  shows "InvM4 (ts[i := t]) res"
  unfolding InvM4_def
proof (intro conjI allI impI)
  fix k assume "k < length (ts[i := t])"
  then have k: "k < length ts" by simp
  with inv t show "res (tid (ts[i := t] ! k)) = result (ts[i := t] ! k)"
    unfolding InvM4_def by (cases "k = i") simp_all
next
  show "dom res \<subseteq> tid ` set (ts[i := t])"
    using inv unfolding InvM4_def by (simp add: ids_update [OF t(1)])
qed

lemma InvM4_complete:
  assumes inv: "InvM4 ts res" and i: "i < length ts" and dist: "distinct (map tid ts)"
  shows "InvM4 (ts[i := (ts ! i)\<lparr>status := Completed, result := Some v\<rparr>])
           (res(tid (ts ! i) \<mapsto> v))"
  unfolding InvM4_def
proof (intro conjI allI impI)
  let ?t = "(ts ! i)\<lparr>status := Completed, result := Some v\<rparr>"
  fix k assume "k < length (ts[i := ?t])"
  then have k: "k < length ts" by simp
  show "(res(tid (ts ! i) \<mapsto> v)) (tid (ts[i := ?t] ! k)) = result (ts[i := ?t] ! k)"
  proof (cases "k = i")
    case True
    with i show ?thesis by simp
  next
    case False
    with dist k i have "tid (ts ! k) \<noteq> tid (ts ! i)" using distinct_tid_eq by blast
    with False k inv show ?thesis unfolding InvM4_def by simp
  qed
next
  let ?t = "(ts ! i)\<lparr>status := Completed, result := Some v\<rparr>"
  have "tid ` set (ts[i := ?t]) = tid ` set ts" by (rule ids_update) simp
  moreover have "tid (ts ! i) \<in> tid ` set ts" using i by simp
  ultimately show "dom (res(tid (ts ! i) \<mapsto> v)) \<subseteq> tid ` set (ts[i := ?t])"
    using inv unfolding InvM4_def by auto
qed

lemma markDependentTasksAsFailed_keeps:
  assumes "j < length ts"
  shows "tid (markDependentTasksAsFailed f ts ! j) = tid (ts ! j)"
    and "result (markDependentTasksAsFailed f ts ! j) = result (ts ! j)"
  using markDependentTasksAsFailed_nth [OF assms, of f] by auto

lemma InvM4_propagate:
  assumes "InvM4 ts res"
  shows "InvM4 (markDependentTasksAsFailed f ts) res"
proof -
  let ?ts' = "markDependentTasksAsFailed f ts"
  have "map tid ?ts' = map tid ts"
    by (rule nth_equalityI) (simp_all add: markDependentTasksAsFailed_keeps)
  then have "set (map tid ?ts') = set (map tid ts)" by simp
  then have ids: "tid ` set ?ts' = tid ` set ts" by simp
  show ?thesis
    using assms unfolding InvM4_def ids
    by (simp add: markDependentTasksAsFailed_keeps)
qed

lemma Inv4_resume:
  assumes ok: "completeNotifyOk env" and inv: "Inv4 fl s" and k: "k < length fl"
    and res: "resume env (fst (fl ! k)) (snd (fl ! k)) s = (Inr r, s')"
  shows "Inv4 (case r of None \<Rightarrow> take k fl @ drop (Suc k) fl
                 | Some c \<Rightarrow> fl[k := (fst (fl ! k), c)]) s'"
proof -
  let ?i = "fst (fl ! k)" and ?m = "map_of fl" and ?ts = "tasks s"
  let ?fl' = "case r of None \<Rightarrow> take k fl @ drop (Suc k) fl | Some c \<Rightarrow> fl[k := (fst (fl ! k), c)]"
  from inv have i3: "Inv3 fl s" and i4: "InvM4 ?ts (results s)"
    and dist: "distinct (map tid ?ts)" by (simp_all add: Inv4_def)
  from i3 have i1: "Inv1 fl ?ts" by (simp add: Inv3_def)
  then have d: "distinct (map fst fl)" by (simp add: Inv1_def)
  have mi: "?m ?i = Some (snd (fl ! k))" using d k by (rule map_of_nth)
  have il: "?i < length ?ts" using i1 mi by (rule Inv1_index)
  have a: "Inv3 ?fl' s'" using ok i3 k res by (rule Inv3_resume)
  have g: "graphOf (tasks s') = graphOf ?ts"
    using resume_graphOf [of env ?i "snd (fl ! k)" s] res by simp
  have b: "distinct (map tid (tasks s'))" using dist by (simp add: distinct_tid_graphOf g)
  have "InvM4 (tasks s') (results s')"
    using d k res
  proof (cases rule: resume_map_cases)
    case (exec out)
    with i4 show ?thesis by simp
  next
    case (catch m out c)
    have "InvM4 (?ts[?i := (?ts ! ?i)\<lparr>status := Failed, error := Some m\<rparr>]) (results s)"
      using i4 il by (rule InvM4_update) simp_all
    with catch show ?thesis by simp
  next
    case (complete v out)
    have "InvM4 (?ts[?i := (?ts ! ?i)\<lparr>status := Completed, result := Some v\<rparr>])
        ((results s)(tid (?ts ! ?i) \<mapsto> v))"
      using i4 il dist by (rule InvM4_complete)
    with complete show ?thesis by simp
  next
    case finished
    with i4 show ?thesis by simp
  next
    case propagate
    with InvM4_propagate [OF i4, of "tid (?ts ! ?i)"] show ?thesis by simp
  qed
  with a b show ?thesis by (simp add: Inv4_def)
qed

lemma Inv4_dispatchAll:
  "Inv4 fl s \<Longrightarrow> distinct is \<Longrightarrow>
   (\<forall>i\<in>set is. i < length (tasks s) \<and> status (tasks s ! i) = Pending) \<Longrightarrow>
   Inv4 (fst (dispatchAll env is fl s)) (snd (dispatchAll env is fl s))"
proof (induction "is" arbitrary: fl s)
  case Nil
  then show ?case by simp
next
  case (Cons i "is")
  define s1 where "s1 = snd (startTask env i s)"
  define fl1 where "fl1 = fl @ [(i, fst (startTask env i s))]"
  have eq: "dispatchAll env (i # is) fl s = dispatchAll env is fl1 s1"
    by (simp add: split_beta s1_def fl1_def)
  from Cons.prems have i3: "Inv3 fl s" and i4: "InvM4 (tasks s) (results s)"
    and dist: "distinct (map tid (tasks s))"
    and il: "i < length (tasks s)" and ip: "status (tasks s ! i) = Pending"
    and ni: "i \<notin> set is" and dis: "distinct is" by (simp_all add: Inv4_def)
  have "Inv3 (fst (dispatchAll env [i] fl s)) (snd (dispatchAll env [i] fl s))"
    using i3 by (rule Inv3_dispatchAll) (use il ip in simp_all)
  then have a: "Inv3 fl1 s1" by (simp add: split_beta fl1_def s1_def)
  have t1: "tasks s1 = (tasks s)[i := (tasks s ! i)\<lparr>status := Running\<rparr>]"
    and r1: "results s1 = results s" by (simp_all add: s1_def startTask_fields)
  have b: "InvM4 (tasks s1) (results s1)"
    unfolding t1 r1 using i4 il by (rule InvM4_update) simp_all
  have c: "distinct (map tid (tasks s1))"
    using dist by (simp add: distinct_tid_graphOf s1_def startTask_graphOf)
  have inv: "Inv4 fl1 s1" using a b c by (simp add: Inv4_def)
  have rest: "\<forall>j\<in>set is. j < length (tasks s1) \<and> status (tasks s1 ! j) = Pending"
  proof
    fix j assume j: "j \<in> set is"
    with ni have "j \<noteq> i" by blast
    moreover from j Cons.prems(3) have "j < length (tasks s) \<and> status (tasks s ! j) = Pending"
      by simp
    ultimately show "j < length (tasks s1) \<and> status (tasks s1 ! j) = Pending"
      by (simp add: t1)
  qed
  show ?case unfolding eq using inv dis rest by (rule Cons.IH)
qed

lemma Inv4_initial:
  assumes "\<forall>t\<in>set ts. status t = Pending \<and> result t = None \<and> error t = None"
    and "distinct (map tid ts)"
  shows "Inv4 [] (initRun schedule ts)"
proof -
  have "InvM4 ts Map.empty" using assms(1) by (simp add: InvM4_def)
  with Inv3_initial [OF assms(1), of schedule] assms(2) show ?thesis
    by (simp add: Inv4_def initRun_def)
qed

text \<open>
  Claim C7 says that the returned map has an entry for an id exactly when the task's
  final status is completed. Here the agent of \<open>a\<close> returns 7 and line 66 stores it in the
  map; then the task-completed notification throws and the task is marked failed (and
  \<open>b\<close>, which depends on it, with it). The run returns a map with an entry for \<open>a\<close>, whose
  final status is failed.
\<close>

theorem entry_for_failed_task_counterexample:
  "executeTaskDAG completeDownEnv [] twoTasks =
     Some (Inr
       \<lparr>tasks = [(mkTask ''a'' [] Pending)
                   \<lparr>status := Failed, result := Some 7, error := Some ''lark down''\<rparr>,
                 (mkTask ''b'' [''a''] Pending)
                   \<lparr>status := Failed, error := Some ''Dependency a failed''\<rparr>],
        results = [''a'' \<mapsto> 7],
        log = [Sent ''chat'' (MsgStart ''a'' []), RunAgent ''a'', Sent ''chat'' (MsgComplete ''a''),
               Sent ''chat'' (MsgFailed ''a'' ''lark down'')],
        sched = []\<rparr>)"
  by (simp add: run_simps completeDownEnv_def twoTasks_def mkTask_def upt_0_2 markLoop.simps)

lemma notify_log:
  "\<exists>l. log (snd (notify env msg s)) = log s @ l \<and> (\<forall>x. RunAgent x \<notin> set l)"
  by (auto simp: notify_def split: option.splits)

lemma startTask_log:
  "\<exists>l. log (snd (startTask env i s)) = log s @ l \<and> (\<forall>x. RunAgent x \<notin> set l)"
  using notify_log [of env _ "updTask i (\<lambda>t. t\<lparr>status := Running\<rparr>) s"]
  by (simp add: startTask_def notifyTaskStart_def Let_def split_beta)

lemma catchBlock_log:
  "\<exists>l. log (snd (catchBlock env i m s)) = log s @ l \<and> (\<forall>x. RunAgent x \<notin> set l)"
  using notify_log [of env _ "updTask i (\<lambda>t. t\<lparr>status := Failed, error := Some m\<rparr>) s"]
  by (simp add: catchBlock_def notifyTaskFailed_def Let_def split_beta)

lemma resume_log:
  "log (snd (resume env i (AwaitStart None) s)) = log s @ [RunAgent (tid (tasks s ! i))]"
  "c \<noteq> AwaitStart None \<Longrightarrow>
     \<exists>l. log (snd (resume env i c s)) = log s @ l \<and> (\<forall>x. RunAgent x \<notin> set l)"
proof -
  show "log (snd (resume env i (AwaitStart None) s)) = log s @ [RunAgent (tid (tasks s ! i))]"
    by (simp add: executeTask_def Let_def)
  assume c: "c \<noteq> AwaitStart None"
  show "\<exists>l. log (snd (resume env i c s)) = log s @ l \<and> (\<forall>x. RunAgent x \<notin> set l)"
  proof (cases "(env, i, c, s)" rule: resume.cases)
    case (1 env' i' s0)
    with c show ?thesis by simp
  next
    case (2 env' i' m s0)
    with catchBlock_log [of env i m s] show ?thesis by (simp add: split_beta)
  next
    case (3 env' i' v s0)
    define s2 where "s2 = (updTask i (\<lambda>t. t\<lparr>status := Completed, result := Some v\<rparr>) s)
        \<lparr>results := (results s)(tid ((tasks s)[i := (tasks s ! i)\<lparr>status := Completed, result := Some v\<rparr>] ! i) \<mapsto> v)\<rparr>"
    have "log s2 = log s" by (simp add: s2_def)
    with notify_log [of env "MsgComplete (name (tasks s2 ! i))" s2] 3 show ?thesis
      by (simp add: split_beta Let_def notifyTaskComplete_def s2_def)
  next
    case (4 env' i' m s0)
    with catchBlock_log [of env i m s] show ?thesis by (simp add: split_beta)
  next
    case (5 env' i' s0)
    then show ?thesis by simp
  next
    case (6 env' i' m s0)
    with catchBlock_log [of env i m s] show ?thesis by (simp add: split_beta)
  next
    case (7 env' i' s0)
    then show ?thesis by simp
  next
    case (8 env' i' m s0)
    then show ?thesis by simp
  qed
qed

lemma executorResult_stable:
  assumes "executorResult env ts s i = Some v" and "log s' = log s @ l"
    and "\<forall>d\<in>set (dependencies (ts ! i)). results s' d = results s d"
  shows "executorResult env ts s' i = Some v"
proof -
  let ?x = "RunAgent (tid (ts ! i))"
  from assms(1) have mem: "?x \<in> set (log s)"
    unfolding executorResult_def by (simp split: if_splits)
  then have tw: "takeWhile (\<lambda>e. e \<noteq> ?x) (log s @ l) = takeWhile (\<lambda>e. e \<noteq> ?x) (log s)"
    by (intro takeWhile_append1 [of ?x]) simp_all
  have mp: "map (\<lambda>depId. (depId, results s' depId)) (dependencies (ts ! i))
      = map (\<lambda>depId. (depId, results s depId)) (dependencies (ts ! i))"
    using assms(3) by simp
  have "executorResult env ts s' i = executorResult env ts s i"
    unfolding executorResult_def assms(2) tw mp using mem by simp
  with assms(1) show ?thesis by simp
qed

lemma executorResult_call:
  assumes "RunAgent (tid (ts ! i)) \<notin> set (log s)"
    and "log s' = log s @ [RunAgent (tid (ts ! i))]" and "results s' = results s"
    and "agent env (log s) ((ts ! i)\<lparr>status := Running\<rparr>)
           (map (\<lambda>depId. (depId, results s depId)) (dependencies (ts ! i))) = Inr v"
  shows "executorResult env ts s' i = Some v"
proof -
  let ?x = "RunAgent (tid (ts ! i))"
  have "takeWhile (\<lambda>e. e \<noteq> ?x) (log s @ [?x]) = log s"
    using assms(1) by (subst takeWhile_append2) auto
  with assms show ?thesis unfolding executorResult_def by simp
qed

lemma frame_update:
  assumes "frame ts T"
    and "t\<lparr>status := Pending, result := None, error := None\<rparr>
           = (T ! i)\<lparr>status := Pending, result := None, error := None\<rparr>"
  shows "frame ts (T[i := t])"
  unfolding frame_def
proof (intro conjI allI impI)
  show "length (T[i := t]) = length ts" using assms(1) by (simp add: frame_def)
  fix j assume j: "j < length ts"
  with assms(1) have "j < length T" and "(T ! j)\<lparr>status := Pending, result := None, error := None\<rparr> = ts ! j"
    by (simp_all add: frame_def)
  with assms(2) show "(T[i := t] ! j)\<lparr>status := Pending, result := None, error := None\<rparr> = ts ! j"
    by (cases "j = i") simp_all
qed

lemma frame_propagate:
  assumes "frame ts T"
  shows "frame ts (markDependentTasksAsFailed f T)"
  unfolding frame_def
proof (intro conjI allI impI)
  show "length (markDependentTasksAsFailed f T) = length ts" using assms by (simp add: frame_def)
  fix j assume j: "j < length ts"
  with assms have jl: "j < length T"
    and e: "(T ! j)\<lparr>status := Pending, result := None, error := None\<rparr> = ts ! j"
    by (simp_all add: frame_def)
  from markDependentTasksAsFailed_nth [OF jl, of f] e
  show "(markDependentTasksAsFailed f T ! j)\<lparr>status := Pending, result := None, error := None\<rparr> = ts ! j"
    by (auto simp: markFailed_def)
qed

lemma frame_resume: "frame ts (tasks s) \<Longrightarrow> frame ts (tasks (snd (resume env i c s)))"
proof -
  assume f: "frame ts (tasks s)"
  obtain r s' where rs: "resume env i c s = (r, s')" by (cases "resume env i c s")
  from rs have "frame ts (tasks s')"
  proof (cases rule: resume_cases)
    case (exec out)
    with f show ?thesis by simp
  next
    case (catch m out)
    with frame_update [OF f, of "(tasks s ! i)\<lparr>status := Failed, error := Some m\<rparr>" i]
    show ?thesis by simp
  next
    case (complete v out)
    with frame_update [OF f, of "(tasks s ! i)\<lparr>status := Completed, result := Some v\<rparr>" i]
    show ?thesis by simp
  next
    case finished
    with f show ?thesis by simp
  next
    case propagate
    with frame_propagate [OF f] show ?thesis by simp
  next
    case (abort m)
    with f show ?thesis by simp
  qed
  with rs show ?thesis by simp
qed

lemma frame_startTask: "frame ts (tasks s) \<Longrightarrow> frame ts (tasks (snd (startTask env i s)))"
  using frame_update [of ts "tasks s" "(tasks s ! i)\<lparr>status := Running\<rparr>" i]
  by (simp add: startTask_fields)

lemma frame_fields:
  assumes "frame ts T" and "i < length ts"
  shows "tid (T ! i) = tid (ts ! i)" and "dependencies (T ! i) = dependencies (ts ! i)"
    and "i < length T"
proof -
  from assms have e: "(T ! i)\<lparr>status := Pending, result := None, error := None\<rparr> = ts ! i"
    and l: "i < length T" by (simp_all add: frame_def)
  from e [THEN arg_cong, of tid] show "tid (T ! i) = tid (ts ! i)" by simp
  from e [THEN arg_cong, of dependencies] show "dependencies (T ! i) = dependencies (ts ! i)" by simp
  show "i < length T" by (rule l)
qed

lemma frame_running:
  assumes "frame ts T" and "i < length ts" and "status (T ! i) = Running"
    and "result (T ! i) = None" and "error (T ! i) = None"
  shows "(ts ! i)\<lparr>status := Running\<rparr> = T ! i"
proof -
  from assms(1,2) have e: "(T ! i)\<lparr>status := Pending, result := None, error := None\<rparr> = ts ! i"
    by (simp add: frame_def)
  have "(ts ! i)\<lparr>status := Running\<rparr>
      = ((T ! i)\<lparr>status := Pending, result := None, error := None\<rparr>)\<lparr>status := Running\<rparr>"
    by (simp only: e)
  also have "\<dots> = (T ! i)\<lparr>status := Running, result := None, error := None\<rparr>" by simp
  also have "\<dots> = T ! i" using assms(3-5) by (cases "T ! i") simp
  finally show ?thesis .
qed

lemma resume_results_other:
  "d \<noteq> tid (tasks s ! i) \<Longrightarrow> results (snd (resume env i c s)) d = results s d"
proof -
  assume d: "d \<noteq> tid (tasks s ! i)"
  obtain r s' where rs: "resume env i c s = (r, s')" by (cases "resume env i c s")
  from rs have "results s' d = results s d"
    by (cases rule: resume_cases) (use d in simp_all)
  with rs show ?thesis by simp
qed

lemma InvM5_resume:
  assumes i4: "Inv4 fl s" and i2: "InvM2 (map_of fl) (tasks s) (runAgents (log s))"
    and i5: "InvM5 env ts (map_of fl) s" and k: "k < length fl"
    and res: "resume env (fst (fl ! k)) (snd (fl ! k)) s = (Inr r, s')"
  shows "InvM5 env ts (map_of (case r of None \<Rightarrow> take k fl @ drop (Suc k) fl
                                | Some c \<Rightarrow> fl[k := (fst (fl ! k), c)])) s'"
proof -
  let ?i = "fst (fl ! k)" and ?m = "map_of fl" and ?T = "tasks s"
  let ?fl' = "case r of None \<Rightarrow> take k fl @ drop (Suc k) fl | Some c \<Rightarrow> fl[k := (fst (fl ! k), c)]"
  from i4 have i3: "Inv3 fl s" and dist: "distinct (map tid ?T)" by (simp_all add: Inv4_def)
  from i3 have i1: "Inv1 fl ?T" and m3: "InvM3 ?m ?T" by (simp_all add: Inv3_def)
  from i1 have d: "distinct (map fst fl)" by (simp add: Inv1_def)
  from i5 have fr: "frame ts ?T" by (simp add: InvM5_def)
  from i5 have B: "RunAgent (tid (ts ! j)) \<notin> set (log s)"
    if "j < length ts" "status (?T ! j) = Pending \<or> (\<exists>x. ?m j = Some (AwaitStart x))" for j
    using that unfolding InvM5_def by blast
  from i5 have C: "executorResult env ts s j = Some v"
    if "j < length ts" "?m j = Some (AwaitExec (Inr v)) \<or> result (?T ! j) = Some v" for j v
    using that unfolding InvM5_def by blast
  have len: "length ?T = length ts" using fr by (simp add: frame_def)
  have mi: "?m ?i = Some (snd (fl ! k))" using d k by (rule map_of_nth)
  have il: "?i < length ts" using Inv1_index [OF i1 mi] len by simp
  have ph: "status (?T ! ?i) = phaseStatus (snd (fl ! k))" using i1 mi by (rule Inv1_phase)
  have ok: "fieldsOK (?T ! ?i)" using m3 il len unfolding InvM3_def by simp
  have s': "s' = snd (resume env ?i (snd (fl ! k)) s)" using res by simp
  have fr': "frame ts (tasks s')" unfolding s' using fr by (rule frame_resume)
  have tidf: "tid (?T ! j) = tid (ts ! j)" if "j < length ts" for j
    using fr that by (rule frame_fields)
  have depf: "dependencies (?T ! j) = dependencies (ts ! j)" if "j < length ts" for j
    using fr that by (rule frame_fields)
  have other: "tid (ts ! j) \<noteq> tid (ts ! ?i)" if "j < length ts" "j \<noteq> ?i" for j
  proof
    assume "tid (ts ! j) = tid (ts ! ?i)"
    then have "tid (?T ! j) = tid (?T ! ?i)" using that il by (simp add: tidf)
    with dist that il len show False using distinct_tid_eq [of ?T j ?i] by simp
  qed
  obtain l where l: "log s' = log s @ l"
    and l1: "snd (fl ! k) \<noteq> AwaitStart None \<Longrightarrow> \<forall>x. RunAgent x \<notin> set l"
    and l2: "snd (fl ! k) = AwaitStart None \<Longrightarrow> l = [RunAgent (tid (ts ! ?i))]"
  proof (cases "snd (fl ! k) = AwaitStart None")
    case True
    then have "log s' = log s @ [RunAgent (tid (ts ! ?i))]"
      unfolding s' using resume_log(1) [of env ?i s] il by (simp add: tidf)
    with True that show ?thesis by blast
  next
    case False
    with resume_log(2) [OF False, of env ?i s] that show ?thesis unfolding s' by blast
  qed
  have stable: "executorResult env ts s' j = Some v"
    if j: "j < length ts" and e: "executorResult env ts s j = Some v" for j v
    using e l
  proof (rule executorResult_stable)
    show "\<forall>d\<in>set (dependencies (ts ! j)). results s' d = results s d"
    proof
      fix dd assume dd: "dd \<in> set (dependencies (ts ! j))"
      from e have "RunAgent (tid (ts ! j)) \<in> set (log s)"
        unfolding executorResult_def by (simp split: if_splits)
      then have "tid (?T ! j) \<in> runAgents (log s)" using j by (simp add: runAgents_def tidf)
      with i2 j len have "depsSettled ?m ?T j" unfolding InvM2_def by simp
      with dd j obtain j' where j': "j' < length ?T" "tid (?T ! j') = dd" "?m j' = None"
        unfolding depsSettled_def by (auto simp: depf)
      with mi have "j' \<noteq> ?i" by auto
      with j' len have "dd \<noteq> tid (?T ! ?i)" using other [of j'] il by (auto simp: tidf)
      then show "results s' dd = results s dd" unfolding s' by (rule resume_results_other)
    qed
  qed
  have notrun: "RunAgent (tid (ts ! j)) \<notin> set (log s')"
    if "j < length ts" "RunAgent (tid (ts ! j)) \<notin> set (log s)" "j \<noteq> ?i" for j
  proof (cases "snd (fl ! k) = AwaitStart None")
    case True
    with l l2 that other [of j] show ?thesis by simp
  next
    case False
    with l l1 that show ?thesis by simp
  qed
  have "(\<forall>j<length ts. status (tasks s' ! j) = Pending \<or> (\<exists>x. map_of ?fl' j = Some (AwaitStart x))
          \<longrightarrow> RunAgent (tid (ts ! j)) \<notin> set (log s')) \<and>
        (\<forall>j<length ts. \<forall>v. map_of ?fl' j = Some (AwaitExec (Inr v)) \<or> result (tasks s' ! j) = Some v
          \<longrightarrow> executorResult env ts s' j = Some v)"
    using d k res
  proof (cases rule: resume_map_cases)
    case (exec out)
    from exec(1) mi have c: "snd (fl ! k) = AwaitStart None" by simp
    with ph have run: "status (?T ! ?i) = Running" by simp
    with ok have rn: "result (?T ! ?i) = None" and en: "error (?T ! ?i) = None"
      by (simp_all add: fieldsOK_def)
    have arg: "(ts ! ?i)\<lparr>status := Running\<rparr> = ?T ! ?i"
      using fr il run rn en by (rule frame_running)
    show ?thesis
    proof (intro conjI allI impI)
      fix j assume j: "j < length ts"
        and a: "status (tasks s' ! j) = Pending \<or> (\<exists>x. map_of ?fl' j = Some (AwaitStart x))"
      from a exec run have ji: "j \<noteq> ?i" by auto
      with a exec have "status (?T ! j) = Pending \<or> (\<exists>x. ?m j = Some (AwaitStart x))" by simp
      from B [OF j this] show "RunAgent (tid (ts ! j)) \<notin> set (log s')"
        using j ji by (intro notrun)
    next
      fix j v assume j: "j < length ts"
        and a: "map_of ?fl' j = Some (AwaitExec (Inr v)) \<or> result (tasks s' ! j) = Some v"
      show "executorResult env ts s' j = Some v"
      proof (cases "j = ?i")
        case True
        with a exec rn have o: "out = Inr v" by simp
        have nr: "RunAgent (tid (ts ! ?i)) \<notin> set (log s)" using il exec(1) by (intro B) simp_all
        have "executorResult env ts s' ?i = Some v"
          using nr
        proof (rule executorResult_call)
          show "log s' = log s @ [RunAgent (tid (ts ! ?i))]" using l l2 c by simp
          show "results s' = results s" by (rule exec)
          show "agent env (log s) ((ts ! ?i)\<lparr>status := Running\<rparr>)
              (map (\<lambda>depId. (depId, results s depId)) (dependencies (ts ! ?i))) = Inr v"
            using exec(6) o by (simp add: arg depf [OF il, symmetric])
        qed
        with True show ?thesis by simp
      next
        case False
        with a exec have "?m j = Some (AwaitExec (Inr v)) \<or> result (?T ! j) = Some v" by simp
        from stable [OF j C [OF j this]] show ?thesis .
      qed
    qed
  next
    case (catch m out c)
    show ?thesis
    proof (intro conjI allI impI)
      fix j assume j: "j < length ts"
        and a: "status (tasks s' ! j) = Pending \<or> (\<exists>x. map_of ?fl' j = Some (AwaitStart x))"
      from a catch il len have ji: "j \<noteq> ?i" by auto
      with a catch have "status (?T ! j) = Pending \<or> (\<exists>x. ?m j = Some (AwaitStart x))" by simp
      from B [OF j this] show "RunAgent (tid (ts ! j)) \<notin> set (log s')"
        using j ji by (intro notrun)
    next
      fix j v assume j: "j < length ts"
        and a: "map_of ?fl' j = Some (AwaitExec (Inr v)) \<or> result (tasks s' ! j) = Some v"
      from a catch il len have "?m j = Some (AwaitExec (Inr v)) \<or> result (?T ! j) = Some v"
        by (cases "j = ?i") simp_all
      from stable [OF j C [OF j this]] show "executorResult env ts s' j = Some v" .
    qed
  next
    case (complete v out)
    show ?thesis
    proof (intro conjI allI impI)
      fix j assume j: "j < length ts"
        and a: "status (tasks s' ! j) = Pending \<or> (\<exists>x. map_of ?fl' j = Some (AwaitStart x))"
      from a complete il len have ji: "j \<noteq> ?i" by auto
      with a complete have "status (?T ! j) = Pending \<or> (\<exists>x. ?m j = Some (AwaitStart x))" by simp
      from B [OF j this] show "RunAgent (tid (ts ! j)) \<notin> set (log s')"
        using j ji by (intro notrun)
    next
      fix j w assume j: "j < length ts"
        and a: "map_of ?fl' j = Some (AwaitExec (Inr w)) \<or> result (tasks s' ! j) = Some w"
      from a complete il len have "?m j = Some (AwaitExec (Inr w)) \<or> result (?T ! j) = Some w"
        by (cases "j = ?i") simp_all
      from stable [OF j C [OF j this]] show "executorResult env ts s' j = Some w" .
    qed
  next
    case finished
    show ?thesis
    proof (intro conjI allI impI)
      fix j assume j: "j < length ts"
        and a: "status (tasks s' ! j) = Pending \<or> (\<exists>x. map_of ?fl' j = Some (AwaitStart x))"
      from a finished have "status (?T ! j) = Pending \<or> (\<exists>x. ?m j = Some (AwaitStart x))"
        by (cases "j = ?i") simp_all
      from B [OF j this] finished show "RunAgent (tid (ts ! j)) \<notin> set (log s')" by simp
    next
      fix j v assume j: "j < length ts"
        and a: "map_of ?fl' j = Some (AwaitExec (Inr v)) \<or> result (tasks s' ! j) = Some v"
      from a finished have "?m j = Some (AwaitExec (Inr v)) \<or> result (?T ! j) = Some v"
        by (cases "j = ?i") simp_all
      from C [OF j this] finished show "executorResult env ts s' j = Some v" by simp
    qed
  next
    case propagate
    show ?thesis
    proof (intro conjI allI impI)
      fix j assume j: "j < length ts"
        and a: "status (tasks s' ! j) = Pending \<or> (\<exists>x. map_of ?fl' j = Some (AwaitStart x))"
      from j len have jl: "j < length ?T" by simp
      from a propagate markDependentTasksAsFailed_nth [OF jl, of "tid (?T ! ?i)"]
      have "status (?T ! j) = Pending \<or> (\<exists>x. ?m j = Some (AwaitStart x))"
        by (cases "j = ?i") (auto simp: markFailed_def)
      from B [OF j this] propagate show "RunAgent (tid (ts ! j)) \<notin> set (log s')" by simp
    next
      fix j v assume j: "j < length ts"
        and a: "map_of ?fl' j = Some (AwaitExec (Inr v)) \<or> result (tasks s' ! j) = Some v"
      from j len have jl: "j < length ?T" by simp
      from a propagate markDependentTasksAsFailed_keeps(2) [OF jl, of "tid (?T ! ?i)"]
      have "?m j = Some (AwaitExec (Inr v)) \<or> result (?T ! j) = Some v"
        by (cases "j = ?i") simp_all
      from stable [OF j C [OF j this]] show "executorResult env ts s' j = Some v" .
    qed
  qed
  with fr' show ?thesis by (simp add: InvM5_def)
qed

lemma InvM5_startTask:
  assumes i5: "InvM5 env ts m s" and il: "i < length ts"
    and ip: "status (tasks s ! i) = Pending"
  shows "InvM5 env ts (m(i \<mapsto> AwaitStart out)) (snd (startTask env i s))"
proof -
  let ?s1 = "snd (startTask env i s)"
  from i5 have fr: "frame ts (tasks s)" by (simp add: InvM5_def)
  from i5 have B: "RunAgent (tid (ts ! j)) \<notin> set (log s)"
    if "j < length ts" "status (tasks s ! j) = Pending \<or> (\<exists>x. m j = Some (AwaitStart x))" for j
    using that unfolding InvM5_def by blast
  from i5 have C: "executorResult env ts s j = Some v"
    if "j < length ts" "m j = Some (AwaitExec (Inr v)) \<or> result (tasks s ! j) = Some v" for j v
    using that unfolding InvM5_def by blast
  have len: "length (tasks s) = length ts" using fr by (simp add: frame_def)
  obtain l where l: "log ?s1 = log s @ l" and nl: "\<forall>x. RunAgent x \<notin> set l"
    using startTask_log by blast
  have t1: "tasks ?s1 = (tasks s)[i := (tasks s ! i)\<lparr>status := Running\<rparr>]"
    and r1: "results ?s1 = results s" by (simp_all add: startTask_fields)
  have "frame ts (tasks ?s1)" using fr by (rule frame_startTask)
  moreover have "RunAgent (tid (ts ! j)) \<notin> set (log ?s1)"
    if j: "j < length ts"
      and a: "status (tasks ?s1 ! j) = Pending \<or> (\<exists>x. (m(i \<mapsto> AwaitStart out)) j = Some (AwaitStart x))"
    for j
  proof -
    from a ip t1 have "status (tasks s ! j) = Pending \<or> (\<exists>x. m j = Some (AwaitStart x))"
      by (cases "j = i") simp_all
    from B [OF j this] l nl show ?thesis by simp
  qed
  moreover have "executorResult env ts ?s1 j = Some v"
    if j: "j < length ts"
      and a: "(m(i \<mapsto> AwaitStart out)) j = Some (AwaitExec (Inr v)) \<or> result (tasks ?s1 ! j) = Some v"
    for j v
  proof -
    from a t1 il len have "m j = Some (AwaitExec (Inr v)) \<or> result (tasks s ! j) = Some v"
      by (cases "j = i") simp_all
    from C [OF j this] l show ?thesis
      by (rule executorResult_stable) (simp add: r1)
  qed
  ultimately show ?thesis unfolding InvM5_def by blast
qed

lemma InvM5_dispatchAll:
  "Inv1 fl (tasks s) \<Longrightarrow> InvM5 env ts (map_of fl) s \<Longrightarrow> distinct is \<Longrightarrow>
   (\<forall>i\<in>set is. i < length (tasks s) \<and> status (tasks s ! i) = Pending) \<Longrightarrow>
   InvM5 env ts (map_of (fst (dispatchAll env is fl s))) (snd (dispatchAll env is fl s))"
proof (induction "is" arbitrary: fl s)
  case Nil
  then show ?case by simp
next
  case (Cons i "is")
  define s1 where "s1 = snd (startTask env i s)"
  define fl1 where "fl1 = fl @ [(i, fst (startTask env i s))]"
  have eq: "dispatchAll env (i # is) fl s = dispatchAll env is fl1 s1"
    by (simp add: split_beta s1_def fl1_def)
  from Cons.prems have il: "i < length (tasks s)" and ip: "status (tasks s ! i) = Pending"
    and ni: "i \<notin> set is" and dis: "distinct is" by simp_all
  from Cons.prems(2) have len: "length (tasks s) = length ts" by (simp add: InvM5_def frame_def)
  note st1 = startTask_step(1) [OF Cons.prems(1) il ip, of env, folded fl1_def s1_def]
  note st2 = startTask_step(2) [OF Cons.prems(1) il ip, of env, folded fl1_def]
  from st2 obtain out where mo: "map_of fl1 = (map_of fl)(i \<mapsto> AwaitStart out)" by blast
  have t1: "tasks s1 = (tasks s)[i := (tasks s ! i)\<lparr>status := Running\<rparr>]"
    by (simp add: s1_def startTask_fields)
  have inv: "InvM5 env ts (map_of fl1) s1"
    unfolding mo s1_def using Cons.prems(2) _ ip by (rule InvM5_startTask) (use il len in simp)
  have rest: "\<forall>j\<in>set is. j < length (tasks s1) \<and> status (tasks s1 ! j) = Pending"
  proof
    fix j assume j: "j \<in> set is"
    with ni have "j \<noteq> i" by blast
    moreover from j Cons.prems(4) have "j < length (tasks s) \<and> status (tasks s ! j) = Pending"
      by simp
    ultimately show "j < length (tasks s1) \<and> status (tasks s1 ! j) = Pending"
      by (simp add: t1)
  qed
  show ?case unfolding eq using st1 inv dis rest by (rule Cons.IH)
qed

lemma wave_Inv5:
  assumes ok: "completeNotifyOk env" and inv: "Inv5 env ts [] s"
    and aw: "awaitAll env (fst (dispatchAll env (readyIdx (tasks s)) [] s))
           (snd (dispatchAll env (readyIdx (tasks s)) [] s)) = Inr s2"
  shows "Inv5 env ts [] s2"
proof -
  let ?d = "dispatchAll env (readyIdx (tasks s)) [] s"
  from inv have i4: "Inv4 [] s" and i2: "InvM2 (map_of []) (tasks s) (runAgents (log s))"
    and i5: "InvM5 env ts (map_of []) s" by (simp_all add: Inv5_def)
  from i4 have i1: "Inv1 [] (tasks s)" by (simp add: Inv4_def Inv3_def)
  have r: "\<forall>i\<in>set (readyIdx (tasks s)). i < length (tasks s) \<and> status (tasks s ! i) = Pending \<and>
        depsSettled (map_of []) (tasks s) i"
    using readyIdx_pending [of "tasks s"] ready_depsSettled [of _ "tasks s"] by simp
  have a: "Inv4 (fst ?d) (snd ?d)"
    using i4 distinct_readyIdx readyIdx_pending by (rule Inv4_dispatchAll)
  have b: "InvM2 (map_of (fst ?d)) (tasks (snd ?d)) (runAgents (log (snd ?d)))"
    using i1 i2 distinct_readyIdx r by (rule Inv2_dispatchAll)
  have c: "InvM5 env ts (map_of (fst ?d)) (snd ?d)"
    using i1 i5 distinct_readyIdx readyIdx_pending by (rule InvM5_dispatchAll)
  have start: "Inv5 env ts (fst ?d) (snd ?d)" using a b c by (simp add: Inv5_def)
  show ?thesis
  proof (rule awaitAll_invariant [where I = "Inv5 env ts" and env = env, OF _ _ start aw])
    show "\<And>fl s x. Inv5 env ts fl (s\<lparr>sched := x\<rparr>) = Inv5 env ts fl s"
      by (simp add: Inv5_def Inv4_def Inv3_def InvM5_def executorResult_def)
    fix fl s0 k r s'
    assume I: "Inv5 env ts fl s0" and k: "k < length fl"
      and res: "resume env (fst (fl ! k)) (snd (fl ! k)) s0 = (Inr r, s')"
    let ?fl' = "case r of None \<Rightarrow> take k fl @ drop (Suc k) fl
                | Some c \<Rightarrow> fl[k := (fst (fl ! k), c)]"
    from I have j4: "Inv4 fl s0" and j2: "InvM2 (map_of fl) (tasks s0) (runAgents (log s0))"
      and j5: "InvM5 env ts (map_of fl) s0" by (simp_all add: Inv5_def)
    from j4 have j1: "Inv1 fl (tasks s0)" and jd: "distinct (map tid (tasks s0))"
      by (simp_all add: Inv4_def Inv3_def)
    have "Inv4 ?fl' s'" using ok j4 k res by (rule Inv4_resume)
    moreover have "InvM2 (map_of ?fl') (tasks s') (runAgents (log s'))"
      using j1 j2 jd k res by (rule Inv2_resume)
    moreover have "InvM5 env ts (map_of ?fl') s'" using j4 j2 j5 k res by (rule InvM5_resume)
    ultimately show "Inv5 env ts ?fl' s'" by (simp add: Inv5_def)
  qed
qed

lemma Inv5_initial:
  assumes "\<forall>t\<in>set ts. status t = Pending \<and> result t = None \<and> error t = None"
    and "distinct (map tid ts)"
  shows "Inv5 env ts [] (initRun schedule ts)"
proof -
  have "frame ts ts" using assms(1) by (simp add: frame_def)
  moreover have "result (ts ! i) \<noteq> Some v" if "i < length ts" for i v
    using assms(1) that by simp
  ultimately have "InvM5 env ts Map.empty (initRun schedule ts)"
    by (simp add: InvM5_def initRun_def)
  moreover have "InvM2 Map.empty ts {}"
    using assms(1) by (simp add: InvM2_def)
  ultimately show ?thesis
    using Inv4_initial [OF assms, of schedule]
    by (simp add: Inv5_def initRun_def runAgents_def)
qed

text \<open>
  Claim C7, for the runs in which no task-completed notification fails. When such a run,
  started from pending tasks with distinct ids that hold neither result nor error,
  returns normally, the map it returns has an entry for an id exactly when the task with
  that id is completed. The entry of a completed task is the value in its \<open>result\<close>
  field, and it is the value that the call of \<^verbatim>\<open>executeTask\<close> on that task returned during
  the run.
\<close>

theorem results_are_completed_tasks:
  assumes "completeNotifyOk env"
    and "\<forall>t\<in>set ts. status t = Pending \<and> result t = None \<and> error t = None"
    and "distinct (map tid ts)"
    and "executeTaskDAG env schedule ts = Some (Inr s')"
  shows "(\<forall>x. x \<in> dom (results s') \<longleftrightarrow> (\<exists>t\<in>set (tasks s'). tid t = x \<and> status t = Completed)) \<and>
         length (tasks s') = length ts \<and>
         (\<forall>i<length ts. tid (tasks s' ! i) = tid (ts ! i) \<and>
            (status (tasks s' ! i) = Completed \<longrightarrow>
               (\<exists>v. results s' (tid (ts ! i)) = Some v \<and> result (tasks s' ! i) = Some v \<and>
                    executorResult env ts s' i = Some v)))"
proof -
  have "Inv5 env ts [] s' \<and> readyIdx (tasks s') = [] \<and>
        \<not> list_ex (\<lambda>t. status t = Running) (tasks s')"
  proof (rule schedulingLoop_invariant [where I = "Inv5 env ts []" and env = env
        and s = "initRun schedule ts"])
    show "schedulingLoop env (initRun schedule ts) = Some (Inr s')"
      using assms(4) by (simp add: executeTaskDAG_def)
    show "Inv5 env ts [] (initRun schedule ts)" using assms(2,3) by (rule Inv5_initial)
    show "\<And>s s2. Inv5 env ts [] s \<Longrightarrow> readyIdx (tasks s) \<noteq> [] \<Longrightarrow>
        awaitAll env (fst (dispatchAll env (readyIdx (tasks s)) [] s))
          (snd (dispatchAll env (readyIdx (tasks s)) [] s)) = Inr s2 \<Longrightarrow> Inv5 env ts [] s2"
      using wave_Inv5 [OF assms(1)] by blast
  qed
  then have i3: "InvM3 Map.empty (tasks s')" and i4: "InvM4 (tasks s') (results s')"
    and i5: "InvM5 env ts Map.empty s'"
    by (simp_all add: Inv5_def Inv4_def Inv3_def)
  let ?ts = "tasks s'"
  from i5 have fr: "frame ts ?ts" by (simp add: InvM5_def)
  then have len: "length ?ts = length ts" by (simp add: frame_def)
  have fields: "fieldsOK (?ts ! k)" if "k < length ?ts" for k
    using i3 that unfolding InvM3_def by blast
  have entry: "results s' (tid (?ts ! k)) = result (?ts ! k)" if "k < length ?ts" for k
    using i4 that unfolding InvM4_def by blast
  have compl: "status (?ts ! k) = Completed \<longleftrightarrow> result (?ts ! k) \<noteq> None" if "k < length ?ts" for k
    using fields [OF that] by (cases "status (?ts ! k)") (auto simp: fieldsOK_def)
  show ?thesis
  proof (intro conjI allI impI)
    fix x
    show "x \<in> dom (results s') \<longleftrightarrow> (\<exists>t\<in>set ?ts. tid t = x \<and> status t = Completed)"
    proof
      assume x: "x \<in> dom (results s')"
      with i4 have "x \<in> tid ` set ?ts" unfolding InvM4_def by blast
      then obtain k where k: "k < length ?ts" "tid (?ts ! k) = x"
        by (auto simp: in_set_conv_nth)
      from x k(2) have "results s' (tid (?ts ! k)) \<noteq> None" by (simp add: domIff)
      then have "result (?ts ! k) \<noteq> None" using entry [OF k(1)] by simp
      with compl [OF k(1)] k show "\<exists>t\<in>set ?ts. tid t = x \<and> status t = Completed"
        by (intro bexI [of _ "?ts ! k"]) simp_all
    next
      assume "\<exists>t\<in>set ?ts. tid t = x \<and> status t = Completed"
      then obtain k where k: "k < length ?ts" "tid (?ts ! k) = x" "status (?ts ! k) = Completed"
        by (auto simp: in_set_conv_nth)
      with compl [OF k(1)] have "result (?ts ! k) \<noteq> None" by simp
      then have "results s' (tid (?ts ! k)) \<noteq> None" using entry [OF k(1)] by simp
      with k(2) show "x \<in> dom (results s')" by (simp add: domIff)
    qed
  next
    show "length ?ts = length ts" by (rule len)
  next
    fix i assume i: "i < length ts"
    show "tid (?ts ! i) = tid (ts ! i)" using fr i by (rule frame_fields)
  next
    fix i assume i: "i < length ts" and c: "status (?ts ! i) = Completed"
    from i len have il: "i < length ?ts" by simp
    with compl [OF il] c obtain v where v: "result (?ts ! i) = Some v" by auto
    have "executorResult env ts s' i = Some v"
      using i5 i v unfolding InvM5_def by blast
    moreover have "results s' (tid (ts ! i)) = Some v"
      using entry [OF il] v frame_fields(1) [OF fr i] by simp
    ultimately show "\<exists>v. results s' (tid (ts ! i)) = Some v \<and> result (?ts ! i) = Some v \<and>
        executorResult env ts s' i = Some v" using v by simp
  qed
qed

theorem results_are_completed_tasks_witness:
  "completeNotifyOk quietEnv \<and>
   executeTaskDAG quietEnv [] twoTasks =
     Some (Inr
       \<lparr>tasks = [(mkTask ''a'' [] Pending)\<lparr>status := Completed, result := Some 0\<rparr>,
                 (mkTask ''b'' [''a''] Pending)\<lparr>status := Completed, result := Some 1\<rparr>],
        results = [''a'' \<mapsto> 0, ''b'' \<mapsto> 1],
        log = [RunAgent ''a'', RunAgent ''b''], sched = []\<rparr>) \<and>
   ''b'' \<in> dom [''a'' \<mapsto> 0 :: nat, ''b'' \<mapsto> 1] \<and>
   executorResult quietEnv twoTasks
       \<lparr>tasks = [(mkTask ''a'' [] Pending)\<lparr>status := Completed, result := Some 0\<rparr>,
                 (mkTask ''b'' [''a''] Pending)\<lparr>status := Completed, result := Some 1\<rparr>],
        results = [''a'' \<mapsto> 0, ''b'' \<mapsto> 1],
        log = [RunAgent ''a'', RunAgent ''b''], sched = []\<rparr> 1 = Some 1"
proof -
  let ?s' = "\<lparr>tasks = [(mkTask ''a'' [] Pending)\<lparr>status := Completed, result := Some 0\<rparr>,
                 (mkTask ''b'' [''a''] Pending)\<lparr>status := Completed, result := Some 1\<rparr>],
        results = [''a'' \<mapsto> 0 :: nat, ''b'' \<mapsto> 1],
        log = [RunAgent ''a'', RunAgent ''b''], sched = []\<rparr>"
  have ok: "completeNotifyOk quietEnv"
    by (simp add: completeNotifyOk_def notifyTaskComplete_def notify_def quietEnv_def)
  have fresh: "\<forall>t\<in>set twoTasks. status t = Pending \<and> result t = None \<and> error t = None"
    by (simp add: twoTasks_def mkTask_def)
  have d: "distinct (map tid twoTasks)" by (simp add: twoTasks_def mkTask_def)
  have run: "executeTaskDAG quietEnv [] twoTasks = Some (Inr ?s')"
    by (simp add: run_simps quietEnv_def twoTasks_def mkTask_def upt_0_2)
  note T = results_are_completed_tasks [OF ok fresh d run]
  let ?b = "(mkTask ''b'' [''a''] Pending)\<lparr>status := Completed, result := Some 1\<rparr>"
  have b: "?b \<in> set (tasks ?s')" "status ?b = Completed" "tid ?b = ''b''"
    by (simp_all add: mkTask_def)
  with T have m: "''b'' \<in> dom (results ?s')" by blast
  have "(1::nat) < length twoTasks" "status (tasks ?s' ! 1) = Completed"
    by (simp_all add: twoTasks_def mkTask_def)
  with T obtain v where "result (tasks ?s' ! 1) = Some v" "executorResult quietEnv twoTasks ?s' 1 = Some v"
    by blast
  then have "executorResult quietEnv twoTasks ?s' 1 = Some 1" by (simp add: mkTask_def)
  with ok run m show ?thesis by simp
qed

section \<open>Dispatch in the configurations of a run\<close>

lemma graphOf_nth:
  assumes "graphOf ts' = graphOf ts"
  shows "length ts' = length ts"
    and "j < length ts \<Longrightarrow> tid (ts' ! j) = tid (ts ! j)"
    and "j < length ts \<Longrightarrow> dependencies (ts' ! j) = dependencies (ts ! j)"
proof -
  from assms [THEN arg_cong, of length] show l: "length ts' = length ts" by (simp add: graphOf_def)
  assume j: "j < length ts"
  from assms have "graphOf ts' ! j = graphOf ts ! j" by simp
  with j l show "tid (ts' ! j) = tid (ts ! j)" by (simp add: graphOf_def)
  from assms have "graphOf ts' ! j = graphOf ts ! j" by simp
  with j l show "dependencies (ts' ! j) = dependencies (ts ! j)" by (simp add: graphOf_def)
qed

lemma settled_depDone: "settled m ts d \<Longrightarrow> depDone ts d"
  unfolding settled_def depDone_def by blast

lemma settled_mono:
  assumes s: "settled m ts d" and g: "graphOf ts' = graphOf ts"
    and keep: "\<And>j. j < length ts \<Longrightarrow> status (ts ! j) = Completed \<Longrightarrow> m j = None \<Longrightarrow>
                ts' ! j = ts ! j \<and> m' j = None"
  shows "settled m' ts' d"
proof -
  from s obtain j where j: "j < length ts" "tid (ts ! j) = d" "status (ts ! j) = Completed"
      "m j = None" and last: "\<forall>k<length ts. j < k \<longrightarrow> tid (ts ! k) \<noteq> d"
    unfolding settled_def by blast
  note G = graphOf_nth [OF g]
  from keep [OF j(1,3,4)] have k: "ts' ! j = ts ! j" "m' j = None" by simp_all
  show ?thesis
    unfolding settled_def
  proof (intro exI [of _ j] conjI allI impI)
    show "j < length ts'" using j G(1) by simp
    show "tid (ts' ! j) = d" using k j by simp
    show "status (ts' ! j) = Completed" using k j by simp
    show "m' j = None" by (rule k)
    fix k' assume "k' < length ts'" "j < k'"
    with last G show "tid (ts' ! k') \<noteq> d" by simp
  qed
qed

lemma InvK_initial: "InvK ts0 Map.empty ts0"
  by (simp add: InvK_def)

lemma InvK_update:
  assumes inv: "InvK ts0 m ts" and mi: "m i = Some c0"
    and t: "tid t = tid (ts ! i)" "dependencies t = dependencies (ts ! i)"
    and st: "status t = phaseStatus c"
  shows "InvK ts0 (m(i \<mapsto> c)) (ts[i := t])"
proof -
  from inv have g: "graphOf ts = graphOf ts0"
    and K3: "\<And>j c. m j = Some c \<Longrightarrow>
        j < length ts0 \<and> status (ts0 ! j) = Pending \<and> status (ts ! j) = phaseStatus c"
    and K4: "\<And>j. j < length ts0 \<Longrightarrow> status (ts0 ! j) \<noteq> Pending \<Longrightarrow> ts ! j = ts0 ! j"
    and K5: "\<And>j. j < length ts0 \<Longrightarrow> status (ts0 ! j) = Pending \<Longrightarrow> status (ts ! j) = Running
        \<Longrightarrow> m j \<noteq> None"
    and K6: "\<And>j d. m j \<noteq> None \<Longrightarrow> d \<in> set (dependencies (ts ! j)) \<Longrightarrow> settled m ts d"
    unfolding InvK_def by blast+
  have len: "length ts = length ts0" using g by (rule graphOf_nth)
  from K3 [OF mi] have il: "i < length ts0" and ip: "status (ts0 ! i) = Pending" by simp_all
  have g': "graphOf (ts[i := t]) = graphOf ts" using t by (rule graphOf_update)
  show ?thesis
    unfolding InvK_def
  proof (intro conjI allI impI ballI)
    show "graphOf (ts[i := t]) = graphOf ts0" using g g' by simp
  next
    fix j c' assume a: "(m(i \<mapsto> c)) j = Some c'"
    show "j < length ts0" using a K3 il by (cases "j = i") auto
    show "status (ts0 ! j) = Pending" using a K3 ip by (cases "j = i") auto
    show "status (ts[i := t] ! j) = phaseStatus c'"
      using a K3 [of j c'] st il len by (cases "j = i") auto
  next
    fix j assume "j < length ts0" "status (ts0 ! j) \<noteq> Pending"
    with K4 [of j] ip show "ts[i := t] ! j = ts0 ! j" by (cases "j = i") auto
  next
    fix j assume "j < length ts0" and "status (ts0 ! j) = Pending \<and> status (ts[i := t] ! j) = Running"
    with K5 [of j] show "(m(i \<mapsto> c)) j \<noteq> None" by (cases "j = i") auto
  next
    fix j d assume a: "(m(i \<mapsto> c)) j \<noteq> None" and d: "d \<in> set (dependencies (ts[i := t] ! j))"
    from a mi have mj: "m j \<noteq> None" by (cases "j = i") auto
    from d t il len have "d \<in> set (dependencies (ts ! j))" by (cases "j = i") auto
    with mj have "settled m ts d" by (rule K6)
    then show "settled (m(i \<mapsto> c)) (ts[i := t]) d"
      using g'
    proof (rule settled_mono)
      fix j' assume "j' < length ts" "status (ts ! j') = Completed" "m j' = None"
      with mi show "ts[i := t] ! j' = ts ! j' \<and> (m(i \<mapsto> c)) j' = None"
        by (cases "j' = i") auto
    qed
  qed
qed

lemma InvK_remove:
  assumes inv: "InvK ts0 m ts" and mi: "m i = Some c" and st: "phaseStatus c \<noteq> Running"
  shows "InvK ts0 (m(i := None)) ts"
proof -
  from inv have g: "graphOf ts = graphOf ts0"
    and K3: "\<And>j c. m j = Some c \<Longrightarrow>
        j < length ts0 \<and> status (ts0 ! j) = Pending \<and> status (ts ! j) = phaseStatus c"
    and K4: "\<And>j. j < length ts0 \<Longrightarrow> status (ts0 ! j) \<noteq> Pending \<Longrightarrow> ts ! j = ts0 ! j"
    and K5: "\<And>j. j < length ts0 \<Longrightarrow> status (ts0 ! j) = Pending \<Longrightarrow> status (ts ! j) = Running
        \<Longrightarrow> m j \<noteq> None"
    and K6: "\<And>j d. m j \<noteq> None \<Longrightarrow> d \<in> set (dependencies (ts ! j)) \<Longrightarrow> settled m ts d"
    unfolding InvK_def by blast+
  from K3 [OF mi] st have nr: "status (ts ! i) \<noteq> Running" by simp
  show ?thesis
    unfolding InvK_def
  proof (intro conjI allI impI ballI)
    show "graphOf ts = graphOf ts0" by (rule g)
  next
    fix j c' assume a: "(m(i := None)) j = Some c'"
    then have "m j = Some c'" by (cases "j = i") auto
    from K3 [OF this] show "j < length ts0" "status (ts0 ! j) = Pending"
      "status (ts ! j) = phaseStatus c'" by simp_all
  next
    fix j assume "j < length ts0" "status (ts0 ! j) \<noteq> Pending"
    then show "ts ! j = ts0 ! j" by (rule K4)
  next
    fix j assume "j < length ts0" and "status (ts0 ! j) = Pending \<and> status (ts ! j) = Running"
    with K5 [of j] nr show "(m(i := None)) j \<noteq> None" by (cases "j = i") auto
  next
    fix j d assume a: "(m(i := None)) j \<noteq> None" and d: "d \<in> set (dependencies (ts ! j))"
    from a have "m j \<noteq> None" by (cases "j = i") auto
    then have "settled m ts d" using d by (rule K6)
    then show "settled (m(i := None)) ts d"
      by (rule settled_mono) auto
  qed
qed

lemma InvK_propagate:
  assumes inv: "InvK ts0 m ts"
  shows "InvK ts0 m (markDependentTasksAsFailed f ts)"
proof -
  let ?ts' = "markDependentTasksAsFailed f ts"
  from inv have g: "graphOf ts = graphOf ts0"
    and K3: "\<And>j c. m j = Some c \<Longrightarrow>
        j < length ts0 \<and> status (ts0 ! j) = Pending \<and> status (ts ! j) = phaseStatus c"
    and K4: "\<And>j. j < length ts0 \<Longrightarrow> status (ts0 ! j) \<noteq> Pending \<Longrightarrow> ts ! j = ts0 ! j"
    and K5: "\<And>j. j < length ts0 \<Longrightarrow> status (ts0 ! j) = Pending \<Longrightarrow> status (ts ! j) = Running
        \<Longrightarrow> m j \<noteq> None"
    and K6: "\<And>j d. m j \<noteq> None \<Longrightarrow> d \<in> set (dependencies (ts ! j)) \<Longrightarrow> settled m ts d"
    unfolding InvK_def by blast+
  have len: "length ts = length ts0" using g by (rule graphOf_nth)
  have same: "?ts' ! j = ts ! j" if "j < length ts" "status (ts ! j) \<noteq> Pending" for j
    using markDependentTasksAsFailed_nth [OF that(1), of f] that(2) by auto
  have g': "graphOf ?ts' = graphOf ts" by simp
  have np: "phaseStatus c \<noteq> Pending" for c :: "'a cont" by (cases c) simp_all
  show ?thesis
    unfolding InvK_def
  proof (intro conjI allI impI ballI)
    show "graphOf ?ts' = graphOf ts0" using g by simp
  next
    fix j c assume a: "m j = Some c"
    from K3 [OF a] show "j < length ts0" "status (ts0 ! j) = Pending" by simp_all
    from K3 [OF a] np [of c] len have "?ts' ! j = ts ! j" by (intro same) simp_all
    with K3 [OF a] show "status (?ts' ! j) = phaseStatus c" by simp
  next
    fix j assume j: "j < length ts0" "status (ts0 ! j) \<noteq> Pending"
    from K4 [OF j] j len have "?ts' ! j = ts ! j" by (intro same) simp_all
    with K4 [OF j] show "?ts' ! j = ts0 ! j" by simp
  next
    fix j assume j: "j < length ts0" and "status (ts0 ! j) = Pending \<and> status (?ts' ! j) = Running"
    with markDependentTasksAsFailed_nth [of j ts f] len
    have "status (ts0 ! j) = Pending" "status (ts ! j) = Running" by (auto simp: markFailed_def)
    with j show "m j \<noteq> None" by (intro K5)
  next
    fix j d assume a: "m j \<noteq> None" and d: "d \<in> set (dependencies (?ts' ! j))"
    from a obtain c where "m j = Some c" by blast
    from K3 [OF this] len have "j < length ts" by simp
    with d graphOf_nth(3) [OF g', of j] have "d \<in> set (dependencies (ts ! j))" by simp
    with a have "settled m ts d" by (rule K6)
    then show "settled m ?ts' d"
      using g' by (rule settled_mono) (simp add: same)
  qed
qed

lemma InvK_resume:
  assumes inv: "InvK ts0 (map_of fl) (tasks s)" and d: "distinct (map fst fl)"
    and k: "k < length fl"
    and res: "resume env (fst (fl ! k)) (snd (fl ! k)) s = (Inr r, s')"
  shows "InvK ts0 (map_of (case r of None \<Rightarrow> take k fl @ drop (Suc k) fl
                            | Some c \<Rightarrow> fl[k := (fst (fl ! k), c)])) (tasks s')"
proof -
  let ?i = "fst (fl ! k)" and ?m = "map_of fl" and ?ts = "tasks s"
  have mi: "?m ?i = Some (snd (fl ! k))" using d k by (rule map_of_nth)
  from d k res show ?thesis
  proof (cases rule: resume_map_cases)
    case (exec out)
    have "InvK ts0 (?m(?i \<mapsto> AwaitExec out)) (?ts[?i := ?ts ! ?i])"
      using inv exec(1)
    proof (rule InvK_update)
      from inv exec(1) show "status (?ts ! ?i) = phaseStatus (AwaitExec out)"
        unfolding InvK_def by fastforce
    qed simp_all
    with exec show ?thesis by simp
  next
    case (catch m out c)
    have "InvK ts0 (?m(?i \<mapsto> AwaitFailed out))
            (?ts[?i := (?ts ! ?i)\<lparr>status := Failed, error := Some m\<rparr>])"
      using inv catch(1) by (rule InvK_update) simp_all
    with catch show ?thesis by simp
  next
    case (complete v out)
    have "InvK ts0 (?m(?i \<mapsto> AwaitComplete out))
            (?ts[?i := (?ts ! ?i)\<lparr>status := Completed, result := Some v\<rparr>])"
      using inv complete(1) by (rule InvK_update) simp_all
    with complete show ?thesis by simp
  next
    case finished
    have "InvK ts0 (?m(?i := None)) ?ts" using inv finished(1) by (rule InvK_remove) simp
    with finished show ?thesis by simp
  next
    case propagate
    have "InvK ts0 ?m (markDependentTasksAsFailed (tid (?ts ! ?i)) ?ts)"
      using inv by (rule InvK_propagate)
    then have "InvK ts0 (?m(?i := None)) (markDependentTasksAsFailed (tid (?ts ! ?i)) ?ts)"
      using propagate(1) by (rule InvK_remove) simp
    with propagate show ?thesis by simp
  qed
qed

lemma dispatchAll_callbacks:
  "map fst (fst (dispatchAll env is fl s)) = map fst fl @ is \<and>
   (\<forall>p\<in>set (fst (dispatchAll env is fl s)). p \<in> set fl \<or> (\<exists>out. snd p = AwaitStart out))"
proof (induction "is" arbitrary: fl s)
  case Nil
  then show ?case by simp
next
  case (Cons i "is")
  obtain out where out: "fst (startTask env i s) = AwaitStart out"
    using startTask_fields(5) by blast
  from Cons.IH [of "fl @ [(i, fst (startTask env i s))]" "snd (startTask env i s)"] out
  show ?case by (auto simp: split_beta)
qed

lemma InvK_dispatch:
  assumes inv: "InvK ts0 Map.empty (tasks s)"
  shows "InvK ts0 (map_of (fst (dispatchAll env (readyIdx (tasks s)) [] s)))
           (tasks (snd (dispatchAll env (readyIdx (tasks s)) [] s)))"
proof -
  let ?ts = "tasks s" and ?R = "readyIdx (tasks s)"
  let ?fl = "fst (dispatchAll env ?R [] s)" and ?ts' = "tasks (snd (dispatchAll env ?R [] s))"
  let ?m = "map_of ?fl"
  from inv have g: "graphOf ?ts = graphOf ts0"
    and K4: "\<And>j. j < length ts0 \<Longrightarrow> status (ts0 ! j) \<noteq> Pending \<Longrightarrow> ?ts ! j = ts0 ! j"
    and K5: "\<And>j. j < length ts0 \<Longrightarrow> status (ts0 ! j) = Pending \<Longrightarrow> status (?ts ! j) \<noteq> Running"
    unfolding InvK_def by auto
  have len: "length ?ts = length ts0" using g by (rule graphOf_nth)
  note D = dispatchAll_tasks [OF distinct_readyIdx, where ts1 = ?ts and env = env and fl = "[]" and s = s]
  note C = dispatchAll_callbacks [of env ?R "[]" s]
  have g': "graphOf ?ts' = graphOf ?ts" by (rule dispatchAll_graphOf)
  have nth: "?ts' ! j = (if j \<in> set ?R then (?ts ! j)\<lparr>status := Running\<rparr> else ?ts ! j)"
    if "j < length ?ts" for j using D that by simp
  have dom: "?m j \<noteq> None \<longleftrightarrow> j \<in> set ?R" for j
  proof -
    have "?m j \<noteq> None \<longleftrightarrow> j \<in> fst ` set ?fl" by (simp add: map_of_eq_None_iff)
    also have "fst ` set ?fl = set (map fst ?fl)" by simp
    also have "\<dots> = set ?R" using C by simp
    finally show ?thesis .
  qed
  have val: "\<exists>out. c = AwaitStart out" if "?m j = Some c" for j c
  proof -
    from that have "(j, c) \<in> set ?fl" by (rule map_of_SomeD)
    with C show ?thesis by auto
  qed
  have ready: "j < length ?ts \<and> status (?ts ! j) = Pending \<and>
      (\<forall>d\<in>set (dependencies (?ts ! j)). depDone ?ts d)" if "j \<in> set ?R" for j
    using that by (simp add: readyIdx_mem isReady_depDone)
  have pend0: "status (ts0 ! j) = Pending" if "j \<in> set ?R" for j
  proof (rule ccontr)
    assume "status (ts0 ! j) \<noteq> Pending"
    with K4 [of j] ready [OF that] len show False by simp
  qed
  show ?thesis
    unfolding InvK_def
  proof (intro conjI allI impI ballI)
    show "graphOf ?ts' = graphOf ts0" using g g' by simp
  next
    fix j c assume a: "?m j = Some c"
    then have jr: "j \<in> set ?R" using dom [of j] by auto
    from ready [OF jr] len show "j < length ts0" by simp
    show "status (ts0 ! j) = Pending" using jr by (rule pend0)
    from val [OF a] obtain out where "c = AwaitStart out" by blast
    with nth [of j] ready [OF jr] jr show "status (?ts' ! j) = phaseStatus c" by simp
  next
    fix j assume j: "j < length ts0" "status (ts0 ! j) \<noteq> Pending"
    with pend0 [of j] have "j \<notin> set ?R" by blast
    with nth [of j] j len K4 [OF j] show "?ts' ! j = ts0 ! j" by simp
  next
    fix j assume j: "j < length ts0" and a: "status (ts0 ! j) = Pending \<and> status (?ts' ! j) = Running"
    show "?m j \<noteq> None"
    proof (cases "j \<in> set ?R")
      case True
      with dom [of j] show ?thesis by blast
    next
      case False
      with nth [of j] j len a have "status (?ts ! j) = Running" by simp
      with K5 [OF j] a show ?thesis by simp
    qed
  next
    fix j d assume a: "?m j \<noteq> None" and d: "d \<in> set (dependencies (?ts' ! j))"
    from a have jr: "j \<in> set ?R" using dom [of j] by blast
    from ready [OF jr] have jl: "j < length ?ts" by simp
    with d graphOf_nth(3) [OF g', of j] have "d \<in> set (dependencies (?ts ! j))" by simp
    with ready [OF jr] have "depDone ?ts d" by blast
    then obtain j' where j': "j' < length ?ts" "tid (?ts ! j') = d" "status (?ts ! j') = Completed"
      and last: "\<forall>k<length ?ts. j' < k \<longrightarrow> tid (?ts ! k) \<noteq> d"
      unfolding depDone_def by blast
    from j' ready [of j'] have nr: "j' \<notin> set ?R" by auto
    note G = graphOf_nth [OF g']
    show "settled ?m ?ts' d"
      unfolding settled_def
    proof (intro exI [of _ j'] conjI allI impI)
      show "j' < length ?ts'" using j' G(1) by simp
      show "tid (?ts' ! j') = d" using j' G(2) [of j'] by simp
      show "status (?ts' ! j') = Completed" using nth [of j'] j' nr by simp
      show "?m j' = None" using dom [of j'] nr by blast
      fix k assume "k < length ?ts'" "j' < k"
      with last G show "tid (?ts' ! k) \<noteq> d" by simp
    qed
  qed
qed

lemma reachable_InvK_aux:
  "x \<in> reachable env s0 \<Longrightarrow>
   distinct (map fst (fst x)) \<and> InvK (tasks s0) (map_of (fst x)) (tasks (snd x))"
proof (induction rule: reachable.induct)
  case head
  show ?case by (simp add: InvK_initial)
next
  case (wave s)
  let ?d = "dispatchAll env (readyIdx (tasks s)) [] s"
  from wave.IH have "InvK (tasks s0) Map.empty (tasks s)" by simp
  then have "InvK (tasks s0) (map_of (fst ?d)) (tasks (snd ?d))" by (rule InvK_dispatch)
  moreover have "distinct (map fst (fst ?d))"
    using dispatchAll_callbacks [of env "readyIdx (tasks s)" "[]" s] by (simp add: distinct_readyIdx)
  ultimately show ?case by simp
next
  case (step fl s k r s')
  from step.IH have d: "distinct (map fst fl)"
    and inv: "InvK (tasks s0) (map_of fl) (tasks (s\<lparr>sched := tl (sched s)\<rparr>))" by simp_all
  have kl: "k < length fl" using step.hyps(2,3) by (simp add: nextUp_less)
  have "InvK (tasks s0) (map_of (case r of None \<Rightarrow> take k fl @ drop (Suc k) fl
                            | Some c \<Rightarrow> fl[k := (fst (fl ! k), c)])) (tasks s')"
    using inv d kl step.hyps(4) by (rule InvK_resume)
  moreover have "distinct (map fst (case r of None \<Rightarrow> take k fl @ drop (Suc k) fl
                            | Some c \<Rightarrow> fl[k := (fst (fl ! k), c)]))"
  proof (cases r)
    case None
    then show ?thesis using distinct_remove [OF d, of k] by (simp only: option.simps)
  next
    case (Some c)
    then show ?thesis using d kl by (simp only: option.simps map_fst_update)
  qed
  ultimately show ?case by simp
qed

lemma reachable_InvK:
  assumes "(fl, s) \<in> reachable env s0"
  shows "distinct (map fst fl)" and "InvK (tasks s0) (map_of fl) (tasks s)"
  using reachable_InvK_aux [OF assms] by simp_all

lemma reachable_continues:
  "x \<in> reachable env s0 \<Longrightarrow>
   schedulingLoop env s0 =
     (case awaitAll env (fst x) (snd x) of Inl e \<Rightarrow> Some (Inl e) | Inr s2 \<Rightarrow> schedulingLoop env s2)"
proof (induction rule: reachable.induct)
  case head
  show ?case by (simp add: awaitAll.simps)
next
  case (wave s)
  from wave.IH have "schedulingLoop env s0 = schedulingLoop env s" by (simp add: awaitAll.simps)
  also have "\<dots> = (case awaitAll env (fst (dispatchAll env (readyIdx (tasks s)) [] s))
                          (snd (dispatchAll env (readyIdx (tasks s)) [] s)) of
                     Inl e \<Rightarrow> Some (Inl e) | Inr s2 \<Rightarrow> schedulingLoop env s2)"
    using wave.hyps(2) readyIdx_loop_condition [OF wave.hyps(2)]
    by (subst schedulingLoop.simps) (simp add: split_beta)
  finally show ?case .
next
  case (step fl s k r s')
  have "awaitAll env fl s =
      awaitAll env (case r of None \<Rightarrow> take k fl @ drop (Suc k) fl
                     | Some c \<Rightarrow> fl[k := (fst (fl ! k), c)]) s'"
    using step.hyps(2,3,4) by (subst awaitAll.simps) (simp add: Let_def split: option.splits)
  with step.IH show ?case by simp
qed

lemma awaitAll_reachable:
  "(fl, s) \<in> reachable env s0 \<Longrightarrow>
   (case awaitAll env fl s of
      Inr s2 \<Rightarrow> ([], s2) \<in> reachable env s0
    | Inl (m, s') \<Rightarrow>
        (\<exists>fl1 s1. (fl1, s1) \<in> reachable env s0 \<and> fl1 \<noteq> [] \<and>
           snd (fl1 ! nextUp (sched s1) (length fl1)) = AwaitFailed (Some m) \<and>
           s' = s1\<lparr>sched := tl (sched s1)\<rparr>))"
proof (induction env fl s rule: awaitAll.induct)
  case (1 env fl s)
  show ?case
  proof (cases "fl = []")
    case True
    with "1.prems" show ?thesis by (simp add: awaitAll.simps)
  next
    case False
    define k where "k = nextUp (sched s) (length fl)"
    define r where "r = resume env (fst (fl ! k)) (snd (fl ! k)) (s\<lparr>sched := tl (sched s)\<rparr>)"
    have eq: "awaitAll env fl s =
        (case fst r of Inl m \<Rightarrow> Inl (m, snd r)
         | Inr None \<Rightarrow> awaitAll env (take k fl @ drop (Suc k) fl) (snd r)
         | Inr (Some c) \<Rightarrow> awaitAll env (fl[k := (fst (fl ! k), c)]) (snd r))"
      unfolding k_def r_def using False by (subst awaitAll.simps) (simp add: Let_def)
    have rr: "resume env (fst (fl ! k)) (snd (fl ! k)) (s\<lparr>sched := tl (sched s)\<rparr>) = (fst r, snd r)"
      by (simp add: r_def)
    show ?thesis
    proof (cases "fst r")
      case (Inl m)
      from rr Inl have "snd (fl ! k) = AwaitFailed (Some m) \<and> snd r = s\<lparr>sched := tl (sched s)\<rparr>"
        by (cases rule: resume_cases) simp_all
      with "1.prems" False eq Inl show ?thesis unfolding k_def by auto
    next
      case (Inr ro)
      with rr have res: "resume env (fst (fl ! k)) (snd (fl ! k)) (s\<lparr>sched := tl (sched s)\<rparr>)
          = (Inr ro, snd r)" by simp
      note nxt = reachable.step [OF "1.prems" False k_def res]
      show ?thesis
      proof (cases ro)
        case None
        with nxt have "(take k fl @ drop (Suc k) fl, snd r) \<in> reachable env s0" by simp
        from "1.IH"(1) [OF False k_def r_def Inr None this] eq Inr None show ?thesis by simp
      next
        case (Some c)
        with nxt have "(fl[k := (fst (fl ! k), c)], snd r) \<in> reachable env s0" by simp
        from "1.IH"(2) [OF False k_def r_def Inr Some this] eq Inr Some show ?thesis by simp
      qed
    qed
  qed
qed

lemma schedulingLoop_reachable:
  fixes env :: "'a env"
  assumes res: "schedulingLoop env s0 = Some out"
  shows "case out of
           Inr s' \<Rightarrow> ([], s') \<in> reachable env s0
         | Inl (m, s') \<Rightarrow>
             (\<exists>fl1 s1. (fl1, s1) \<in> reachable env s0 \<and> fl1 \<noteq> [] \<and>
                snd (fl1 ! nextUp (sched s1) (length fl1)) = AwaitFailed (Some m) \<and>
                s' = s1\<lparr>sched := tl (sched s1)\<rparr>)"
proof -
  let ?Q = "\<lambda>y :: (string \<times> 'a run) + 'a run. case y of
           Inr s' \<Rightarrow> ([], s') \<in> reachable env s0
         | Inl (m, s') \<Rightarrow>
             (\<exists>fl1 s1. (fl1, s1) \<in> reachable env s0 \<and> fl1 \<noteq> [] \<and>
                snd (fl1 ! nextUp (sched s1) (length fl1)) = AwaitFailed (Some m) \<and>
                s' = s1\<lparr>sched := tl (sched s1)\<rparr>)"
  let ?P = "\<lambda>e s y. e = env \<longrightarrow> ([], s) \<in> reachable env s0 \<longrightarrow> ?Q y"
  have "?P env s0 out"
  proof (rule schedulingLoop.raw_induct [where P = ?P and env = env and s = s0 and y = out], goal_cases)
    case 2 show ?case by (rule res)
  next
    case prems: (1 loop e s y)
    note IH = prems(1) and body = prems(2)
    show ?case
    proof (intro impI)
      assume e: "e = env" and rs: "([], s) \<in> reachable env s0"
      let ?d = "dispatchAll env (readyIdx (tasks s)) [] s"
      show "?Q y"
      proof (cases "list_ex (\<lambda>t. status t = Pending \<or> status t = Running) (tasks s)")
        case False
        with body rs show ?thesis by auto
      next
        case True
        show ?thesis
        proof (cases "readyIdx (tasks s) = []")
          case r: True
          show ?thesis
          proof (cases "list_ex (\<lambda>t. status t = Running) (tasks s)")
            case run: True
            with True r body have "loop e s = Some y" by simp
            from IH [OF this] e rs show ?thesis by blast
          next
            case False
            with True r body rs show ?thesis by auto
          qed
        next
          case r: False
          have "?d \<in> reachable env s0" using rs r by (rule reachable.wave)
          then have "(fst ?d, snd ?d) \<in> reachable env s0" by simp
          note A = awaitAll_reachable [OF this]
          show ?thesis
          proof (cases "awaitAll env (fst ?d) (snd ?d)")
            case (Inl x)
            with True r body e have "y = Inl x" by (simp add: split_beta)
            with A Inl show ?thesis by simp
          next
            case (Inr s2)
            with True r body e have "loop e s2 = Some y" by (simp add: split_beta)
            moreover from A Inr have "([], s2) \<in> reachable env s0" by simp
            ultimately show ?thesis using IH e by blast
          qed
        qed
      qed
    qed
  qed
  then show ?thesis by (simp add: reachable.head)
qed

text \<open>
  Claim C3. In every configuration that a run goes through, whatever collection the run
  was handed: a task that was handed in pending and is running has every one of its
  dependency ids mapped by \<open>taskMap\<close> to a completed task, and a task that was handed in
  with another status is as it was, so that no task becomes running except from pending.
  The configurations are those of the run: from each of them the loop goes on to the
  outcome of \<open>executeTaskDAG\<close>, and the state in which \<open>executeTaskDAG\<close> returns, or
  throws, is the state of one of them.
\<close>

theorem no_premature_dispatch:
  "((fl, s) \<in> reachable env (initRun schedule ts) \<longrightarrow>
      executeTaskDAG env schedule ts =
        (case awaitAll env fl s of Inl e \<Rightarrow> Some (Inl e) | Inr s2 \<Rightarrow> schedulingLoop env s2) \<and>
      length (tasks s) = length ts \<and>
      (\<forall>i<length ts.
         (status (ts ! i) = Pending \<and> status (tasks s ! i) = Running \<longrightarrow>
            (\<forall>d\<in>set (dependencies (tasks s ! i)).
               \<exists>u. taskMap (tasks s) d = Some u \<and> status u = Completed)) \<and>
         (status (ts ! i) \<noteq> Pending \<longrightarrow> tasks s ! i = ts ! i))) \<and>
   (executeTaskDAG env schedule ts = Some (Inr s') \<longrightarrow>
      ([], s') \<in> reachable env (initRun schedule ts)) \<and>
   (executeTaskDAG env schedule ts = Some (Inl (m, s')) \<longrightarrow>
      (\<exists>fl1 s1. (fl1, s1) \<in> reachable env (initRun schedule ts) \<and>
         s' = s1\<lparr>sched := tl (sched s1)\<rparr>))"
proof (intro conjI impI allI)
  assume r: "(fl, s) \<in> reachable env (initRun schedule ts)"
  from reachable_continues [OF r]
  show "executeTaskDAG env schedule ts =
        (case awaitAll env fl s of Inl e \<Rightarrow> Some (Inl e) | Inr s2 \<Rightarrow> schedulingLoop env s2)"
    by (simp add: executeTaskDAG_def)
  from reachable_InvK(2) [OF r] have inv: "InvK ts (map_of fl) (tasks s)"
    by (simp add: initRun_def)
  then have g: "graphOf (tasks s) = graphOf ts" by (simp add: InvK_def)
  then show "length (tasks s) = length ts" by (rule graphOf_nth)
  fix i assume i: "i < length ts"
  show "status (ts ! i) \<noteq> Pending \<Longrightarrow> tasks s ! i = ts ! i"
    using inv i unfolding InvK_def by blast
  assume a: "status (ts ! i) = Pending \<and> status (tasks s ! i) = Running"
  with inv i have mi: "map_of fl i \<noteq> None" unfolding InvK_def by blast
  show "\<forall>d\<in>set (dependencies (tasks s ! i)). \<exists>u. taskMap (tasks s) d = Some u \<and> status u = Completed"
  proof
    fix d assume "d \<in> set (dependencies (tasks s ! i))"
    with inv mi have "settled (map_of fl) (tasks s) d" unfolding InvK_def by blast
    then have "depDone (tasks s) d" by (rule settled_depDone)
    then show "\<exists>u. taskMap (tasks s) d = Some u \<and> status u = Completed"
      by (simp add: depDone_taskMap)
  qed
next
  assume "executeTaskDAG env schedule ts = Some (Inr s')"
  then have "schedulingLoop env (initRun schedule ts) = Some (Inr s')"
    by (simp add: executeTaskDAG_def)
  from schedulingLoop_reachable [OF this]
  show "([], s') \<in> reachable env (initRun schedule ts)" by simp
next
  assume "executeTaskDAG env schedule ts = Some (Inl (m, s'))"
  then have "schedulingLoop env (initRun schedule ts) = Some (Inl (m, s'))"
    by (simp add: executeTaskDAG_def)
  from schedulingLoop_reachable [OF this]
  show "\<exists>fl1 s1. (fl1, s1) \<in> reachable env (initRun schedule ts) \<and>
         s' = s1\<lparr>sched := tl (sched s1)\<rparr>" by auto
qed

theorem no_premature_dispatch_witness:
  "([(1, AwaitStart None), (2, AwaitStart None)],
    \<lparr>tasks = [mkTask ''a'' [] Completed, mkTask ''b'' [''a''] Running, mkTask ''c'' [] Running],
     results = Map.empty, log = [], sched = []\<rparr>)
     \<in> reachable quietEnv (initRun [] readyExample) \<and>
   (\<exists>u. taskMap [mkTask ''a'' [] Completed, mkTask ''b'' [''a''] Running, mkTask ''c'' [] Running]
           ''a'' = Some u \<and> status u = Completed)"
proof -
  let ?s = "\<lparr>tasks = [mkTask ''a'' [] Completed, mkTask ''b'' [''a''] Running,
                       mkTask ''c'' [] Running],
              results = Map.empty :: string \<rightharpoonup> nat, log = [], sched = []\<rparr>"
  let ?fl = "[(1, AwaitStart None), (2, AwaitStart None)] :: (nat \<times> nat cont) list"
  have r: "readyIdx (tasks (initRun [] readyExample)) = [1, 2]"
    by (simp add: initRun_def readyExample_def readyIdx_def isReady_def taskMap_def mkTask_def
        upt_rec [of 0] upt_rec [of 1] upt_rec [of 2])
  have d: "dispatchAll quietEnv [1, 2] [] (initRun [] readyExample) = (?fl, ?s)"
    by (simp add: initRun_def readyExample_def mkTask_def quietEnv_def startTask_def
        notifyTaskStart_def notify_def updTask_def Let_def)
  have "dispatchAll quietEnv (readyIdx (tasks (initRun [] readyExample))) [] (initRun [] readyExample)
      \<in> reachable quietEnv (initRun [] readyExample)"
    by (rule reachable.wave [OF reachable.head]) (simp add: r)
  then have m: "(?fl, ?s) \<in> reachable quietEnv (initRun [] readyExample)"
    unfolding r d .
  from no_premature_dispatch [of ?fl ?s quietEnv "[]" readyExample] m
  have A: "\<forall>i<length readyExample.
         (status (readyExample ! i) = Pending \<and> status (tasks ?s ! i) = Running \<longrightarrow>
            (\<forall>d\<in>set (dependencies (tasks ?s ! i)).
               \<exists>u. taskMap (tasks ?s) d = Some u \<and> status u = Completed)) \<and>
         (status (readyExample ! i) \<noteq> Pending \<longrightarrow> tasks ?s ! i = readyExample ! i)"
    by blast
  have "(1::nat) < length readyExample" "status (readyExample ! 1) = Pending"
    "status (tasks ?s ! 1) = Running" "''a'' \<in> set (dependencies (tasks ?s ! 1))"
    by (simp_all add: readyExample_def mkTask_def)
  with A have "\<exists>u. taskMap (tasks ?s) ''a'' = Some u \<and> status u = Completed" by blast
  with m show ?thesis by simp
qed

section \<open>Failures of the notifier\<close>

lemma sendOutcome_append:
  "k < length l \<Longrightarrow> sendOutcome env (l @ l') k = sendOutcome env l k"
  by (cases "larkClient env"; cases "l ! k") (simp_all add: sendOutcome_def nth_append)

lemma failedSends_snoc:
  "failedSends env (l @ [ev]) =
     failedSends env l @
       (case ev of
          Sent chat msg \<Rightarrow>
            (case larkClient env of
               None \<Rightarrow> []
             | Some client \<Rightarrow> (case client l chat msg of None \<Rightarrow> [] | Some e \<Rightarrow> [(msg, e)]))
        | RunAgent _ \<Rightarrow> [])"
proof -
  let ?f = "\<lambda>l k. case l ! k of
                         Sent chat msg \<Rightarrow>
                           (case sendOutcome env l k of None \<Rightarrow> [] | Some e \<Rightarrow> [(msg, e)])
                       | RunAgent _ \<Rightarrow> []"
  have old: "map (?f (l @ [ev])) [0..<length l] = map (?f l) [0..<length l]"
    by (rule map_cong) (simp_all add: sendOutcome_append nth_append split: event.splits)
  have new: "?f (l @ [ev]) (length l) =
       (case ev of
          Sent chat msg \<Rightarrow>
            (case larkClient env of
               None \<Rightarrow> []
             | Some client \<Rightarrow> (case client l chat msg of None \<Rightarrow> [] | Some e \<Rightarrow> [(msg, e)]))
        | RunAgent _ \<Rightarrow> [])"
    by (simp add: sendOutcome_def split: event.splits option.splits)
  have "failedSends env (l @ [ev]) = concat (map (?f (l @ [ev])) ([0..<length l] @ [length l]))"
    by (simp add: failedSends_def)
  also have "\<dots> = concat (map (?f (l @ [ev])) [0..<length l]) @ ?f (l @ [ev]) (length l)"
    by simp
  finally show ?thesis unfolding old new by (simp add: failedSends_def)
qed

lemma notify_failedSends:
  "failedSends env (log (snd (notify env msg s))) =
     failedSends env (log s) @ (case fst (notify env msg s) of None \<Rightarrow> [] | Some e \<Rightarrow> [(msg, e)])"
  by (simp add: notify_def failedSends_snoc split: option.splits)

lemma name_update:
  "name t = name (ts ! i) \<Longrightarrow> name (ts[i := t] ! j) = name (ts ! j)"
  by (cases "i < length ts"; cases "j = i") (simp_all add: list_update_beyond)

lemma startTask_sends:
  "\<exists>out. fst (startTask env i s) = AwaitStart out \<and>
     failedSends env (log (snd (startTask env i s))) =
       failedSends env (log s) @
         (case out of None \<Rightarrow> []
          | Some e \<Rightarrow> [(MsgStart (name (tasks s ! i)) (description (tasks s ! i)), e)])"
proof -
  let ?s1 = "updTask i (\<lambda>t. t\<lparr>status := Running\<rparr>) s"
  let ?N = "notify env (MsgStart (name (tasks s ! i)) (description (tasks s ! i))) ?s1"
  have n: "name (tasks ?s1 ! i) = name (tasks s ! i)"
    and d: "description (tasks ?s1 ! i) = description (tasks s ! i)"
    by (cases "i < length (tasks s)"; simp add: list_update_beyond)+
  have "startTask env i s = (AwaitStart (fst ?N), snd ?N)"
    unfolding startTask_def notifyTaskStart_def Let_def n d by (simp add: split_beta)
  with notify_failedSends [of env _ ?s1] show ?thesis by simp
qed

lemma catchBlock_sends:
  "\<exists>out. fst (catchBlock env i e0 s) = AwaitFailed out \<and>
     failedSends env (log (snd (catchBlock env i e0 s))) =
       failedSends env (log s) @
         (case out of None \<Rightarrow> [] | Some e \<Rightarrow> [(MsgFailed (name (tasks s ! i)) e0, e)])"
proof -
  let ?s1 = "updTask i (\<lambda>t. t\<lparr>status := Failed, error := Some e0\<rparr>) s"
  let ?N = "notify env (MsgFailed (name (tasks s ! i)) e0) ?s1"
  have n: "name (tasks ?s1 ! i) = name (tasks s ! i)"
    by (cases "i < length (tasks s)"; simp add: list_update_beyond)
  have "catchBlock env i e0 s = (AwaitFailed (fst ?N), snd ?N)"
    unfolding catchBlock_def notifyTaskFailed_def Let_def n by (simp add: split_beta)
  with notify_failedSends [of env _ ?s1] show ?thesis by simp
qed

lemma complete_sends:
  "\<exists>out. fst (resume env i (AwaitExec (Inr v)) s) = Inr (Some (AwaitComplete out)) \<and>
     failedSends env (log (snd (resume env i (AwaitExec (Inr v)) s))) =
       failedSends env (log s) @
         (case out of None \<Rightarrow> [] | Some e \<Rightarrow> [(MsgComplete (name (tasks s ! i)), e)])"
proof -
  let ?s1 = "updTask i (\<lambda>t. t\<lparr>status := Completed, result := Some v\<rparr>) s"
  let ?s2 = "?s1\<lparr>results := (results ?s1)(tid (tasks ?s1 ! i) \<mapsto> v)\<rparr>"
  let ?N = "notify env (MsgComplete (name (tasks s ! i))) ?s2"
  have eq: "resume env i (AwaitExec (Inr v)) s = (Inr (Some (AwaitComplete (fst ?N))), snd ?N)"
    by (simp add: notifyTaskComplete_def Let_def split_beta name_update)
  show ?thesis unfolding eq using notify_failedSends [of env _ ?s2] by simp
qed

lemma resume_send_cases [consumes 1, case_names exec catch complete finished propagate abort]:
  assumes "resume env i c s = (r, s')"
  obtains
    out where "c = AwaitStart None" "r = Inr (Some (AwaitExec out))" "tasks s' = tasks s"
      "failedSends env (log s') = failedSends env (log s)"
  | e0 out where "c = AwaitStart (Some e0) \<or> c = AwaitExec (Inl e0) \<or> c = AwaitComplete (Some e0)"
      "r = Inr (Some (AwaitFailed out))"
      "tasks s' = (tasks s)[i := (tasks s ! i)\<lparr>status := Failed, error := Some e0\<rparr>]"
      "failedSends env (log s') = failedSends env (log s) @
         (case out of None \<Rightarrow> [] | Some e \<Rightarrow> [(MsgFailed (name (tasks s ! i)) e0, e)])"
  | v out where "c = AwaitExec (Inr v)" "r = Inr (Some (AwaitComplete out))"
      "tasks s' = (tasks s)[i := (tasks s ! i)\<lparr>status := Completed, result := Some v\<rparr>]"
      "failedSends env (log s') = failedSends env (log s) @
         (case out of None \<Rightarrow> [] | Some e \<Rightarrow> [(MsgComplete (name (tasks s ! i)), e)])"
  | "c = AwaitComplete None" "r = Inr None" "s' = s"
  | "c = AwaitFailed None" "r = Inr None"
      "tasks s' = markDependentTasksAsFailed (tid (tasks s ! i)) (tasks s)" "log s' = log s"
  | e where "c = AwaitFailed (Some e)" "r = Inl e" "s' = s"
proof -
  note rules = that
  have catch: thesis
    if c: "c = AwaitStart (Some e0) \<or> c = AwaitExec (Inl e0) \<or> c = AwaitComplete (Some e0)"
    for e0
  proof -
    from c assms have r: "r = Inr (Some (fst (catchBlock env i e0 s)))"
      and s: "s' = snd (catchBlock env i e0 s)" by (auto simp: split_beta)
    from catchBlock_sends [of env i e0 s] obtain out
      where o: "fst (catchBlock env i e0 s) = AwaitFailed out"
        and f: "failedSends env (log (snd (catchBlock env i e0 s))) =
          failedSends env (log s) @
            (case out of None \<Rightarrow> [] | Some e \<Rightarrow> [(MsgFailed (name (tasks s ! i)) e0, e)])"
      by blast
    show thesis
      by (rule rules(2) [of e0 out]) (use c r s o f in \<open>simp_all add: catchBlock_fields\<close>)
  qed
  show thesis
  proof (cases "(env, i, c, s)" rule: resume.cases)
    case (1 env' i' s0)
    with assms have "r = Inr (Some (AwaitExec (fst (executeTask env (tasks s ! i) s))))"
      and "s' = snd (executeTask env (tasks s ! i) s)" by (simp_all add: split_beta)
    with 1 show ?thesis
      by (intro rules(1)) (simp_all add: executeTask_def Let_def failedSends_snoc)
  next
    case (2 env' i' m s0)
    then show ?thesis by (intro catch [of m]) simp
  next
    case (3 env' i' v s0)
    from complete_sends [of env i v s] obtain out
      where o: "fst (resume env i (AwaitExec (Inr v)) s) = Inr (Some (AwaitComplete out))"
        and f: "failedSends env (log (snd (resume env i (AwaitExec (Inr v)) s))) =
          failedSends env (log s) @
            (case out of None \<Rightarrow> [] | Some e \<Rightarrow> [(MsgComplete (name (tasks s ! i)), e)])"
      by blast
    from 3 assms have c: "c = AwaitExec (Inr v)" by simp
    from assms c o have r: "r = Inr (Some (AwaitComplete out))" by simp
    from assms c have s': "s' = snd (resume env i (AwaitExec (Inr v)) s)" by simp
    have t: "tasks s' = (tasks s)[i := (tasks s ! i)\<lparr>status := Completed, result := Some v\<rparr>]"
      using assms c by (cases rule: resume_cases) simp_all
    show ?thesis
      by (rule rules(3) [of v out]) (use c r t f s' in simp_all)
  next
    case (4 env' i' m s0)
    then show ?thesis by (intro catch [of m]) simp
  next
    case (5 env' i' s0)
    with assms show ?thesis by (intro rules(4)) simp_all
  next
    case (6 env' i' m s0)
    then show ?thesis by (intro catch [of m]) simp
  next
    case (7 env' i' s0)
    with assms show ?thesis by (intro rules(5)) auto
  next
    case (8 env' i' m s0)
    with assms show ?thesis by (intro rules(6) [of m]) simp_all
  qed
qed

lemma InvN_extend:
  assumes inv: "InvN env m s"
    and len: "length (tasks s') = length (tasks s)"
    and names: "\<And>j. j < length (tasks s) \<Longrightarrow> name (tasks s' ! j) = name (tasks s ! j)"
    and keep: "\<And>j e. j < length (tasks s) \<Longrightarrow> caught m (tasks s) e j \<Longrightarrow> caught m' (tasks s') e j"
    and keepF: "\<And>j e. m j = Some (AwaitFailed (Some e)) \<Longrightarrow> m' j = Some (AwaitFailed (Some e))"
    and new: "failedSends env (log s') = failedSends env (log s) @ add"
    and addok: "\<And>msg e. (msg, e) \<in> set add \<Longrightarrow>
        (case msg of
           MsgFailed n x \<Rightarrow> (\<exists>i. m' i = Some (AwaitFailed (Some e)))
         | _ \<Rightarrow> (\<exists>i<length (tasks s'). name (tasks s' ! i) = msgName msg \<and> caught m' (tasks s') e i))"
    and orig: "\<And>j e. m' j = Some (AwaitFailed (Some e)) \<Longrightarrow>
        m j = Some (AwaitFailed (Some e)) \<or> (\<exists>n x. (MsgFailed n x, e) \<in> set add)"
  shows "InvN env m' s'"
  unfolding InvN_def
proof (intro conjI allI impI)
  fix msg e assume "(msg, e) \<in> set (failedSends env (log s'))"
  then consider "(msg, e) \<in> set (failedSends env (log s))" | "(msg, e) \<in> set add"
    unfolding new by auto
  then show "case msg of
           MsgFailed n x \<Rightarrow> (\<exists>i. m' i = Some (AwaitFailed (Some e)))
         | _ \<Rightarrow> (\<exists>i<length (tasks s'). name (tasks s' ! i) = msgName msg \<and> caught m' (tasks s') e i)"
  proof cases
    case 1
    with inv have old: "case msg of
           MsgFailed n x \<Rightarrow> (\<exists>i. m i = Some (AwaitFailed (Some e)))
         | _ \<Rightarrow> (\<exists>i<length (tasks s). name (tasks s ! i) = msgName msg \<and> caught m (tasks s) e i)"
      unfolding InvN_def by blast
    show ?thesis
    proof (cases msg)
      case (MsgStart n d)
      with old obtain i where "i < length (tasks s)" "name (tasks s ! i) = n" "caught m (tasks s) e i"
        by auto
      with keep [of i e] names [of i] len MsgStart show ?thesis by auto
    next
      case (MsgComplete n)
      with old obtain i where "i < length (tasks s)" "name (tasks s ! i) = n" "caught m (tasks s) e i"
        by auto
      with keep [of i e] names [of i] len MsgComplete show ?thesis by auto
    next
      case (MsgFailed n x)
      with old keepF show ?thesis by auto
    qed
  next
    case 2
    then show ?thesis by (rule addok)
  qed
next
  fix j e assume "m' j = Some (AwaitFailed (Some e))"
  from orig [OF this] show "\<exists>n x. (MsgFailed n x, e) \<in> set (failedSends env (log s'))"
  proof
    assume "m j = Some (AwaitFailed (Some e))"
    with inv show ?thesis unfolding InvN_def new by fastforce
  next
    assume "\<exists>n x. (MsgFailed n x, e) \<in> set add"
    then show ?thesis unfolding new by auto
  qed
qed

lemma InvN_startTask:
  assumes inv: "InvN env m s" and il: "i < length (tasks s)"
    and ip: "status (tasks s ! i) = Pending" and mi: "m i = None"
  shows "InvN env (m(i \<mapsto> fst (startTask env i s))) (snd (startTask env i s))"
proof -
  let ?s1 = "snd (startTask env i s)"
  from startTask_sends [of env i s] obtain out where o: "fst (startTask env i s) = AwaitStart out"
    and f: "failedSends env (log ?s1) = failedSends env (log s) @
         (case out of None \<Rightarrow> []
          | Some e \<Rightarrow> [(MsgStart (name (tasks s ! i)) (description (tasks s ! i)), e)])"
    by blast
  have t1: "tasks ?s1 = (tasks s)[i := (tasks s ! i)\<lparr>status := Running\<rparr>]"
    by (simp add: startTask_fields)
  show ?thesis
    unfolding o using inv _ _ _ _ f
  proof (rule InvN_extend)
    show "length (tasks ?s1) = length (tasks s)" by (simp add: t1)
    show "name (tasks ?s1 ! j) = name (tasks s ! j)" for j
      unfolding t1 by (rule name_update) simp
    show "caught (m(i \<mapsto> AwaitStart out)) (tasks ?s1) e j" if "caught m (tasks s) e j" for j e
    proof -
      from that mi ip have "j \<noteq> i" by (auto simp: caught_def)
      with that show ?thesis by (simp add: caught_def t1)
    qed
    show "(m(i \<mapsto> AwaitStart out)) j = Some (AwaitFailed (Some e))"
      if "m j = Some (AwaitFailed (Some e))" for j e
      using that mi by (cases "j = i") simp_all
    show "case msg of
           MsgFailed n x \<Rightarrow> (\<exists>j. (m(i \<mapsto> AwaitStart out)) j = Some (AwaitFailed (Some e)))
         | _ \<Rightarrow> (\<exists>j<length (tasks ?s1). name (tasks ?s1 ! j) = msgName msg \<and>
                  caught (m(i \<mapsto> AwaitStart out)) (tasks ?s1) e j)"
      if "(msg, e) \<in> set (case out of None \<Rightarrow> []
          | Some e \<Rightarrow> [(MsgStart (name (tasks s ! i)) (description (tasks s ! i)), e)])"
      for msg e
    proof -
      from that have "out = Some e" "msg = MsgStart (name (tasks s ! i)) (description (tasks s ! i))"
        by (cases out; simp)+
      with il show ?thesis
        by (auto simp: t1 caught_def intro!: exI [of _ i])
    qed
    show "m j = Some (AwaitFailed (Some e)) \<or>
        (\<exists>n x. (MsgFailed n x, e) \<in> set (case out of None \<Rightarrow> []
          | Some e \<Rightarrow> [(MsgStart (name (tasks s ! i)) (description (tasks s ! i)), e)]))"
      if "(m(i \<mapsto> AwaitStart out)) j = Some (AwaitFailed (Some e))" for j e
      using that by (cases "j = i") simp_all
  qed
qed

lemma name_markDependentTasksAsFailed:
  "j < length ts \<Longrightarrow> name (markDependentTasksAsFailed f ts ! j) = name (ts ! j)"
  using markDependentTasksAsFailed_nth [of j ts f] by (auto simp: markFailed_def)

lemma InvN_resume:
  assumes inv: "InvN env (map_of fl) s" and d: "distinct (map fst fl)" and k: "k < length fl"
    and ph: "status (tasks s ! fst (fl ! k)) = phaseStatus (snd (fl ! k))"
    and il: "fst (fl ! k) < length (tasks s)"
    and res: "resume env (fst (fl ! k)) (snd (fl ! k)) s = (Inr r, s')"
  shows "InvN env (map_of (case r of None \<Rightarrow> take k fl @ drop (Suc k) fl
                            | Some c \<Rightarrow> fl[k := (fst (fl ! k), c)])) s'"
proof -
  let ?i = "fst (fl ! k)" and ?c = "snd (fl ! k)" and ?m = "map_of fl" and ?ts = "tasks s"
  have mi: "?m ?i = Some ?c" using d k by (rule map_of_nth)
  have upd: "map_of (fl[k := (?i, c)]) = ?m(?i \<mapsto> c)" for c
    using d k by (rule map_of_update)
  have rem: "map_of (take k fl @ drop (Suc k) fl) = ?m(?i := None)"
    using d k by (rule map_of_remove)
  from res show ?thesis
  proof (cases rule: resume_send_cases [where env = env])
    case (exec out)
    have "InvN env (?m(?i \<mapsto> AwaitExec out)) s'"
      using inv
    proof (rule InvN_extend [where add = "[]"])
      show "length (tasks s') = length ?ts" using exec by simp
      show "name (tasks s' ! j) = name (?ts ! j)" for j using exec by simp
      show "caught (?m(?i \<mapsto> AwaitExec out)) (tasks s') e j" if "caught ?m ?ts e j" for j e
      proof -
        from that mi exec(1) ph have "j \<noteq> ?i" by (auto simp: caught_def)
        with that exec show ?thesis by (simp add: caught_def)
      qed
      show "(?m(?i \<mapsto> AwaitExec out)) j = Some (AwaitFailed (Some e))"
        if "?m j = Some (AwaitFailed (Some e))" for j e
        using that mi exec(1) by (cases "j = ?i") simp_all
      show "failedSends env (log s') = failedSends env (log s) @ []" using exec by simp
      show "?m j = Some (AwaitFailed (Some e)) \<or> (\<exists>n x. (MsgFailed n x, e) \<in> set [])"
        if "(?m(?i \<mapsto> AwaitExec out)) j = Some (AwaitFailed (Some e))" for j e
        using that by (cases "j = ?i") simp_all
    qed simp
    with exec upd show ?thesis by simp
  next
    case (catch e0 out)
    let ?add = "case out of None \<Rightarrow> [] | Some e \<Rightarrow> [(MsgFailed (name (?ts ! ?i)) e0, e)]"
    from catch(1) ph have nf: "status (?ts ! ?i) \<noteq> Failed" by auto
    have "InvN env (?m(?i \<mapsto> AwaitFailed out)) s'"
      using inv
    proof (rule InvN_extend [where add = ?add])
      show "length (tasks s') = length ?ts" using catch by simp
      show "name (tasks s' ! j) = name (?ts ! j)" for j
        unfolding catch by (rule name_update) simp
      show "caught (?m(?i \<mapsto> AwaitFailed out)) (tasks s') e j"
        if "j < length ?ts" "caught ?m ?ts e j" for j e
      proof (cases "j = ?i")
        case True
        with that mi catch(1) nf have "e0 = e" by (auto simp: caught_def)
        with True il catch show ?thesis by (simp add: caught_def)
      next
        case False
        with that catch show ?thesis by (simp add: caught_def)
      qed
      show "(?m(?i \<mapsto> AwaitFailed out)) j = Some (AwaitFailed (Some e))"
        if "?m j = Some (AwaitFailed (Some e))" for j e
        using that mi catch(1) by (cases "j = ?i") auto
      show "failedSends env (log s') = failedSends env (log s) @ ?add" by (rule catch)
      show "case msg of
           MsgFailed n x \<Rightarrow> (\<exists>j. (?m(?i \<mapsto> AwaitFailed out)) j = Some (AwaitFailed (Some e)))
         | _ \<Rightarrow> (\<exists>j<length (tasks s'). name (tasks s' ! j) = msgName msg \<and>
                  caught (?m(?i \<mapsto> AwaitFailed out)) (tasks s') e j)"
        if "(msg, e) \<in> set ?add" for msg e
      proof -
        from that have "out = Some e" "msg = MsgFailed (name (?ts ! ?i)) e0"
          by (cases out; simp)+
        then show ?thesis by (auto intro!: exI [of _ ?i])
      qed
      show "?m j = Some (AwaitFailed (Some e)) \<or> (\<exists>n x. (MsgFailed n x, e) \<in> set ?add)"
        if "(?m(?i \<mapsto> AwaitFailed out)) j = Some (AwaitFailed (Some e))" for j e
        using that by (cases "j = ?i") auto
    qed
    with catch upd show ?thesis by simp
  next
    case (complete v out)
    let ?add = "case out of None \<Rightarrow> [] | Some e \<Rightarrow> [(MsgComplete (name (?ts ! ?i)), e)]"
    from complete(1) ph mi have nf: "status (?ts ! ?i) \<noteq> Failed" by auto
    have "InvN env (?m(?i \<mapsto> AwaitComplete out)) s'"
      using inv
    proof (rule InvN_extend [where add = ?add])
      show "length (tasks s') = length ?ts" using complete by simp
      show "name (tasks s' ! j) = name (?ts ! j)" for j
        unfolding complete by (rule name_update) simp
      show "caught (?m(?i \<mapsto> AwaitComplete out)) (tasks s') e j"
        if "j < length ?ts" "caught ?m ?ts e j" for j e
      proof -
        from that mi complete(1) nf have "j \<noteq> ?i" by (auto simp: caught_def)
        with that complete show ?thesis by (simp add: caught_def)
      qed
      show "(?m(?i \<mapsto> AwaitComplete out)) j = Some (AwaitFailed (Some e))"
        if "?m j = Some (AwaitFailed (Some e))" for j e
        using that mi complete(1) by (cases "j = ?i") auto
      show "failedSends env (log s') = failedSends env (log s) @ ?add" by (rule complete)
      show "case msg of
           MsgFailed n x \<Rightarrow> (\<exists>j. (?m(?i \<mapsto> AwaitComplete out)) j = Some (AwaitFailed (Some e)))
         | _ \<Rightarrow> (\<exists>j<length (tasks s'). name (tasks s' ! j) = msgName msg \<and>
                  caught (?m(?i \<mapsto> AwaitComplete out)) (tasks s') e j)"
        if "(msg, e) \<in> set ?add" for msg e
      proof -
        from that have "out = Some e" "msg = MsgComplete (name (?ts ! ?i))"
          by (cases out; simp)+
        with il complete(3) show ?thesis
          by (auto simp: caught_def intro!: exI [of _ ?i])
      qed
      show "?m j = Some (AwaitFailed (Some e)) \<or> (\<exists>n x. (MsgFailed n x, e) \<in> set ?add)"
        if "(?m(?i \<mapsto> AwaitComplete out)) j = Some (AwaitFailed (Some e))" for j e
        using that by (cases "j = ?i") auto
    qed
    with complete upd show ?thesis by simp
  next
    case finished
    from finished(1) ph mi have nf: "status (?ts ! ?i) \<noteq> Failed" by auto
    have "InvN env (?m(?i := None)) s'"
      using inv
    proof (rule InvN_extend [where add = "[]"])
      show "length (tasks s') = length ?ts" using finished by simp
      show "name (tasks s' ! j) = name (?ts ! j)" for j using finished by simp
      show "caught (?m(?i := None)) (tasks s') e j" if "caught ?m ?ts e j" for j e
      proof -
        from that mi finished(1) nf have "j \<noteq> ?i" by (auto simp: caught_def)
        with that finished show ?thesis by (simp add: caught_def)
      qed
      show "(?m(?i := None)) j = Some (AwaitFailed (Some e))"
        if "?m j = Some (AwaitFailed (Some e))" for j e
        using that mi finished(1) by (cases "j = ?i") auto
      show "failedSends env (log s') = failedSends env (log s) @ []" using finished by simp
      show "?m j = Some (AwaitFailed (Some e)) \<or> (\<exists>n x. (MsgFailed n x, e) \<in> set [])"
        if "(?m(?i := None)) j = Some (AwaitFailed (Some e))" for j e
        using that by (cases "j = ?i") simp_all
    qed simp
    with finished rem show ?thesis by simp
  next
    case propagate
    have "InvN env (?m(?i := None)) s'"
      using inv
    proof (rule InvN_extend [where add = "[]"])
      show "length (tasks s') = length ?ts" using propagate by simp
      show "name (tasks s' ! j) = name (?ts ! j)" if "j < length ?ts" for j
        using propagate that by (simp add: name_markDependentTasksAsFailed)
      show "caught (?m(?i := None)) (tasks s') e j"
        if "j < length ?ts" "caught ?m ?ts e j" for j e
      proof (cases "status (?ts ! j) = Failed \<and> error (?ts ! j) = Some e")
        case True
        with markDependentTasksAsFailed_nth [OF that(1), of "tid (?ts ! ?i)"]
        have "tasks s' ! j = ?ts ! j" using propagate by auto
        with True show ?thesis by (simp add: caught_def)
      next
        case False
        with that mi propagate(1) have "j \<noteq> ?i" by (auto simp: caught_def)
        with that False show ?thesis by (auto simp: caught_def)
      qed
      show "(?m(?i := None)) j = Some (AwaitFailed (Some e))"
        if "?m j = Some (AwaitFailed (Some e))" for j e
        using that mi propagate(1) by (cases "j = ?i") auto
      show "failedSends env (log s') = failedSends env (log s) @ []" using propagate by simp
      show "?m j = Some (AwaitFailed (Some e)) \<or> (\<exists>n x. (MsgFailed n x, e) \<in> set [])"
        if "(?m(?i := None)) j = Some (AwaitFailed (Some e))" for j e
        using that by (cases "j = ?i") simp_all
    qed simp
    with propagate rem show ?thesis by simp
  next
    case (abort e)
    then show ?thesis by simp
  qed
qed

lemma InvN_dispatchAll:
  "InvN env (map_of fl) s \<Longrightarrow> \<forall>p\<in>set fl. status (tasks s ! fst p) \<noteq> Pending \<Longrightarrow> distinct is \<Longrightarrow>
   (\<forall>i\<in>set is. i < length (tasks s) \<and> status (tasks s ! i) = Pending) \<Longrightarrow>
   InvN env (map_of (fst (dispatchAll env is fl s))) (snd (dispatchAll env is fl s))"
proof (induction "is" arbitrary: fl s)
  case Nil
  then show ?case by simp
next
  case (Cons i "is")
  define s1 where "s1 = snd (startTask env i s)"
  define fl1 where "fl1 = fl @ [(i, fst (startTask env i s))]"
  have eq: "dispatchAll env (i # is) fl s = dispatchAll env is fl1 s1"
    by (simp add: split_beta s1_def fl1_def)
  from Cons.prems have il: "i < length (tasks s)" and ip: "status (tasks s ! i) = Pending"
    and ni: "i \<notin> set is" and dis: "distinct is" by simp_all
  from Cons.prems(2) ip have nf: "i \<notin> fst ` set fl" by auto
  then have mi: "map_of fl i = None" by (simp add: map_of_eq_None_iff)
  have mo: "map_of fl1 = (map_of fl)(i \<mapsto> fst (startTask env i s))"
    unfolding fl1_def using nf by (rule map_of_snoc)
  have t1: "tasks s1 = (tasks s)[i := (tasks s ! i)\<lparr>status := Running\<rparr>]"
    by (simp add: s1_def startTask_fields)
  have inv: "InvN env (map_of fl1) s1"
    unfolding mo s1_def using Cons.prems(1) il ip mi by (rule InvN_startTask)
  have np: "\<forall>p\<in>set fl1. status (tasks s1 ! fst p) \<noteq> Pending"
  proof
    fix p assume "p \<in> set fl1"
    then consider "p \<in> set fl" | "fst p = i" by (auto simp: fl1_def)
    then show "status (tasks s1 ! fst p) \<noteq> Pending"
    proof cases
      case 1
      with Cons.prems(2) nf have "status (tasks s ! fst p) \<noteq> Pending" "fst p \<noteq> i" by auto
      then show ?thesis by (simp add: t1)
    next
      case 2
      with il show ?thesis by (simp add: t1)
    qed
  qed
  have rest: "\<forall>j\<in>set is. j < length (tasks s1) \<and> status (tasks s1 ! j) = Pending"
  proof
    fix j assume j: "j \<in> set is"
    with ni have "j \<noteq> i" by blast
    moreover from j Cons.prems(4) have "j < length (tasks s) \<and> status (tasks s ! j) = Pending"
      by simp
    ultimately show "j < length (tasks s1) \<and> status (tasks s1 ! j) = Pending"
      by (simp add: t1)
  qed
  show ?case unfolding eq using inv np dis rest by (rule Cons.IH)
qed

lemma InvN_sent:
  assumes "InvN env m s" and "(msg, e) \<in> set (failedSends env (log s))"
  shows "case msg of
           MsgFailed n x \<Rightarrow> (\<exists>i. m i = Some (AwaitFailed (Some e)))
         | _ \<Rightarrow> (\<exists>i<length (tasks s). name (tasks s ! i) = msgName msg \<and> caught m (tasks s) e i)"
  using assms unfolding InvN_def by (elim conjE allE [of _ msg] allE [of _ e] impE) assumption+

lemma InvN_awaited:
  assumes "InvN env m s" and "m i = Some (AwaitFailed (Some e))"
  shows "\<exists>n x. (MsgFailed n x, e) \<in> set (failedSends env (log s))"
  using assms unfolding InvN_def by blast

lemma InvN_sched: "InvN env m (s\<lparr>sched := x\<rparr>) = InvN env m s"
  by (simp add: InvN_def cong: message.case_cong)

lemma reachable_InvN:
  assumes l0: "log s0 = []"
  shows "x \<in> reachable env s0 \<Longrightarrow> InvN env (map_of (fst x)) (snd x)"
proof (induction rule: reachable.induct)
  case head
  show ?case by (simp add: InvN_def l0 failedSends_def)
next
  case (wave s)
  have "InvN env (map_of (fst (dispatchAll env (readyIdx (tasks s)) [] s)))
          (snd (dispatchAll env (readyIdx (tasks s)) [] s))"
    using _ _ distinct_readyIdx readyIdx_pending
  proof (rule InvN_dispatchAll)
    show "InvN env (map_of []) s" using wave.IH by simp
  qed simp
  then show ?case by simp
next
  case (step fl s k r s')
  let ?s = "s\<lparr>sched := tl (sched s)\<rparr>"
  have kl: "k < length fl" using step.hyps(2,3) by (simp add: nextUp_less)
  note K = reachable_InvK [OF step.hyps(1)]
  have mi: "map_of fl (fst (fl ! k)) = Some (snd (fl ! k))" using K(1) kl by (rule map_of_nth)
  with K(2) have ph: "status (tasks ?s ! fst (fl ! k)) = phaseStatus (snd (fl ! k))"
    and il: "fst (fl ! k) < length (tasks ?s)"
    using graphOf_nth(1) [of "tasks s" "tasks s0"] unfolding InvK_def by auto
  have "InvN env (map_of fl) ?s" using step.IH by (simp add: InvN_sched)
  then have "InvN env (map_of (case r of None \<Rightarrow> take k fl @ drop (Suc k) fl
                            | Some c \<Rightarrow> fl[k := (fst (fl ! k), c)])) s'"
    using K(1) kl ph il step.hyps(4) by (rule InvN_resume)
  then show ?case by simp
qed

text \<open>
  Claim C1 says that a failure of the notifier never changes a task's status, result or
  error and never aborts the run. With every message delivered, both tasks of \<open>twoTasks\<close>
  complete. With a notifier that fails on every message, the failure of the task-started
  notification is caught at line 71: task \<open>a\<close> is marked failed with the notifier's
  message and its agent is never called; then the task-failed notification of line 75
  fails inside the \<^verbatim>\<open>catch\<close> block, and the run ends with that error, task \<open>b\<close> still
  pending.
\<close>

theorem notifier_failure_counterexample:
  "executeTaskDAG (larkEnv True) [] twoTasks =
     Some (Inr
       \<lparr>tasks = [(mkTask ''a'' [] Pending)\<lparr>status := Completed, result := Some 7\<rparr>,
                 (mkTask ''b'' [''a''] Pending)\<lparr>status := Completed, result := Some 7\<rparr>],
        results = [''a'' \<mapsto> 7, ''b'' \<mapsto> 7],
        log = [Sent ''chat'' (MsgStart ''a'' []), RunAgent ''a'', Sent ''chat'' (MsgComplete ''a''),
               Sent ''chat'' (MsgStart ''b'' []), RunAgent ''b'', Sent ''chat'' (MsgComplete ''b'')],
        sched = []\<rparr>) \<and>
   executeTaskDAG (larkEnv False) [] twoTasks =
     Some (Inl (''lark down'',
       \<lparr>tasks = [(mkTask ''a'' [] Pending)\<lparr>status := Failed, error := Some ''lark down''\<rparr>,
                 mkTask ''b'' [''a''] Pending],
        results = Map.empty,
        log = [Sent ''chat'' (MsgStart ''a'' []), Sent ''chat'' (MsgFailed ''a'' ''lark down'')],
        sched = []\<rparr>))"
  by (simp add: run_simps larkEnv_def twoTasks_def mkTask_def upt_0_2)

text \<open>
  Claim C1, as the code has it: the notifications are awaited inside the \<^verbatim>\<open>try\<close> block
  of the task, and the task-failed notification inside its \<^verbatim>\<open>catch\<close> block, so that no
  failure of the notifier is without effect. For every collection, notifier, agents and
  order of resumption: when \<open>executeTaskDAG\<close> returns normally, every notification of the
  run that failed was a task-started or a task-completed notification, and a task of the
  name it carries has ended failed, with the notifier's error as its error. When
  \<open>executeTaskDAG\<close> throws, what it throws is the error of a task-failed notification of
  the run that failed.
\<close>

theorem notifier_failure_handling:
  "(executeTaskDAG env schedule ts = Some (Inr s') \<longrightarrow>
      (\<forall>msg e. (msg, e) \<in> set (failedSends env (log s')) \<longrightarrow>
         (\<forall>n x. msg \<noteq> MsgFailed n x) \<and>
         (\<exists>i<length (tasks s'). name (tasks s' ! i) = msgName msg \<and>
            status (tasks s' ! i) = Failed \<and> error (tasks s' ! i) = Some e))) \<and>
   (executeTaskDAG env schedule ts = Some (Inl (m, s')) \<longrightarrow>
      (\<exists>n x. (MsgFailed n x, m) \<in> set (failedSends env (log s'))))"
proof (intro conjI impI allI)
  assume "executeTaskDAG env schedule ts = Some (Inr s')"
  then have "schedulingLoop env (initRun schedule ts) = Some (Inr s')"
    by (simp add: executeTaskDAG_def)
  from schedulingLoop_reachable [OF this]
  have "([], s') \<in> reachable env (initRun schedule ts)" by simp
  from reachable_InvN [OF _ this] have inv: "InvN env Map.empty s'" by (simp add: initRun_def)
  fix msg e assume f: "(msg, e) \<in> set (failedSends env (log s'))"
  note h = InvN_sent [OF inv f]
  then show "msg \<noteq> MsgFailed n x" for n x by (cases msg) simp_all
  from h show "\<exists>i<length (tasks s'). name (tasks s' ! i) = msgName msg \<and>
            status (tasks s' ! i) = Failed \<and> error (tasks s' ! i) = Some e"
    by (cases msg) (simp_all add: caught_def)
next
  assume "executeTaskDAG env schedule ts = Some (Inl (m, s'))"
  then have "schedulingLoop env (initRun schedule ts) = Some (Inl (m, s'))"
    by (simp add: executeTaskDAG_def)
  from schedulingLoop_reachable [OF this]
  obtain fl1 s1 where r: "(fl1, s1) \<in> reachable env (initRun schedule ts)" and ne: "fl1 \<noteq> []"
    and c: "snd (fl1 ! nextUp (sched s1) (length fl1)) = AwaitFailed (Some m)"
    and s': "s' = s1\<lparr>sched := tl (sched s1)\<rparr>" by auto
  let ?k = "nextUp (sched s1) (length fl1)"
  have kl: "?k < length fl1" using ne by (simp add: nextUp_less)
  have "map_of fl1 (fst (fl1 ! ?k)) = Some (snd (fl1 ! ?k))"
    using reachable_InvK(1) [OF r] kl by (rule map_of_nth)
  with c have "map_of fl1 (fst (fl1 ! ?k)) = Some (AwaitFailed (Some m))" by simp
  moreover from reachable_InvN [OF _ r] have "InvN env (map_of fl1) s1" by (simp add: initRun_def)
  ultimately have "\<exists>n x. (MsgFailed n x, m) \<in> set (failedSends env (log s1))"
    by (intro InvN_awaited)
  then show "\<exists>n x. (MsgFailed n x, m) \<in> set (failedSends env (log s'))" by (simp add: s')
qed

theorem notifier_failure_handling_witness:
  "executeTaskDAG completeDownEnv [] [mkTask ''a'' [] Pending] =
     Some (Inr
       \<lparr>tasks = [(mkTask ''a'' [] Pending)
                   \<lparr>status := Failed, result := Some 7, error := Some ''lark down''\<rparr>],
        results = [''a'' \<mapsto> 7],
        log = [Sent ''chat'' (MsgStart ''a'' []), RunAgent ''a'', Sent ''chat'' (MsgComplete ''a''),
               Sent ''chat'' (MsgFailed ''a'' ''lark down'')],
        sched = []\<rparr>) \<and>
   failedSends completeDownEnv
       [Sent ''chat'' (MsgStart ''a'' []), RunAgent ''a'', Sent ''chat'' (MsgComplete ''a''),
        Sent ''chat'' (MsgFailed ''a'' ''lark down'')] = [(MsgComplete ''a'', ''lark down'')] \<and>
   (\<exists>i<1. name ([(mkTask ''a'' [] Pending)
                   \<lparr>status := Failed, result := Some 7, error := Some ''lark down''\<rparr>] ! i) = ''a'' \<and>
          status ([(mkTask ''a'' [] Pending)
                   \<lparr>status := Failed, result := Some 7, error := Some ''lark down''\<rparr>] ! i) = Failed \<and>
          error ([(mkTask ''a'' [] Pending)
                   \<lparr>status := Failed, result := Some 7, error := Some ''lark down''\<rparr>] ! i)
            = Some ''lark down'') \<and>
   executeTaskDAG (larkEnv False) [] twoTasks =
     Some (Inl (''lark down'',
       \<lparr>tasks = [(mkTask ''a'' [] Pending)\<lparr>status := Failed, error := Some ''lark down''\<rparr>,
                 mkTask ''b'' [''a''] Pending],
        results = Map.empty,
        log = [Sent ''chat'' (MsgStart ''a'' []), Sent ''chat'' (MsgFailed ''a'' ''lark down'')],
        sched = []\<rparr>)) \<and>
   (\<exists>n x. (MsgFailed n x, ''lark down'')
      \<in> set (failedSends (larkEnv False)
           [Sent ''chat'' (MsgStart ''a'' []), Sent ''chat'' (MsgFailed ''a'' ''lark down'')]))"
proof -
  let ?s1 = "\<lparr>tasks = [(mkTask ''a'' [] Pending)
                   \<lparr>status := Failed, result := Some 7, error := Some ''lark down''\<rparr>],
        results = [''a'' \<mapsto> 7 :: nat],
        log = [Sent ''chat'' (MsgStart ''a'' []), RunAgent ''a'', Sent ''chat'' (MsgComplete ''a''),
               Sent ''chat'' (MsgFailed ''a'' ''lark down'')],
        sched = []\<rparr>"
  let ?s2 = "\<lparr>tasks = [(mkTask ''a'' [] Pending)\<lparr>status := Failed, error := Some ''lark down''\<rparr>,
                 mkTask ''b'' [''a''] Pending],
        results = Map.empty :: string \<rightharpoonup> nat,
        log = [Sent ''chat'' (MsgStart ''a'' []), Sent ''chat'' (MsgFailed ''a'' ''lark down'')],
        sched = []\<rparr>"
  have run1: "executeTaskDAG completeDownEnv [] [mkTask ''a'' [] Pending] = Some (Inr ?s1)"
    by (simp add: run_simps completeDownEnv_def mkTask_def markLoop.simps)
  have run2: "executeTaskDAG (larkEnv False) [] twoTasks = Some (Inl (''lark down'', ?s2))"
    by (simp add: run_simps larkEnv_def twoTasks_def mkTask_def upt_0_2)
  have f1: "failedSends completeDownEnv (log ?s1) = [(MsgComplete ''a'', ''lark down'')]"
    by (simp add: failedSends_def sendOutcome_def completeDownEnv_def
        upt_rec [of 0] upt_rec [of 1] upt_rec [of 2] upt_rec [of 3] upt_rec [of 4])
  from notifier_failure_handling [where env = completeDownEnv and schedule = "[]"
      and ts = "[mkTask ''a'' [] Pending]" and s' = ?s1] run1 f1
  have a: "\<exists>i<length (tasks ?s1). name (tasks ?s1 ! i) = msgName (MsgComplete ''a'') \<and>
            status (tasks ?s1 ! i) = Failed \<and> error (tasks ?s1 ! i) = Some ''lark down''"
    by (metis list.set_intros(1))
  from notifier_failure_handling [where env = "larkEnv False" and schedule = "[]"
      and ts = twoTasks and m = "''lark down''" and s' = ?s2] run2
  have b: "\<exists>n x. (MsgFailed n x, ''lark down'') \<in> set (failedSends (larkEnv False) (log ?s2))"
    by blast
  from run1 run2 f1 a b show ?thesis by simp
qed

end
